(* ===== verification/K8s_Prelude.thy ===== *)
theory K8s_Prelude
  imports Main "HOL-Library.Sublist" "HOL-Library.Char_ord" "HOL-Library.List_Lexorder"
begin

text \<open>
  Shared vocabulary of the development: the operations of Go's \<open>strings\<close> package that the modelled
  code calls, Go slices and maps, and the generic lemmas on lists and maps that the component
  theories use.  Strings are byte lists, as Go strings are; \<open>len\<close> is \<^const>\<open>length\<close>.
\<close>

named_theorems go_strings \<open>characterisations of the modelled operations of package strings\<close>
named_theorems go_maps \<open>facts about iteration over Go maps\<close>

section \<open>Strings\<close>

definition HasPrefix :: "string \<Rightarrow> string \<Rightarrow> bool" where
  "HasPrefix s p \<longleftrightarrow> take (length p) s = p"

definition HasSuffix :: "string \<Rightarrow> string \<Rightarrow> bool" where
  "HasSuffix s p \<longleftrightarrow> length p \<le> length s \<and> drop (length s - length p) s = p"

text \<open>\<open>strings.TrimRight(s, c)\<close> for a cutset of one character.\<close>

definition TrimRight :: "string \<Rightarrow> char \<Rightarrow> string" where
  "TrimRight s c = rev (dropWhile (\<lambda>x. x = c) (rev s))"

definition TrimPrefix :: "string \<Rightarrow> string \<Rightarrow> string" where
  "TrimPrefix s p = (if HasPrefix s p then drop (length p) s else s)"

text \<open>\<open>strings.Contains(s, c)\<close> for a one-character needle.\<close>

definition ContainsChar :: "string \<Rightarrow> char \<Rightarrow> bool" where
  "ContainsChar s c \<longleftrightarrow> c \<in> set s"

text \<open>\<open>strings.SplitN(s, c, 2)\<close> for a one-character separator: one or two parts.\<close>

definition SplitN2 :: "string \<Rightarrow> char \<Rightarrow> string list" where
  "SplitN2 s c =
     (if c \<in> set s then [takeWhile (\<lambda>x. x \<noteq> c) s, tl (dropWhile (\<lambda>x. x \<noteq> c) s)] else [s])"

text \<open>\<open>strings.Split(s, c)\<close> for a one-character separator.\<close>

fun Split :: "string \<Rightarrow> char \<Rightarrow> string list" where
  "Split [] c = [[]]"
| "Split (x # xs) c =
     (if x = c then [] # Split xs c
      else (case Split xs c of [] \<Rightarrow> [[x]] | p # ps \<Rightarrow> (x # p) # ps))"

fun Join :: "string list \<Rightarrow> string \<Rightarrow> string" where
  "Join [] sep = []"
| "Join [s] sep = s"
| "Join (s # t # ss) sep = s @ sep @ Join (t # ss) sep"

lemma HasPrefix_iff [go_strings]: "HasPrefix s p \<longleftrightarrow> prefix p s"
  unfolding HasPrefix_def prefix_def
  by (metis append_eq_conv_conj append_take_drop_id)

lemma HasSuffix_iff [go_strings]: "HasSuffix s p \<longleftrightarrow> suffix p s"
proof
  assume "HasSuffix s p"
  then show "suffix p s"
    unfolding HasSuffix_def suffix_def by (metis append_take_drop_id)
next
  assume "suffix p s"
  then show "HasSuffix s p"
    unfolding HasSuffix_def suffix_def by auto
qed

lemma HasSuffix_char [go_strings]: "HasSuffix s [c] \<longleftrightarrow> s \<noteq> [] \<and> last s = c"
  by (cases s rule: rev_cases) (auto simp: HasSuffix_iff)

lemma TrimRight_Nil [simp]: "TrimRight [] c = []"
  by (simp add: TrimRight_def)

lemma TrimRight_snoc [simp]: "TrimRight (s @ [x]) c = (if x = c then TrimRight s c else s @ [x])"
  by (simp add: TrimRight_def)

lemma TrimRight_prefix: "prefix (TrimRight s c) s"
  by (induction s rule: rev_induct) (auto intro: prefix_order.trans)

lemma TrimRight_last: "TrimRight s c \<noteq> [] \<Longrightarrow> last (TrimRight s c) \<noteq> c"
  by (induction s rule: rev_induct) (auto split: if_splits)

text \<open>A prefix that does not end in the trimmed character survives the trimming.\<close>

lemma prefix_TrimRight:
  "prefix p s \<Longrightarrow> p = [] \<or> last p \<noteq> c \<Longrightarrow> prefix p (TrimRight s c)"
proof (induction s rule: rev_induct)
  case Nil
  then show ?case by simp
next
  case (snoc x s)
  then show ?case by (cases "p = s @ [x]") auto
qed

text \<open>The part before the first separator and the part after it are determined by the string.\<close>

lemma first_separator_unique:
  "c \<notin> set p \<Longrightarrow> c \<notin> set q \<Longrightarrow> p @ c # s = q @ c # t \<longleftrightarrow> p = q \<and> s = t"
proof (induction p arbitrary: q)
  case Nil
  then show ?case by (cases q) auto
next
  case (Cons x p)
  then show ?case by (cases q) auto
qed

lemma SplitN2_separator: "c \<notin> set p \<Longrightarrow> SplitN2 (p @ c # t) c = [p, t]"
  by (induction p) (auto simp: SplitN2_def)

lemma SplitN2_second:
  assumes "c \<in> set s"
  shows "\<exists>pre. c \<notin> set pre \<and> s = pre @ c # SplitN2 s c ! 1"
proof -
  from assms obtain pre t where s: "s = pre @ c # t" "c \<notin> set pre"
    by (meson split_list_first)
  have "x \<noteq> c" if "x \<in> set pre" for x
    using s(2) that by auto
  then have "dropWhile (\<lambda>x. x \<noteq> c) s = c # t"
    unfolding s(1) by (subst dropWhile_append2) auto
  with s show ?thesis by (auto simp: SplitN2_def)
qed

lemma Split_neq_Nil [simp]: "Split s c \<noteq> []"
  by (induction s) (auto split: list.splits)

lemma Split_absent: "c \<notin> set s \<Longrightarrow> Split s c = [s]"
  by (induction s) auto

lemma Split_append: "c \<notin> set s \<Longrightarrow> Split (s @ c # t) c = s # Split t c"
  by (induction s) auto

section \<open>Slices\<close>

text \<open>
  A slice whose nil-ness the code observes is a \<open>list option\<close> (\<^const>\<open>None\<close> is nil); everywhere
  else nil and empty slices behave alike and a slice is a list.
\<close>

type_synonym 'a slice = "'a list option"

definition elems :: "'a slice \<Rightarrow> 'a list" where
  "elems s = (case s of None \<Rightarrow> [] | Some xs \<Rightarrow> xs)"

lemma elems_simps [simp]: "elems None = []" "elems (Some xs) = xs"
  by (simp_all add: elems_def)

section \<open>Maps\<close>

text \<open>
  A Go map is a partial function.  The order of \<open>range m\<close> is unspecified in Go and may differ from
  loop to loop, so every modelled loop over a map takes the key order of that loop as an argument;
  \<open>range_keys ks m\<close> says that \<open>ks\<close> is a possible order.
\<close>

definition range_keys :: "'k list \<Rightarrow> ('k \<rightharpoonup> 'v) \<Rightarrow> bool" where
  "range_keys ks m \<longleftrightarrow> distinct ks \<and> set ks = dom m"

lemma range_keysD [go_maps, dest]:
  assumes "range_keys ks m"
  shows "distinct ks" "set ks = dom m"
  using assms by (simp_all add: range_keys_def)

lemma range_keys_empty [simp]: "range_keys [] Map.empty"
  by (simp add: range_keys_def)

lemma range_keys_empty_iff [simp]: "range_keys ks Map.empty \<longleftrightarrow> ks = []"
  by (auto simp: range_keys_def)

text \<open>Maps that hold every value under its own key.\<close>

lemma ran_keyed_upd [go_maps]:
  "(\<And>k v. m k = Some v \<Longrightarrow> key v = k) \<Longrightarrow> ran (m(k \<mapsto> x)) = insert x {v \<in> ran m. key v \<noteq> k}"
  by (auto simp: ran_def split: if_splits)

lemma ran_keyed_del [go_maps]:
  "(\<And>k v. m k = Some v \<Longrightarrow> key v = k) \<Longrightarrow> ran (m(k := None)) = {v \<in> ran m. key v \<noteq> k}"
  by (auto simp: ran_def split: if_splits)

lemma ran_keyed_lookup [go_maps]:
  "(\<And>k v. m k = Some v \<Longrightarrow> key v = k) \<Longrightarrow> m k = None \<longleftrightarrow> (\<forall>v \<in> ran m. key v \<noteq> k)"
  by (cases "m k") (auto simp: ran_def)

lemma map_filter_ran: "set ks = dom m \<Longrightarrow> set (List.map_filter m ks) = ran m"
proof -
  assume ks: "set ks = dom m"
  have "set (List.map_filter m ks) = {v. \<exists>k \<in> set ks. m k = Some v}"
    by (induction ks) (auto simp: map_filter_def split: option.splits)
  also have "\<dots> = ran m" unfolding ks by (auto simp: ran_def)
  finally show ?thesis .
qed

lemma distinct_map_filter_keyed:
  "distinct ks \<Longrightarrow> (\<And>k v. m k = Some v \<Longrightarrow> key v = k) \<Longrightarrow> distinct (List.map_filter m ks)"
proof (induction ks)
  case (Cons k ks)
  have set: "set (List.map_filter m ks) = {v. \<exists>k \<in> set ks. m k = Some v}"
    by (induction ks) (auto simp: map_filter_def split: option.splits)
  have "v \<notin> set (List.map_filter m ks)" if "m k = Some v" for v
    using that Cons.prems(1) Cons.prems(2) [of k v] Cons.prems(2) [of _ v] unfolding set by auto
  with Cons show ?case by (cases "m k") (simp_all add: map_filter_simps)
qed (simp add: map_filter_simps)

end
