(* ===== verification/Rbac_Rules.thy ===== *)
theory Rbac_Rules
  imports K8s_Prelude
begin

text \<open>
  RBAC policy rules: the API types of \<open>staging/src/k8s.io/api/rbac/v1/types.go\<close>, the matching of a
  request against one rule (\<open>pkg/apis/rbac/v1/evaluation_helpers.go\<close>, \<open>RuleAllows\<close> of
  \<open>plugin/pkg/auth/authorizer/rbac/rbac.go\<close>), the comparison of rule sets used by the escalation
  check (\<open>pkg/registry/rbac/validation/policy_comparator.go\<close>) and the compaction of rule lists
  (\<open>policy_compact.go\<close>).  The lemmas relate the comparison and the compaction to the requests that
  the rules allow.
\<close>

section \<open>API types\<close>

abbreviation APIGroupAll :: string where "APIGroupAll \<equiv> ''*''"
abbreviation ResourceAll :: string where "ResourceAll \<equiv> ''*''"
abbreviation VerbAll :: string where "VerbAll \<equiv> ''*''"
abbreviation NonResourceAll :: string where "NonResourceAll \<equiv> ''*''"

record PolicyRule =
  Verbs :: "string list"
  APIGroups :: "string list"
  Resources :: "string list"
  ResourceNames :: "string list"
  NonResourceURLs :: "string slice"

text \<open>The zero value, on which the composite literals of the source are based.\<close>

definition emptyRule :: PolicyRule where
  "emptyRule = \<lparr>Verbs = [], APIGroups = [], Resources = [], ResourceNames = [],
     NonResourceURLs = None\<rparr>"

record UserInfo =
  user_name :: string
  user_uid :: string
  user_groups :: "string list"
  user_extra :: "string \<rightharpoonup> string list"

record Attributes =
  attr_user :: UserInfo
  attr_verb :: string
  attr_namespace :: string
  attr_api_group :: string
  attr_api_version :: string
  attr_resource :: string
  attr_subresource :: string
  attr_name :: string
  attr_resource_request :: bool
  attr_path :: string

section \<open>Matching a request against a rule\<close>

definition VerbMatches :: "PolicyRule \<Rightarrow> string \<Rightarrow> bool" where
  "VerbMatches rule requestedVerb \<longleftrightarrow>
     list_ex (\<lambda>ruleVerb. ruleVerb = VerbAll \<or> ruleVerb = requestedVerb) (Verbs rule)"

definition APIGroupMatches :: "PolicyRule \<Rightarrow> string \<Rightarrow> bool" where
  "APIGroupMatches rule requestedGroup \<longleftrightarrow>
     list_ex (\<lambda>ruleGroup. ruleGroup = APIGroupAll \<or> ruleGroup = requestedGroup) (APIGroups rule)"

definition ResourceMatches :: "PolicyRule \<Rightarrow> string \<Rightarrow> string \<Rightarrow> bool" where
  "ResourceMatches rule combinedRequestedResource requestedSubresource \<longleftrightarrow>
     list_ex
       (\<lambda>ruleResource.
          ruleResource = ResourceAll
          \<or> ruleResource = combinedRequestedResource
          \<or> (requestedSubresource \<noteq> []
             \<and> length ruleResource = length requestedSubresource + 2
             \<and> HasPrefix ruleResource ''*/''
             \<and> HasSuffix ruleResource requestedSubresource))
       (Resources rule)"

definition ResourceNameMatches :: "PolicyRule \<Rightarrow> string \<Rightarrow> bool" where
  "ResourceNameMatches rule requestedName \<longleftrightarrow>
     ResourceNames rule = [] \<or> list_ex (\<lambda>ruleName. ruleName = requestedName) (ResourceNames rule)"

definition NonResourceURLMatches :: "PolicyRule \<Rightarrow> string \<Rightarrow> bool" where
  "NonResourceURLMatches rule requestedURL \<longleftrightarrow>
     list_ex
       (\<lambda>ruleURL.
          ruleURL = NonResourceAll
          \<or> ruleURL = requestedURL
          \<or> (HasSuffix ruleURL ''*'' \<and> HasPrefix requestedURL (TrimRight ruleURL (CHR ''*''))))
       (elems (NonResourceURLs rule))"

text \<open>The resource a request names, with its subresource: the local \<open>combinedResource\<close>.\<close>

definition combinedResource :: "Attributes \<Rightarrow> string" where
  "combinedResource a =
     (if length (attr_subresource a) > 0 then attr_resource a @ ''/'' @ attr_subresource a
      else attr_resource a)"

definition RuleAllows :: "Attributes \<Rightarrow> PolicyRule \<Rightarrow> bool" where
  "RuleAllows a rule \<longleftrightarrow>
     (if attr_resource_request a then
        VerbMatches rule (attr_verb a)
        \<and> APIGroupMatches rule (attr_api_group a)
        \<and> ResourceMatches rule (combinedResource a) (attr_subresource a)
        \<and> ResourceNameMatches rule (attr_name a)
      else
        VerbMatches rule (attr_verb a)
        \<and> NonResourceURLMatches rule (attr_path a))"

definition RulesAllow :: "Attributes \<Rightarrow> PolicyRule list \<Rightarrow> bool" where
  "RulesAllow a rules \<longleftrightarrow> list_ex (RuleAllows a) rules"

section \<open>Comparing rule sets\<close>

definition has :: "string list \<Rightarrow> string \<Rightarrow> bool" where
  "has xs ele \<longleftrightarrow> list_ex (\<lambda>s. s = ele) xs"

definition hasAll :: "string list \<Rightarrow> string list \<Rightarrow> bool" where
  "hasAll xs contains \<longleftrightarrow> (let owning = set xs in list_all (\<lambda>ele. ele \<in> owning) contains)"

definition resourceCoversAll :: "string list \<Rightarrow> string list \<Rightarrow> bool" where
  "resourceCoversAll setResources coversResources \<longleftrightarrow>
     (if has setResources ResourceAll \<or> hasAll setResources coversResources then True
      else list_all
        (\<lambda>path.
           if has setResources path then True
           else if \<not> ContainsChar path (CHR ''/'') then False
           else has setResources (''*/'' @ SplitN2 path (CHR ''/'') ! 1))
        coversResources)"

definition nonResourceURLCovers :: "string \<Rightarrow> string \<Rightarrow> bool" where
  "nonResourceURLCovers ownerPath subPath \<longleftrightarrow>
     (if ownerPath = subPath then True
      else HasSuffix ownerPath ''*'' \<and> HasPrefix subPath (TrimRight ownerPath (CHR ''*'')))"

definition nonResourceURLsCoversAll :: "string list \<Rightarrow> string list \<Rightarrow> bool" where
  "nonResourceURLsCoversAll owners covers \<longleftrightarrow>
     list_all (\<lambda>path. list_ex (\<lambda>owner. nonResourceURLCovers owner path) owners) covers"

definition ruleCovers :: "PolicyRule \<Rightarrow> PolicyRule \<Rightarrow> bool" where
  "ruleCovers ownerRule subRule \<longleftrightarrow>
     (let verbMatches = has (Verbs ownerRule) VerbAll \<or> hasAll (Verbs ownerRule) (Verbs subRule);
          groupMatches =
            has (APIGroups ownerRule) APIGroupAll \<or> hasAll (APIGroups ownerRule) (APIGroups subRule);
          resourceMatches = resourceCoversAll (Resources ownerRule) (Resources subRule);
          nonResourceURLMatches =
            nonResourceURLsCoversAll (elems (NonResourceURLs ownerRule))
              (elems (NonResourceURLs subRule));
          resourceNameMatches =
            (if length (ResourceNames subRule) = 0 then length (ResourceNames ownerRule) = 0
             else length (ResourceNames ownerRule) = 0
               \<or> hasAll (ResourceNames ownerRule) (ResourceNames subRule))
      in verbMatches \<and> groupMatches \<and> resourceMatches \<and> resourceNameMatches
         \<and> nonResourceURLMatches)"

definition BreakdownRule :: "PolicyRule \<Rightarrow> PolicyRule list" where
  "BreakdownRule rule =
     concat (map (\<lambda>group.
       concat (map (\<lambda>resource.
         concat (map (\<lambda>verb.
           if length (ResourceNames rule) > 0 then
             map (\<lambda>resourceName.
                 emptyRule\<lparr>APIGroups := [group], Resources := [resource], Verbs := [verb],
                   ResourceNames := [resourceName]\<rparr>)
               (ResourceNames rule)
           else [emptyRule\<lparr>APIGroups := [group], Resources := [resource], Verbs := [verb]\<rparr>])
         (Verbs rule)))
       (Resources rule)))
     (APIGroups rule))
     @ concat (map (\<lambda>nonResourceURL.
         map (\<lambda>verb. emptyRule\<lparr>NonResourceURLs := Some [nonResourceURL], Verbs := [verb]\<rparr>)
           (Verbs rule))
       (elems (NonResourceURLs rule)))"

definition Covers :: "PolicyRule list \<Rightarrow> PolicyRule list \<Rightarrow> bool \<times> PolicyRule list" where
  "Covers ownerRules servantRules =
     (let subrules = concat (map BreakdownRule servantRules);
          uncoveredRules =
            filter (\<lambda>subrule. \<not> list_ex (\<lambda>ownerRule. ruleCovers ownerRule subrule) ownerRules) subrules
      in (length uncoveredRules = 0, uncoveredRules))"

section \<open>Compacting rule lists\<close>

record simpleResource =
  Group :: string
  Resource :: string
  ResourceNameExist :: bool
  ResourceName :: string

definition emptySimpleResource :: simpleResource where
  "emptySimpleResource =
     \<lparr>Group = [], Resource = [], ResourceNameExist = False, ResourceName = []\<rparr>"

text \<open>\<open>reflect.DeepEqual\<close> tells a nil slice from an empty one, hence the type of
  \<^const>\<open>NonResourceURLs\<close>.\<close>

definition isSimpleResourceRule :: "PolicyRule \<Rightarrow> simpleResource \<times> bool" where
  "isSimpleResourceRule rule =
     (if length (ResourceNames rule) > 1 \<or> length (elems (NonResourceURLs rule)) > 0 then
        (emptySimpleResource, False)
      else if length (APIGroups rule) \<noteq> 1 \<or> length (Resources rule) \<noteq> 1 then
        (emptySimpleResource, False)
      else if emptyRule\<lparr>APIGroups := APIGroups rule, Resources := Resources rule,
                 Verbs := Verbs rule, ResourceNames := ResourceNames rule\<rparr> \<noteq> rule then
        (emptySimpleResource, False)
      else if length (ResourceNames rule) = 0 then
        (emptySimpleResource\<lparr>Group := APIGroups rule ! 0, Resource := Resources rule ! 0,
           ResourceNameExist := False\<rparr>, True)
      else
        (emptySimpleResource\<lparr>Group := APIGroups rule ! 0, Resource := Resources rule ! 0,
           ResourceNameExist := True, ResourceName := ResourceNames rule ! 0\<rparr>, True))"

text \<open>The first loop of \<open>CompactRules\<close>: the rules kept as they are and the merged simple rules.\<close>

fun compactLoop ::
  "PolicyRule list \<Rightarrow> PolicyRule list \<Rightarrow> (simpleResource \<rightharpoonup> PolicyRule)
     \<Rightarrow> PolicyRule list \<times> (simpleResource \<rightharpoonup> PolicyRule)" where
  "compactLoop [] compacted simpleRules = (compacted, simpleRules)"
| "compactLoop (rule # rules) compacted simpleRules =
     (case isSimpleResourceRule rule of
        (resource, True) \<Rightarrow>
          (case simpleRules resource of
             Some existingRule \<Rightarrow>
               compactLoop rules compacted
                 (simpleRules(resource \<mapsto>
                    existingRule\<lparr>Verbs := Verbs existingRule @ Verbs rule\<rparr>))
           | None \<Rightarrow> compactLoop rules compacted (simpleRules(resource \<mapsto> rule)))
      | (_, False) \<Rightarrow> compactLoop rules (compacted @ [rule]) simpleRules)"

text \<open>\<open>order\<close> is the order in which the second loop ranges over the map of simple rules; the error
  result of the source is always nil.\<close>

definition CompactRules :: "simpleResource list \<Rightarrow> PolicyRule list \<Rightarrow> PolicyRule list" where
  "CompactRules order rules =
     (case compactLoop rules [] Map.empty of
        (compacted, simpleRules) \<Rightarrow> compacted @ map (\<lambda>k. the (simpleRules k)) order)"

section \<open>What a rule set allows\<close>

lemma emptyRule_simps [simp]:
  "Verbs emptyRule = []" "APIGroups emptyRule = []" "Resources emptyRule = []"
  "ResourceNames emptyRule = []" "NonResourceURLs emptyRule = None"
  by (simp_all add: emptyRule_def)

lemmas matches_defs =
  VerbMatches_def APIGroupMatches_def ResourceMatches_def ResourceNameMatches_def
  NonResourceURLMatches_def

lemma RulesAllow_iff: "RulesAllow a rules \<longleftrightarrow> (\<exists>rule \<in> set rules. RuleAllows a rule)"
  by (simp add: RulesAllow_def list_ex_iff)

lemma RulesAllow_simps [simp]:
  "\<not> RulesAllow a []"
  "RulesAllow a (r # rs) \<longleftrightarrow> RuleAllows a r \<or> RulesAllow a rs"
  "RulesAllow a (rs @ rs') \<longleftrightarrow> RulesAllow a rs \<or> RulesAllow a rs'"
  by (auto simp: RulesAllow_iff)

lemma RulesAllow_concat: "RulesAllow a (concat rss) \<longleftrightarrow> (\<exists>rs \<in> set rss. RulesAllow a rs)"
  by (induction rss) auto

lemma has_iff [simp]: "has xs x \<longleftrightarrow> x \<in> set xs"
  by (auto simp: has_def list_ex_iff)

lemma hasAll_iff [simp]: "hasAll xs ys \<longleftrightarrow> set ys \<subseteq> set xs"
  by (auto simp: hasAll_def list_all_iff)

text \<open>The suffix test of \<^const>\<open>ResourceMatches\<close> recognises exactly \<open>*/subresource\<close>.\<close>

lemma star_subresource_iff:
  "length r = length sub + 2 \<and> HasPrefix r ''*/'' \<and> HasSuffix r sub \<longleftrightarrow> r = ''*/'' @ sub"
proof
  assume asm: "length r = length sub + 2 \<and> HasPrefix r ''*/'' \<and> HasSuffix r sub"
  then obtain t where "r = ''*/'' @ t" by (auto simp: HasPrefix_iff prefix_def)
  with asm show "r = ''*/'' @ sub" by (auto simp: HasSuffix_def)
qed (simp add: HasPrefix_def HasSuffix_def)

lemma ResourceMatches_iff:
  "ResourceMatches rule combined sub \<longleftrightarrow>
     ResourceAll \<in> set (Resources rule) \<or> combined \<in> set (Resources rule)
     \<or> (sub \<noteq> [] \<and> ''*/'' @ sub \<in> set (Resources rule))"
  unfolding ResourceMatches_def list_ex_iff star_subresource_iff by auto

lemma VerbMatches_iff:
  "VerbMatches rule v \<longleftrightarrow> VerbAll \<in> set (Verbs rule) \<or> v \<in> set (Verbs rule)"
  by (auto simp: VerbMatches_def list_ex_iff)

lemma APIGroupMatches_iff:
  "APIGroupMatches rule g \<longleftrightarrow> APIGroupAll \<in> set (APIGroups rule) \<or> g \<in> set (APIGroups rule)"
  by (auto simp: APIGroupMatches_def list_ex_iff)

lemma ResourceNameMatches_iff:
  "ResourceNameMatches rule n \<longleftrightarrow> ResourceNames rule = [] \<or> n \<in> set (ResourceNames rule)"
  by (auto simp: ResourceNameMatches_def list_ex_iff)

lemmas matches_iff = VerbMatches_iff APIGroupMatches_iff ResourceMatches_iff ResourceNameMatches_iff

text \<open>A pattern of a rule against a requested path, as a relation.\<close>

definition urlMatches :: "string \<Rightarrow> string \<Rightarrow> bool" where
  "urlMatches pat path \<longleftrightarrow>
     pat = path \<or> (pat \<noteq> [] \<and> last pat = CHR ''*'' \<and> prefix (TrimRight pat (CHR ''*'')) path)"

lemma TrimRight_star [simp]: "TrimRight ''*'' (CHR ''*'') = []"
  by (simp add: TrimRight_def)

lemma NonResourceURLMatches_iff:
  "NonResourceURLMatches rule path \<longleftrightarrow>
     (\<exists>pat \<in> set (elems (NonResourceURLs rule)). urlMatches pat path)"
proof -
  have "(pat = NonResourceAll \<or> pat = path
      \<or> (HasSuffix pat ''*'' \<and> HasPrefix path (TrimRight pat (CHR ''*''))))
      \<longleftrightarrow> urlMatches pat path" for pat
    by (auto simp: urlMatches_def HasSuffix_char HasPrefix_iff)
  then show ?thesis by (simp add: NonResourceURLMatches_def list_ex_iff)
qed

lemma nonResourceURLCovers_iff: "nonResourceURLCovers p q \<longleftrightarrow> urlMatches p q"
  by (auto simp: nonResourceURLCovers_def urlMatches_def HasSuffix_char HasPrefix_iff)

text \<open>Covering of URL patterns composes with matching.\<close>

lemma urlMatches_trans:
  assumes "urlMatches p q" and "urlMatches q path"
  shows "urlMatches p path"
proof (cases "p = q \<or> q = path")
  case True
  with assms show ?thesis by auto
next
  case False
  with assms have p: "p \<noteq> []" "last p = CHR ''*''" "prefix (TrimRight p (CHR ''*'')) q"
    and q: "prefix (TrimRight q (CHR ''*'')) path"
    by (auto simp: urlMatches_def)
  have "prefix (TrimRight p (CHR ''*'')) (TrimRight q (CHR ''*''))"
    using p(3) TrimRight_last by (auto intro!: prefix_TrimRight)
  with q p(1,2) show ?thesis
    by (auto simp: urlMatches_def intro: prefix_order.trans)
qed

section \<open>Breaking rules down\<close>

lemma in_BreakdownRule:
  "sub \<in> set (BreakdownRule rule) \<longleftrightarrow>
     (\<exists>g \<in> set (APIGroups rule). \<exists>r \<in> set (Resources rule). \<exists>v \<in> set (Verbs rule).
        \<exists>n \<in> set (ResourceNames rule).
          sub = emptyRule\<lparr>APIGroups := [g], Resources := [r], Verbs := [v], ResourceNames := [n]\<rparr>)
     \<or> ResourceNames rule = [] \<and>
       (\<exists>g \<in> set (APIGroups rule). \<exists>r \<in> set (Resources rule). \<exists>v \<in> set (Verbs rule).
          sub = emptyRule\<lparr>APIGroups := [g], Resources := [r], Verbs := [v]\<rparr>)
     \<or> (\<exists>u \<in> set (elems (NonResourceURLs rule)). \<exists>v \<in> set (Verbs rule).
          sub = emptyRule\<lparr>NonResourceURLs := Some [u], Verbs := [v]\<rparr>)"
  unfolding BreakdownRule_def
  by (cases "ResourceNames rule = []") (simp_all add: image_iff)

lemma BreakdownRule_cases [consumes 1, case_names named unnamed url]:
  assumes "sub \<in> set (BreakdownRule rule)"
  obtains g r v n where
      "sub = emptyRule\<lparr>APIGroups := [g], Resources := [r], Verbs := [v], ResourceNames := [n]\<rparr>"
      "g \<in> set (APIGroups rule)" "r \<in> set (Resources rule)" "v \<in> set (Verbs rule)"
      "n \<in> set (ResourceNames rule)"
    | g r v where "sub = emptyRule\<lparr>APIGroups := [g], Resources := [r], Verbs := [v]\<rparr>"
      "g \<in> set (APIGroups rule)" "r \<in> set (Resources rule)" "v \<in> set (Verbs rule)"
      "ResourceNames rule = []"
    | u v where "sub = emptyRule\<lparr>NonResourceURLs := Some [u], Verbs := [v]\<rparr>"
      "u \<in> set (elems (NonResourceURLs rule))" "v \<in> set (Verbs rule)"
  using assms unfolding in_BreakdownRule
  by (elim disjE conjE bexE) (rule that; assumption)+

lemma BreakdownRule_namedI:
  "g \<in> set (APIGroups rule) \<Longrightarrow> r \<in> set (Resources rule) \<Longrightarrow> v \<in> set (Verbs rule)
   \<Longrightarrow> n \<in> set (ResourceNames rule)
   \<Longrightarrow> emptyRule\<lparr>APIGroups := [g], Resources := [r], Verbs := [v], ResourceNames := [n]\<rparr>
         \<in> set (BreakdownRule rule)"
  unfolding in_BreakdownRule by (intro disjI1 bexI, rule refl, assumption+)

lemma BreakdownRule_unnamedI:
  "g \<in> set (APIGroups rule) \<Longrightarrow> r \<in> set (Resources rule) \<Longrightarrow> v \<in> set (Verbs rule)
   \<Longrightarrow> ResourceNames rule = []
   \<Longrightarrow> emptyRule\<lparr>APIGroups := [g], Resources := [r], Verbs := [v]\<rparr> \<in> set (BreakdownRule rule)"
  unfolding in_BreakdownRule
  by (rule disjI2, rule disjI1, rule conjI, assumption, intro bexI, rule refl, assumption+)

lemma BreakdownRule_urlI:
  "u \<in> set (elems (NonResourceURLs rule)) \<Longrightarrow> v \<in> set (Verbs rule)
   \<Longrightarrow> emptyRule\<lparr>NonResourceURLs := Some [u], Verbs := [v]\<rparr> \<in> set (BreakdownRule rule)"
  unfolding in_BreakdownRule by (rule disjI2, rule disjI2, intro bexI, rule refl, assumption+)

text \<open>A rule allows a request when each of its dimensions has a matching element.\<close>

lemma RuleAllows_resource:
  assumes "attr_resource_request a"
  shows "RuleAllows a rule \<longleftrightarrow>
     (\<exists>v \<in> set (Verbs rule). v = VerbAll \<or> v = attr_verb a)
     \<and> (\<exists>g \<in> set (APIGroups rule). g = APIGroupAll \<or> g = attr_api_group a)
     \<and> (\<exists>r \<in> set (Resources rule). r = ResourceAll \<or> r = combinedResource a
          \<or> attr_subresource a \<noteq> [] \<and> r = ''*/'' @ attr_subresource a)
     \<and> (ResourceNames rule = [] \<or> attr_name a \<in> set (ResourceNames rule))"
  using assms unfolding RuleAllows_def matches_iff by auto

lemma RuleAllows_url:
  assumes "\<not> attr_resource_request a"
  shows "RuleAllows a rule \<longleftrightarrow>
     (\<exists>v \<in> set (Verbs rule). v = VerbAll \<or> v = attr_verb a)
     \<and> (\<exists>u \<in> set (elems (NonResourceURLs rule)). urlMatches u (attr_path a))"
  using assms unfolding RuleAllows_def VerbMatches_iff NonResourceURLMatches_iff by auto

lemmas RuleAllows_cases = RuleAllows_resource RuleAllows_url

lemma BreakdownRule_sound:
  assumes "sub \<in> set (BreakdownRule rule)" and "RuleAllows a sub"
  shows "RuleAllows a rule"
  using assms(1)
proof (cases rule: BreakdownRule_cases)
  case (named g r v n)
  with assms(2) show ?thesis
    by (cases "attr_resource_request a") (simp_all add: RuleAllows_cases, blast?)
next
  case (unnamed g r v)
  with assms(2) show ?thesis
    by (cases "attr_resource_request a") (simp_all add: RuleAllows_cases, blast?)
next
  case (url u v)
  with assms(2) show ?thesis
    by (cases "attr_resource_request a") (simp_all add: RuleAllows_cases, blast?)
qed

lemma BreakdownRule_complete_resource:
  assumes res: "attr_resource_request a" and "RuleAllows a rule"
  shows "\<exists>sub \<in> set (BreakdownRule rule). RuleAllows a sub"
proof -
  from assms obtain v g r where parts: "v \<in> set (Verbs rule)" "v = VerbAll \<or> v = attr_verb a"
    "g \<in> set (APIGroups rule)" "g = APIGroupAll \<or> g = attr_api_group a"
    "r \<in> set (Resources rule)" "r = ResourceAll \<or> r = combinedResource a
        \<or> attr_subresource a \<noteq> [] \<and> r = ''*/'' @ attr_subresource a"
    and name: "ResourceNames rule = [] \<or> attr_name a \<in> set (ResourceNames rule)"
    unfolding RuleAllows_resource [OF res] by blast
  let ?atom = "emptyRule\<lparr>APIGroups := [g], Resources := [r], Verbs := [v]\<rparr>"
  have "RuleAllows a ?atom" "RuleAllows a (?atom\<lparr>ResourceNames := [attr_name a]\<rparr>)"
    using parts by (simp_all add: RuleAllows_resource [OF res])
  with name parts(1,3,5) show ?thesis
    using BreakdownRule_namedI BreakdownRule_unnamedI by metis
qed

lemma BreakdownRule_complete_url:
  assumes url: "\<not> attr_resource_request a" and "RuleAllows a rule"
  shows "\<exists>sub \<in> set (BreakdownRule rule). RuleAllows a sub"
proof -
  from assms obtain v u where parts: "v \<in> set (Verbs rule)" "v = VerbAll \<or> v = attr_verb a"
    "u \<in> set (elems (NonResourceURLs rule))" "urlMatches u (attr_path a)"
    unfolding RuleAllows_url [OF url] by blast
  have "RuleAllows a (emptyRule\<lparr>NonResourceURLs := Some [u], Verbs := [v]\<rparr>)"
    using parts by (simp add: RuleAllows_url [OF url])
  with parts(1,3) show ?thesis
    using BreakdownRule_urlI by metis
qed

text \<open>C4. Breaking a rule down into atomic rules keeps exactly the requests it allows, as the comment
  of \<open>BreakdownRule\<close> promises ("builds an equivalent list of rules").\<close>

theorem BreakdownRule_equiv: "RulesAllow a (BreakdownRule rule) \<longleftrightarrow> RuleAllows a rule"
  unfolding RulesAllow_iff
  using BreakdownRule_sound BreakdownRule_complete_resource BreakdownRule_complete_url by blast

section \<open>Covering rule sets\<close>

text \<open>A resource pattern of the covered rule is one of the owner's, or the owner has the wildcard for
  its subresource.\<close>

lemma resourceCoversAllD:
  assumes "resourceCoversAll rs ps" and "p \<in> set ps"
  shows "ResourceAll \<in> set rs \<or> p \<in> set rs
     \<or> (\<exists>pre sub. p = pre @ ''/'' @ sub \<and> CHR ''/'' \<notin> set pre \<and> ''*/'' @ sub \<in> set rs)"
  using assms SplitN2_second [of "CHR ''/''" p]
  by (auto simp: resourceCoversAll_def list_all_iff ContainsChar_def split: if_splits)

lemma resource_match_covered:
  assumes covers: "resourceCoversAll (Resources owner) (Resources sub)"
    and match: "ResourceMatches sub (combinedResource a) (attr_subresource a)"
    and noslash: "CHR ''/'' \<notin> set (attr_resource a)"
  shows "ResourceMatches owner (combinedResource a) (attr_subresource a)"
proof -
  from match obtain r where r: "r \<in> set (Resources sub)"
    and cases: "r = ResourceAll \<or> r = combinedResource a
      \<or> attr_subresource a \<noteq> [] \<and> r = ''*/'' @ attr_subresource a"
    unfolding ResourceMatches_iff by blast
  consider "ResourceAll \<in> set (Resources owner)" | "r \<in> set (Resources owner)"
    | pre s where "r = pre @ ''/'' @ s" "CHR ''/'' \<notin> set pre" "''*/'' @ s \<in> set (Resources owner)"
    using resourceCoversAllD [OF covers r] by blast
  then show ?thesis
  proof cases
    case 3
    have "attr_subresource a \<noteq> [] \<and> s = attr_subresource a"
    proof (cases "r = combinedResource a")
      case True
      with 3(1) noslash have "attr_subresource a \<noteq> []"
        by (auto simp: combinedResource_def)
      with True 3(1,2) noslash show ?thesis
        by (simp add: combinedResource_def first_separator_unique)
    next
      case False
      with cases 3(1) have "attr_subresource a \<noteq> []" "pre @ ''/'' @ s = ''*/'' @ attr_subresource a"
        by (auto simp: append_eq_Cons_conv)
      with 3(2) show ?thesis
        using first_separator_unique [of "CHR ''/''" pre "''*''" s "attr_subresource a"] by simp
    qed
    with 3(3) show ?thesis
      unfolding ResourceMatches_iff by blast
  qed (use cases in \<open>auto simp: ResourceMatches_iff\<close>)
qed

lemma ruleCovers_sound:
  assumes covers: "ruleCovers owner sub" and allows: "RuleAllows a sub"
    and noslash: "CHR ''/'' \<notin> set (attr_resource a)"
  shows "RuleAllows a owner"
proof -
  from covers have verb: "VerbMatches sub v \<Longrightarrow> VerbMatches owner v"
    and group: "APIGroupMatches sub g \<Longrightarrow> APIGroupMatches owner g"
    and name: "ResourceNameMatches sub n \<Longrightarrow> ResourceNameMatches owner n"
    and res: "resourceCoversAll (Resources owner) (Resources sub)" for v g n
    by (auto simp: ruleCovers_def matches_iff split: if_splits)
  have url: "NonResourceURLMatches owner p" if "NonResourceURLMatches sub p" for p
    using covers that urlMatches_trans
    unfolding ruleCovers_def nonResourceURLsCoversAll_def NonResourceURLMatches_iff
      nonResourceURLCovers_iff list_all_iff list_ex_iff Let_def
    by blast
  show ?thesis
    using allows verb group name url resource_match_covered [OF res _ noslash]
    by (auto simp: RuleAllows_def split: if_splits)
qed

lemma Covers_iff:
  "fst (Covers owners servants) \<longleftrightarrow>
     (\<forall>servant \<in> set servants. \<forall>sub \<in> set (BreakdownRule servant).
        \<exists>owner \<in> set owners. ruleCovers owner sub)"
  by (auto simp: Covers_def filter_empty_conv list_ex_iff)

lemma Covers_sound_aux:
  assumes "fst (Covers owners servants)" and "RulesAllow a servants"
    and "CHR ''/'' \<notin> set (attr_resource a)"
  shows "RulesAllow a owners"
proof -
  from assms(2) obtain servant where "servant \<in> set servants" "RuleAllows a servant"
    by (auto simp: RulesAllow_iff)
  moreover then obtain sub where "sub \<in> set (BreakdownRule servant)" "RuleAllows a sub"
    using BreakdownRule_complete_resource BreakdownRule_complete_url by blast
  ultimately obtain owner where "owner \<in> set owners" "ruleCovers owner sub" "RuleAllows a sub"
    using assms(1) by (auto simp: Covers_iff)
  then show ?thesis
    using ruleCovers_sound assms(3) by (auto simp: RulesAllow_iff)
qed

text \<open>C2. Soundness of the escalation comparison: when \<open>Covers\<close> answers yes, every request the servant
  rules allow is allowed by the owner rules.  The requested resource contains no slash, which is how
  the API server parses request paths; the subresource is arbitrary.\<close>

theorem Covers_sound:
  assumes "fst (Covers owners servants)" and "RulesAllow a servants"
    and "CHR ''/'' \<notin> set (attr_resource a)"
  shows "RulesAllow a owners"
  using assms by (rule Covers_sound_aux)

text \<open>Concrete rules and requests for the witnesses.\<close>

definition log_reader :: PolicyRule where
  "log_reader = emptyRule\<lparr>APIGroups := [''''], Resources := [''pods/log''], Verbs := [''get'']\<rparr>"

definition any_log_reader :: PolicyRule where
  "any_log_reader = emptyRule\<lparr>APIGroups := [''''], Resources := [''*/log''], Verbs := [''get'']\<rparr>"

definition example_user :: UserInfo where
  "example_user = \<lparr>user_name = ''alice'', user_uid = '''', user_groups = [''dev''],
     user_extra = Map.empty\<rparr>"

definition log_request :: "string \<Rightarrow> string \<Rightarrow> Attributes" where
  "log_request resource subresource = \<lparr>attr_user = example_user, attr_verb = ''get'',
     attr_namespace = ''prod'', attr_api_group = '''', attr_api_version = ''v1'',
     attr_resource = resource, attr_subresource = subresource, attr_name = ''web-0'',
     attr_resource_request = True, attr_path = ''''\<rparr>"

theorem Covers_sound_witness: "RulesAllow (log_request ''pods'' ''log'') [any_log_reader]"
proof (rule Covers_sound)
  show "fst (Covers [any_log_reader] [log_reader])" by code_simp
  show "RulesAllow (log_request ''pods'' ''log'') [log_reader]" by code_simp
  show "CHR ''/'' \<notin> set (attr_resource (log_request ''pods'' ''log''))" by code_simp
qed

text \<open>The hypothesis on slashes is needed: a request whose resource itself contains a slash escapes
  the comparison.\<close>

lemma Covers_slash_needed:
  "fst (Covers [any_log_reader] [log_reader]) \<and> RulesAllow (log_request ''pods/log'' '''') [log_reader]
   \<and> \<not> RulesAllow (log_request ''pods/log'' '''') [any_log_reader]"
  by code_simp

section \<open>Uncovered rules are real gaps\<close>

lemma fresh_string:
  fixes A :: "string set"
  assumes "finite A"
  shows "\<exists>s. s \<notin> A \<and> s \<noteq> [] \<and> set s = {CHR ''x''}"
proof -
  have "infinite (range (\<lambda>n. replicate (Suc n) CHR ''x''))"
    by (auto dest!: finite_imageD simp: inj_def)
  then obtain s where "s \<in> range (\<lambda>n. replicate (Suc n) CHR ''x'')" "s \<notin> A"
    using assms by (meson finite_subset subsetI)
  then show ?thesis by auto
qed

text \<open>A pattern that may be the wildcard selects a value that patterns from a given finite set match
  only if they contain the pattern itself.\<close>

lemma pattern_gap:
  assumes "finite A"
  shows "\<exists>w. (p = ''*'' \<or> p = w) \<and> (\<forall>V \<subseteq> A. w \<in> V \<longrightarrow> p \<in> V)"
proof (cases "p = ''*''")
  case True
  with fresh_string [OF assms] show ?thesis by blast
qed auto

text \<open>A resource pattern selects a resource and subresource that the owner's patterns match only if
  they cover the pattern.\<close>

lemma resource_gap:
  assumes "finite A"
  shows "\<exists>R S. let C = (if S = [] then R else R @ ''/'' @ S) in
     (p = ''*'' \<or> p = C \<or> S \<noteq> [] \<and> p = ''*/'' @ S)
     \<and> (\<forall>rs. set rs \<subseteq> A \<longrightarrow> \<not> resourceCoversAll rs [p] \<longrightarrow>
          ''*'' \<notin> set rs \<and> C \<notin> set rs \<and> \<not> (S \<noteq> [] \<and> ''*/'' @ S \<in> set rs))"
proof -
  obtain x where x: "x \<notin> A \<union> takeWhile (\<lambda>c. c \<noteq> CHR ''/'') ` A" "set x = {CHR ''x''}"
    using fresh_string [of "A \<union> takeWhile (\<lambda>c. c \<noteq> CHR ''/'') ` A"] assms by blast
  have fresh: "x @ ''/'' @ S \<notin> A" for S
  proof
    assume "x @ ''/'' @ S \<in> A"
    moreover have "takeWhile (\<lambda>c. c \<noteq> CHR ''/'') (x @ ''/'' @ S) = x"
      using x(2) by (subst takeWhile_append2) auto
    ultimately show False using x(1) by (metis UnI2 imageI)
  qed
  consider "p = ''*''" | "CHR ''/'' \<notin> set p" "p \<noteq> ''*''"
    | pre S where "p = pre @ ''/'' @ S" "CHR ''/'' \<notin> set pre" "S \<noteq> []" "pre \<noteq> ''*''"
    | S where "p = ''*/'' @ S" "S \<noteq> []"
    | pre where "p = pre @ ''/''" "CHR ''/'' \<notin> set pre"
    using SplitN2_second [of "CHR ''/''" p] by auto (metis append_Cons append_Nil)
  then show ?thesis
  proof cases
    case 1
    with x(1) show ?thesis
      by (intro exI [of _ x] exI [of _ "[]"]) (auto simp: resourceCoversAll_def)
  next
    case 2
    then show ?thesis
      by (intro exI [of _ p] exI [of _ "[]"]) (auto simp: resourceCoversAll_def)
  next
    case (3 pre S)
    have "SplitN2 p (CHR ''/'') ! 1 = S"
      using 3(1,2) SplitN2_separator [of "CHR ''/''" pre S] by simp
    with 3 show ?thesis
      by (intro exI [of _ pre] exI [of _ S])
        (auto simp: resourceCoversAll_def ContainsChar_def)
  next
    case (4 S)
    with fresh [of S] show ?thesis
      by (intro exI [of _ x] exI [of _ S]) (auto simp: resourceCoversAll_def)
  next
    case (5 pre)
    then show ?thesis
      by (intro exI [of _ p] exI [of _ "[]"]) (auto simp: resourceCoversAll_def)
  qed
qed

definition patterns :: "PolicyRule \<Rightarrow> string set" where
  "patterns rule = set (Verbs rule) \<union> set (APIGroups rule) \<union> set (Resources rule)
     \<union> set (ResourceNames rule)"

text \<open>An atomic resource rule allows a request that separates it from every rule over a given finite
  set of patterns that does not cover it.\<close>

lemma gap_request:
  assumes fin: "finite A"
    and atom: "APIGroups sub = [g]" "Resources sub = [r]" "Verbs sub = [v]"
      "NonResourceURLs sub = None" "length (ResourceNames sub) \<le> 1"
  shows "\<exists>a. RuleAllows a sub \<and>
    (\<forall>owner. patterns owner \<subseteq> A \<longrightarrow> RuleAllows a owner \<longrightarrow> ruleCovers owner sub)"
proof -
  obtain wv where wv: "v = ''*'' \<or> v = wv" "\<forall>V \<subseteq> A. wv \<in> V \<longrightarrow> v \<in> V"
    using pattern_gap [OF fin] by blast
  obtain wg where wg: "g = ''*'' \<or> g = wg" "\<forall>V \<subseteq> A. wg \<in> V \<longrightarrow> g \<in> V"
    using pattern_gap [OF fin] by blast
  obtain R S C where C: "C = (if S = [] then R else R @ ''/'' @ S)"
    and r: "r = ''*'' \<or> r = C \<or> S \<noteq> [] \<and> r = ''*/'' @ S"
    and RS: "\<And>rs. set rs \<subseteq> A \<Longrightarrow> \<not> resourceCoversAll rs [r] \<Longrightarrow>
          ''*'' \<notin> set rs \<and> C \<notin> set rs \<and> \<not> (S \<noteq> [] \<and> ''*/'' @ S \<in> set rs)"
    using resource_gap [OF fin, of r] by (auto simp: Let_def)
  obtain x where x: "x \<notin> A" using fresh_string [OF fin] by blast
  define n where "n = (if ResourceNames sub = [] then x else hd (ResourceNames sub))"
  define a where "a = (log_request R S)\<lparr>attr_verb := wv, attr_api_group := wg, attr_name := n\<rparr>"
  have a: "attr_resource_request a" "attr_verb a = wv" "attr_api_group a = wg" "attr_name a = n"
      "attr_subresource a = S" "combinedResource a = C"
    by (auto simp: a_def log_request_def combinedResource_def C)
  have names: "ResourceNames sub = [] \<or> ResourceNames sub = [n]"
    using atom(5) by (cases "ResourceNames sub") (auto simp: n_def)
  have "RuleAllows a sub"
    unfolding RuleAllows_resource [OF a(1)] a atom using wv(1) wg(1) r names by auto
  moreover have "ruleCovers owner sub" if owner: "patterns owner \<subseteq> A" "RuleAllows a owner" for owner
  proof -
    from owner(1) have sets: "set (Verbs owner) \<subseteq> A" "set (APIGroups owner) \<subseteq> A"
      "set (Resources owner) \<subseteq> A" "set (ResourceNames owner) \<subseteq> A"
      by (simp_all add: patterns_def)
    from owner(2) a(1) have match: "VerbMatches owner wv" "APIGroupMatches owner wg"
      "ResourceMatches owner C S" "ResourceNameMatches owner n"
      by (simp_all add: RuleAllows_def a)
    have "resourceCoversAll (Resources owner) [r]"
      using RS [OF sets(3)] match(3) unfolding ResourceMatches_iff by blast
    moreover have "''*'' \<in> set (Verbs owner) \<or> v \<in> set (Verbs owner)"
      "''*'' \<in> set (APIGroups owner) \<or> g \<in> set (APIGroups owner)"
      using match(1,2) wv(2) wg(2) sets unfolding VerbMatches_iff APIGroupMatches_iff by blast+
    moreover have "ResourceNames owner = [] \<or> ResourceNames sub = [n] \<and> n \<in> set (ResourceNames owner)"
      using match(4) x sets(4) names by (auto simp: n_def ResourceNameMatches_iff)
    ultimately show ?thesis
      by (auto simp: ruleCovers_def nonResourceURLsCoversAll_def atom)
  qed
  ultimately show ?thesis by blast
qed

text \<open>C5. Completeness of the escalation comparison on resource rules: every rule that \<open>Covers\<close> reports
  as missing and that concerns resources allows some request that the owner rules do not allow, so a
  refused grant always names a permission the owner lacks.\<close>

theorem Covers_reports_gaps:
  assumes sub: "sub \<in> set (snd (Covers owners servants))" and res: "Resources sub \<noteq> []"
  shows "\<exists>a. RuleAllows a sub \<and> \<not> RulesAllow a owners"
proof -
  from sub obtain servant where "sub \<in> set (BreakdownRule servant)"
    and uncovered: "\<forall>owner \<in> set owners. \<not> ruleCovers owner sub"
    by (auto simp: Covers_def list_ex_iff Let_def)
  with res obtain g r v where atom: "APIGroups sub = [g]" "Resources sub = [r]" "Verbs sub = [v]"
      "NonResourceURLs sub = None" "length (ResourceNames sub) \<le> 1"
    by (auto elim!: BreakdownRule_cases)
  have "finite (\<Union>owner \<in> set owners. patterns owner)" by (simp add: patterns_def)
  from gap_request [OF this atom] obtain a where "RuleAllows a sub"
    "\<forall>owner \<in> set owners. RuleAllows a owner \<longrightarrow> ruleCovers owner sub"
    by blast
  with uncovered show ?thesis by (auto simp: RulesAllow_iff)
qed

theorem Covers_reports_gaps_witness:
  "\<exists>a. RuleAllows a any_log_reader \<and> \<not> RulesAllow a [log_reader]"
proof (rule Covers_reports_gaps)
  show "any_log_reader \<in> set (snd (Covers [log_reader] [any_log_reader]))" by code_simp
  show "Resources any_log_reader \<noteq> []" by code_simp
qed

section \<open>Compaction\<close>

text \<open>The requests the state of the compaction loop stands for.\<close>

definition stateAllows ::
  "Attributes \<Rightarrow> PolicyRule list \<times> (simpleResource \<rightharpoonup> PolicyRule) \<Rightarrow> bool" where
  "stateAllows a st \<longleftrightarrow> RulesAllow a (fst st) \<or> (\<exists>rule \<in> ran (snd st). RuleAllows a rule)"

definition simpleKeys :: "(simpleResource \<rightharpoonup> PolicyRule) \<Rightarrow> bool" where
  "simpleKeys m \<longleftrightarrow> (\<forall>k rule. m k = Some rule \<longrightarrow> isSimpleResourceRule rule = (k, True))"

lemma isSimpleD:
  assumes "isSimpleResourceRule r = (k, True)"
  shows "APIGroups r = [Group k]" "Resources r = [Resource k]" "NonResourceURLs r = None"
    "ResourceNames r = (if ResourceNameExist k then [ResourceName k] else [])"
proof -
  from assms have len: "length (APIGroups r) = 1" "length (Resources r) = 1"
      "length (ResourceNames r) \<le> 1"
    and eq: "emptyRule\<lparr>APIGroups := APIGroups r, Resources := Resources r,
                 Verbs := Verbs r, ResourceNames := ResourceNames r\<rparr> = r"
    and k: "k = (if length (ResourceNames r) = 0 then
        emptySimpleResource\<lparr>Group := APIGroups r ! 0, Resource := Resources r ! 0,
           ResourceNameExist := False\<rparr>
      else emptySimpleResource\<lparr>Group := APIGroups r ! 0, Resource := Resources r ! 0,
           ResourceNameExist := True, ResourceName := ResourceNames r ! 0\<rparr>)"
    unfolding isSimpleResourceRule_def by (simp_all split: if_splits)
  show "NonResourceURLs r = None"
    using arg_cong [OF eq, of NonResourceURLs] by simp
  from len(1,2) obtain g res where "APIGroups r = [g]" "Resources r = [res]"
    by (auto simp: length_Suc_conv)
  with len(3) show "APIGroups r = [Group k]" "Resources r = [Resource k]"
    "ResourceNames r = (if ResourceNameExist k then [ResourceName k] else [])"
    unfolding k by (cases "ResourceNames r"; simp add: emptySimpleResource_def)+
qed

text \<open>Simple rules with the same key differ in their verbs only, so adding the verbs of one to the
  other adds exactly the requests it allows.\<close>

lemma RuleAllows_merge:
  assumes "isSimpleResourceRule r1 = (k, True)" and "isSimpleResourceRule r2 = (k, True)"
  shows "RuleAllows a (r1\<lparr>Verbs := Verbs r1 @ Verbs r2\<rparr>) \<longleftrightarrow> RuleAllows a r1 \<or> RuleAllows a r2"
  using isSimpleD [OF assms(1)] isSimpleD [OF assms(2)]
  by (auto simp: RuleAllows_def matches_iff NonResourceURLMatches_iff)

lemma isSimple_Verbs [simp]: "isSimpleResourceRule (r\<lparr>Verbs := vs\<rparr>) = isSimpleResourceRule r"
proof -
  have "emptyRule\<lparr>APIGroups := APIGroups r, Resources := Resources r, Verbs := vs,
      ResourceNames := ResourceNames r\<rparr> = r\<lparr>Verbs := vs\<rparr>
    \<longleftrightarrow> emptyRule\<lparr>APIGroups := APIGroups r, Resources := Resources r, Verbs := Verbs r,
      ResourceNames := ResourceNames r\<rparr> = r"
    by (cases r) (simp add: emptyRule_def)
  then show ?thesis by (simp add: isSimpleResourceRule_def)
qed

lemma ran_upd_ex:
  "(\<exists>x \<in> ran (m(k \<mapsto> y)). P x) \<longleftrightarrow> P y \<or> (\<exists>x \<in> ran (m(k := None)). P x)"
  by (auto simp: ran_def)

lemma ran_split_ex: "m k = Some y \<Longrightarrow> (\<exists>x \<in> ran m. P x) \<longleftrightarrow> P y \<or> (\<exists>x \<in> ran (m(k := None)). P x)"
  using ran_upd_ex [of m k y P] by (simp add: fun_upd_idem)

lemma compactLoop_allows:
  "simpleKeys m \<Longrightarrow>
     simpleKeys (snd (compactLoop rules c m))
     \<and> (stateAllows a (compactLoop rules c m) \<longleftrightarrow> stateAllows a (c, m) \<or> RulesAllow a rules)"
proof (induction rules arbitrary: c m)
  case Nil
  then show ?case by simp
next
  case (Cons rule rules)
  obtain k simple where key: "isSimpleResourceRule rule = (k, simple)" by fastforce
  define c' where "c' = (if simple then c else c @ [rule])"
  define m' where "m' = (if \<not> simple then m else
    (case m k of Some old \<Rightarrow> m(k \<mapsto> old\<lparr>Verbs := Verbs old @ Verbs rule\<rparr>) | None \<Rightarrow> m(k \<mapsto> rule)))"
  have step: "compactLoop (rule # rules) c m = compactLoop rules c' m'"
    using key by (cases simple) (auto simp: c'_def m'_def split: option.splits)
  have keys: "simpleKeys m'"
    using Cons.prems key by (auto simp: m'_def simpleKeys_def split: option.splits)
  have "stateAllows a (c', m') \<longleftrightarrow> stateAllows a (c, m) \<or> RuleAllows a rule"
  proof (cases "simple \<and> m k \<noteq> None")
    case True
    then obtain old where old: "m k = Some old" by blast
    with Cons.prems have "isSimpleResourceRule old = (k, True)" by (simp add: simpleKeys_def)
    with True key have "RuleAllows a (old\<lparr>Verbs := Verbs old @ Verbs rule\<rparr>)
        \<longleftrightarrow> RuleAllows a old \<or> RuleAllows a rule"
      by (simp add: RuleAllows_merge)
    then show ?thesis
      using True old ran_split_ex [of m k old "RuleAllows a"]
      by (simp add: stateAllows_def c'_def m'_def ran_upd_ex) blast
  next
    case False
    moreover have "m(k := None) = m" if "m k = None"
      using that by (simp add: fun_upd_idem)
    ultimately show ?thesis
      by (auto simp: stateAllows_def c'_def m'_def ran_upd_ex)
  qed
  with Cons.IH [OF keys] show ?case
    unfolding step by simp
qed

text \<open>C6. Compaction keeps the meaning of a rule list: whatever the iteration order over the map of
  merged rules, the compacted list allows exactly the requests of the original.\<close>

theorem CompactRules_equiv:
  assumes "range_keys order (snd (compactLoop rules [] Map.empty))"
  shows "RulesAllow a (CompactRules order rules) \<longleftrightarrow> RulesAllow a rules"
proof -
  obtain c m where loop: "compactLoop rules [] Map.empty = (c, m)" by fastforce
  have "stateAllows a (c, m) \<longleftrightarrow> RulesAllow a rules"
    using compactLoop_allows [of Map.empty rules "[]" a] loop
    by (simp add: simpleKeys_def stateAllows_def)
  moreover have "set (map (\<lambda>k. the (m k)) order) = ran m"
    using assms loop by (force simp: range_keys_def ran_def dom_def)
  ultimately show ?thesis
    by (simp add: CompactRules_def loop stateAllows_def RulesAllow_iff bex_Un)
qed

definition log_key :: simpleResource where
  "log_key = \<lparr>Group = [], Resource = ''pods/log'', ResourceNameExist = False, ResourceName = []\<rparr>"

theorem CompactRules_equiv_witness:
  "RulesAllow (log_request ''pods'' ''log'')
     (CompactRules [log_key] [log_reader, log_reader\<lparr>Verbs := [''list'']\<rparr>])"
proof -
  let ?rules = "[log_reader, log_reader\<lparr>Verbs := [''list'']\<rparr>]"
  have "range_keys [log_key] (snd (compactLoop ?rules [] Map.empty))"
    by (simp add: isSimpleResourceRule_def log_reader_def emptyRule_def emptySimpleResource_def
      range_keys_def log_key_def)
  moreover have "RulesAllow (log_request ''pods'' ''log'') ?rules" by code_simp
  ultimately show ?thesis using CompactRules_equiv by blast
qed

end
