(* ===== verification/Rbac_Authorizer.thy ===== *)
theory Rbac_Authorizer
  imports Rbac_Rules
begin

text \<open>
  Resolving the rules that apply to a user and deciding a request:
  \<open>pkg/registry/rbac/validation/rule.go\<close> (the rule resolver, the visitor over rules, the escalation
  check), \<open>plugin/pkg/auth/authorizer/rbac/rbac.go\<close> (the RBAC authorizer), \<open>subject_locator.go\<close> and
  the union authorizer of \<open>staging/src/k8s.io/apiserver/pkg/authorization/union/union.go\<close>.

  Messages that the code formats for people (reasons, error texts) are values of datatypes here; the
  object stores behind the getter and lister interfaces are fields of the resolver.  A visitor is a
  function over a state that it threads; its Boolean result says whether to go on.
\<close>

section \<open>Types\<close>

abbreviation GroupKind :: string where "GroupKind \<equiv> ''Group''"
abbreviation ServiceAccountKind :: string where "ServiceAccountKind \<equiv> ''ServiceAccount''"
abbreviation UserKind :: string where "UserKind \<equiv> ''User''"
abbreviation GroupName :: string where "GroupName \<equiv> ''rbac.authorization.k8s.io''"
abbreviation SystemPrivilegedGroup :: string where "SystemPrivilegedGroup \<equiv> ''system:masters''"

record Subject =
  subject_kind :: string
  subject_api_group :: string
  subject_name :: string
  subject_namespace :: string

record RoleRef =
  ref_api_group :: string
  ref_kind :: string
  ref_name :: string

record Role =
  role_namespace :: string
  role_name :: string
  role_rules :: "PolicyRule list"

record RoleBinding =
  rb_namespace :: string
  rb_name :: string
  rb_subjects :: "Subject list"
  rb_role_ref :: RoleRef

record ClusterRole =
  cr_name :: string
  cr_rules :: "PolicyRule list"

record ClusterRoleBinding =
  crb_name :: string
  crb_subjects :: "Subject list"
  crb_role_ref :: RoleRef

datatype rbac_error =
    StoreError string
  | UnsupportedRoleRefKind string
  | NoUserOnContext
  | GrantNotHeld string "string list" "PolicyRule set" "rbac_error list"
  | Aggregate "rbac_error list"

definition NewAggregate :: "rbac_error list \<Rightarrow> rbac_error option" where
  "NewAggregate errs = (if errs = [] then None else Some (Aggregate errs))"

record DefaultRuleResolver =
  GetRole :: "string \<Rightarrow> string \<Rightarrow> rbac_error + Role"
  ListRoleBindings :: "string \<Rightarrow> rbac_error + RoleBinding list"
  GetClusterRole :: "string \<Rightarrow> rbac_error + ClusterRole"
  ListClusterRoleBindings :: "rbac_error + ClusterRoleBinding list"

datatype rule_source =
    ClusterRoleBindingDescriber ClusterRoleBinding Subject
  | RoleBindingDescriber RoleBinding Subject

type_synonym 's visitor =
  "rule_source option \<Rightarrow> PolicyRule option \<Rightarrow> rbac_error option \<Rightarrow> 's \<Rightarrow> bool \<times> 's"

section \<open>Who a binding applies to\<close>

definition MakeUsername :: "string \<Rightarrow> string \<Rightarrow> string" where
  "MakeUsername namespace name = ''system:serviceaccount:'' @ namespace @ '':'' @ name"

definition appliesToUser :: "UserInfo \<Rightarrow> Subject \<Rightarrow> string \<Rightarrow> bool" where
  "appliesToUser user subject namespace \<longleftrightarrow>
     (if subject_kind subject = UserKind then user_name user = subject_name subject
      else if subject_kind subject = GroupKind then has (user_groups user) (subject_name subject)
      else if subject_kind subject = ServiceAccountKind then
        (let saNamespace =
           (if length (subject_namespace subject) > 0 then subject_namespace subject else namespace)
         in if length saNamespace = 0 then False
            else MakeUsername saNamespace (subject_name subject) = user_name user)
      else False)"

text \<open>The loop of \<open>appliesTo\<close>; \<open>i\<close> is the index of the head of the remaining subjects.\<close>

fun appliesToFrom :: "nat \<Rightarrow> UserInfo \<Rightarrow> Subject list \<Rightarrow> string \<Rightarrow> nat \<times> bool" where
  "appliesToFrom i user [] namespace = (0, False)"
| "appliesToFrom i user (s # ss) namespace =
     (if appliesToUser user s namespace then (i, True) else appliesToFrom (Suc i) user ss namespace)"

definition appliesTo :: "UserInfo \<Rightarrow> Subject list \<Rightarrow> string \<Rightarrow> nat \<times> bool" where
  "appliesTo user bindingSubjects namespace = appliesToFrom 0 user bindingSubjects namespace"

section \<open>The rule resolver\<close>

definition GetRoleReferenceRules ::
  "DefaultRuleResolver \<Rightarrow> RoleRef \<Rightarrow> string \<Rightarrow> rbac_error + PolicyRule list" where
  "GetRoleReferenceRules r roleRef bindingNamespace =
     (if ref_kind roleRef = ''Role'' then
        (case GetRole r bindingNamespace (ref_name roleRef) of
           Inl err \<Rightarrow> Inl err
         | Inr role \<Rightarrow> Inr (role_rules role))
      else if ref_kind roleRef = ''ClusterRole'' then
        (case GetClusterRole r (ref_name roleRef) of
           Inl err \<Rightarrow> Inl err
         | Inr clusterRole \<Rightarrow> Inr (cr_rules clusterRole))
      else Inl (UnsupportedRoleRefKind (ref_kind roleRef)))"

text \<open>The innermost loop of \<open>VisitRulesFor\<close>, over the rules of one binding.  Here and below the first
  component is False once the visitor has asked to stop.\<close>

fun visitRules :: "'s visitor \<Rightarrow> rule_source \<Rightarrow> PolicyRule list \<Rightarrow> 's \<Rightarrow> bool \<times> 's" where
  "visitRules visitor source [] s = (True, s)"
| "visitRules visitor source (rule # rules) s =
     (case visitor (Some source) (Some rule) None s of
        (False, s') \<Rightarrow> (False, s')
      | (True, s') \<Rightarrow> visitRules visitor source rules s')"

fun visitClusterRoleBindings ::
  "DefaultRuleResolver \<Rightarrow> UserInfo \<Rightarrow> 's visitor \<Rightarrow> ClusterRoleBinding list \<Rightarrow> 's \<Rightarrow> bool \<times> 's" where
  "visitClusterRoleBindings r user visitor [] s = (True, s)"
| "visitClusterRoleBindings r user visitor (b # bs) s =
     (case appliesTo user (crb_subjects b) '''' of
        (subjectIndex, applies) \<Rightarrow>
          if \<not> applies then visitClusterRoleBindings r user visitor bs s
          else
            (case (case GetRoleReferenceRules r (crb_role_ref b) '''' of
                     Inl err \<Rightarrow> visitor None None (Some err) s
                   | Inr rules \<Rightarrow>
                       visitRules visitor
                         (ClusterRoleBindingDescriber b (crb_subjects b ! subjectIndex)) rules s) of
               (False, s') \<Rightarrow> (False, s')
             | (True, s') \<Rightarrow> visitClusterRoleBindings r user visitor bs s'))"

fun visitRoleBindings ::
  "DefaultRuleResolver \<Rightarrow> UserInfo \<Rightarrow> string \<Rightarrow> 's visitor \<Rightarrow> RoleBinding list \<Rightarrow> 's \<Rightarrow> bool \<times> 's" where
  "visitRoleBindings r user namespace visitor [] s = (True, s)"
| "visitRoleBindings r user namespace visitor (b # bs) s =
     (case appliesTo user (rb_subjects b) namespace of
        (subjectIndex, applies) \<Rightarrow>
          if \<not> applies then visitRoleBindings r user namespace visitor bs s
          else
            (case (case GetRoleReferenceRules r (rb_role_ref b) namespace of
                     Inl err \<Rightarrow> visitor None None (Some err) s
                   | Inr rules \<Rightarrow>
                       visitRules visitor
                         (RoleBindingDescriber b (rb_subjects b ! subjectIndex)) rules s) of
               (False, s') \<Rightarrow> (False, s')
             | (True, s') \<Rightarrow> visitRoleBindings r user namespace visitor bs s'))"

definition VisitRulesFor ::
  "DefaultRuleResolver \<Rightarrow> UserInfo \<Rightarrow> string \<Rightarrow> 's visitor \<Rightarrow> 's \<Rightarrow> 's" where
  "VisitRulesFor r user namespace visitor s =
     (case (case ListClusterRoleBindings r of
              Inl err \<Rightarrow> visitor None None (Some err) s
            | Inr bindings \<Rightarrow> visitClusterRoleBindings r user visitor bindings s) of
        (False, s') \<Rightarrow> s'
      | (True, s') \<Rightarrow>
          if length namespace > 0 then
            (case ListRoleBindings r namespace of
               Inl err \<Rightarrow> snd (visitor None None (Some err) s')
             | Inr bindings \<Rightarrow> snd (visitRoleBindings r user namespace visitor bindings s'))
          else s')"

text \<open>\<open>ruleAccumulator\<close> and its visitor.\<close>

record ruleAccumulator =
  acc_rules :: "PolicyRule list"
  acc_errors :: "rbac_error list"

definition ruleAccumulator_visit :: "ruleAccumulator visitor" where
  "ruleAccumulator_visit source rule err s =
     (let s1 = (case rule of Some r \<Rightarrow> s\<lparr>acc_rules := acc_rules s @ [r]\<rparr> | None \<Rightarrow> s);
          s2 = (case err of Some e \<Rightarrow> s1\<lparr>acc_errors := acc_errors s1 @ [e]\<rparr> | None \<Rightarrow> s1)
      in (True, s2))"

definition RulesFor ::
  "DefaultRuleResolver \<Rightarrow> UserInfo \<Rightarrow> string \<Rightarrow> PolicyRule list \<times> rbac_error option" where
  "RulesFor r user namespace =
     (let acc = VisitRulesFor r user namespace ruleAccumulator_visit
                  \<lparr>acc_rules = [], acc_errors = []\<rparr>
      in (acc_rules acc, NewAggregate (acc_errors acc)))"

section \<open>The escalation check\<close>

record request_context =
  ctx_user :: "UserInfo option"
  ctx_namespace :: "string option"

text \<open>\<open>None\<close> is the nil error.  \<open>order\<close> is the map iteration order inside \<open>CompactRules\<close>; the error
  carries the compacted missing rules that the message describes.\<close>

definition ConfirmNoEscalation ::
  "simpleResource list \<Rightarrow> request_context \<Rightarrow> DefaultRuleResolver \<Rightarrow> PolicyRule list
     \<Rightarrow> rbac_error option" where
  "ConfirmNoEscalation order ctx ruleResolver rules =
     (case ctx_user ctx of
        None \<Rightarrow> Some NoUserOnContext
      | Some user \<Rightarrow>
          (let namespace = (case ctx_namespace ctx of None \<Rightarrow> '''' | Some ns \<Rightarrow> ns) in
           case RulesFor ruleResolver user namespace of
             (ownerRules, err) \<Rightarrow>
               (let ruleResolutionErrors = (case err of None \<Rightarrow> [] | Some e \<Rightarrow> [e]) in
                case Covers ownerRules rules of
                  (ownerRightsCover, missingRights) \<Rightarrow>
                    if \<not> ownerRightsCover then
                      Some (GrantNotHeld (user_name user) (user_groups user)
                        (set (CompactRules order missingRights)) ruleResolutionErrors)
                    else None)))"

section \<open>The RBAC authorizer\<close>

datatype Decision = DecisionDeny | DecisionAllow | DecisionNoOpinion

datatype reason = NoReason | AllowedBy rule_source | ResolutionErrors "rbac_error list"

record authorizingVisitor =
  requestAttributes :: Attributes
  allowed :: bool
  av_reason :: reason
  av_errors :: "rbac_error list"

text \<open>A rule is only ever visited together with its source, so the nil source of an error visit is
  not dereferenced; the \<open>None\<close> branch of \<open>source\<close> is the nil pointer.\<close>

definition authorizingVisitor_visit :: "authorizingVisitor visitor" where
  "authorizingVisitor_visit source rule err v =
     (if rule \<noteq> None \<and> RuleAllows (requestAttributes v) (the rule) then
        (False, v\<lparr>allowed := True,
           av_reason := (case source of Some src \<Rightarrow> AllowedBy src | None \<Rightarrow> NoReason)\<rparr>)
      else
        (True, case err of Some e \<Rightarrow> v\<lparr>av_errors := av_errors v @ [e]\<rparr> | None \<Rightarrow> v))"

type_synonym rule_visitor =
  "UserInfo \<Rightarrow> string \<Rightarrow> authorizingVisitor visitor \<Rightarrow> authorizingVisitor \<Rightarrow> authorizingVisitor"

text \<open>\<open>RBACAuthorizer.Authorize\<close>, over the \<open>VisitRulesFor\<close> of its \<open>RequestToRuleMapper\<close>; the error
  result is always nil.\<close>

definition RBAC_Authorize :: "rule_visitor \<Rightarrow> Attributes \<Rightarrow> Decision \<times> reason" where
  "RBAC_Authorize visit_rules_for a =
     (let v = visit_rules_for (attr_user a) (attr_namespace a) authorizingVisitor_visit
                \<lparr>requestAttributes = a, allowed = False, av_reason = NoReason, av_errors = []\<rparr>
      in if allowed v then (DecisionAllow, av_reason v)
         else (DecisionNoOpinion,
               if length (av_errors v) > 0 then ResolutionErrors (av_errors v) else NoReason))"

record ResourceRuleInfo =
  rri_verbs :: "string list"
  rri_api_groups :: "string list"
  rri_resources :: "string list"
  rri_resource_names :: "string list"

record NonResourceRuleInfo =
  nri_verbs :: "string list"
  nri_urls :: "string list"

text \<open>\<open>RBACAuthorizer.RulesFor\<close>: the loop over the policy rules appends to two lists.\<close>

fun ruleInfos ::
  "PolicyRule list \<Rightarrow> ResourceRuleInfo list \<Rightarrow> NonResourceRuleInfo list
     \<Rightarrow> ResourceRuleInfo list \<times> NonResourceRuleInfo list" where
  "ruleInfos [] rs ns = (rs, ns)"
| "ruleInfos (p # ps) rs ns =
     ruleInfos ps
       (if length (Resources p) > 0 then
          rs @ [\<lparr>rri_verbs = Verbs p, rri_api_groups = APIGroups p, rri_resources = Resources p,
                  rri_resource_names = ResourceNames p\<rparr>]
        else rs)
       (if length (elems (NonResourceURLs p)) > 0 then
          ns @ [\<lparr>nri_verbs = Verbs p, nri_urls = elems (NonResourceURLs p)\<rparr>]
        else ns)"

definition RBAC_RulesFor ::
  "(UserInfo \<Rightarrow> string \<Rightarrow> PolicyRule list \<times> rbac_error option) \<Rightarrow> UserInfo \<Rightarrow> string
     \<Rightarrow> ResourceRuleInfo list \<times> NonResourceRuleInfo list \<times> bool \<times> rbac_error option" where
  "RBAC_RulesFor rules_for user namespace =
     (case rules_for user namespace of
        (policyRules, err) \<Rightarrow>
          (case ruleInfos policyRules [] [] of
             (resourceRules, nonResourceRules) \<Rightarrow> (resourceRules, nonResourceRules, False, err)))"

section \<open>The subject locator\<close>

text \<open>The loops of \<open>AllowedSubjects\<close> over the two kinds of bindings: subjects and errors accumulate.\<close>

fun allowedByClusterBindings ::
  "DefaultRuleResolver \<Rightarrow> Attributes \<Rightarrow> ClusterRoleBinding list \<Rightarrow> Subject list \<Rightarrow> rbac_error list
     \<Rightarrow> Subject list \<times> rbac_error list" where
  "allowedByClusterBindings r a [] subjects errorlist = (subjects, errorlist)"
| "allowedByClusterBindings r a (b # bs) subjects errorlist =
     (let (rules, errorlist') =
            (case GetRoleReferenceRules r (crb_role_ref b) '''' of
               Inl err \<Rightarrow> ([], errorlist @ [err])
             | Inr rules \<Rightarrow> (rules, errorlist))
      in allowedByClusterBindings r a bs
           (if RulesAllow a rules then subjects @ crb_subjects b else subjects) errorlist')"

fun allowedByBindings ::
  "DefaultRuleResolver \<Rightarrow> Attributes \<Rightarrow> string \<Rightarrow> RoleBinding list \<Rightarrow> Subject list
     \<Rightarrow> rbac_error list \<Rightarrow> Subject list \<times> rbac_error list" where
  "allowedByBindings r a namespace [] subjects errorlist = (subjects, errorlist)"
| "allowedByBindings r a namespace (b # bs) subjects errorlist =
     (let (rules, errorlist') =
            (case GetRoleReferenceRules r (rb_role_ref b) namespace of
               Inl err \<Rightarrow> ([], errorlist @ [err])
             | Inr rules \<Rightarrow> (rules, errorlist))
      in allowedByBindings r a namespace bs
           (if RulesAllow a rules then subjects @ rb_subjects b else subjects) errorlist')"

fun dedupSubjects :: "Subject list \<Rightarrow> Subject list \<Rightarrow> Subject list" where
  "dedupSubjects [] deduped = deduped"
| "dedupSubjects (s # ss) deduped =
     dedupSubjects ss (if list_ex (\<lambda>curr. curr = s) deduped then deduped else deduped @ [s])"

text \<open>The source computes \<open>dedupedSubjects\<close> and then returns \<open>subjects\<close>.\<close>

definition AllowedSubjects ::
  "string \<Rightarrow> DefaultRuleResolver \<Rightarrow> Attributes \<Rightarrow> Subject list \<times> rbac_error option" where
  "AllowedSubjects superUser r a =
     (let subjects0 = [\<lparr>subject_kind = GroupKind, subject_api_group = GroupName,
                         subject_name = SystemPrivilegedGroup, subject_namespace = ''''\<rparr>];
          subjects1 =
            (if length superUser > 0 then
               subjects0 @ [\<lparr>subject_kind = UserKind, subject_api_group = GroupName,
                             subject_name = superUser, subject_namespace = ''''\<rparr>]
             else subjects0);
          (subjects2, errors2) =
            (case ListClusterRoleBindings r of
               Inl err \<Rightarrow> (subjects1, [err])
             | Inr bs \<Rightarrow> allowedByClusterBindings r a bs subjects1 []);
          namespace = attr_namespace a;
          (subjects3, errors3) =
            (if length namespace > 0 then
               (case ListRoleBindings r namespace of
                  Inl err \<Rightarrow> (subjects2, errors2 @ [err])
                | Inr bs \<Rightarrow> allowedByBindings r a namespace bs subjects2 errors2)
             else (subjects2, errors2));
          dedupedSubjects = dedupSubjects subjects3 []
      in (subjects3, NewAggregate errors3))"

section \<open>The union authorizer\<close>

type_synonym authorizer = "Attributes \<Rightarrow> Decision \<times> string \<times> rbac_error option"

fun unionLoop ::
  "authorizer list \<Rightarrow> Attributes \<Rightarrow> rbac_error list \<Rightarrow> string list
     \<Rightarrow> Decision \<times> string \<times> rbac_error option" where
  "unionLoop [] a errlist reasonlist =
     (DecisionNoOpinion, Join reasonlist [CHR 0x0A], NewAggregate errlist)"
| "unionLoop (h # hs) a errlist reasonlist =
     (case h a of
        (decision, reason, err) \<Rightarrow>
          (let errlist' = (case err of Some e \<Rightarrow> errlist @ [e] | None \<Rightarrow> errlist);
               reasonlist' = (if length reason \<noteq> 0 then reasonlist @ [reason] else reasonlist)
           in case decision of
                DecisionAllow \<Rightarrow> (decision, reason, err)
              | DecisionDeny \<Rightarrow> (decision, reason, err)
              | DecisionNoOpinion \<Rightarrow> unionLoop hs a errlist' reasonlist'))"

definition union_Authorize :: "authorizer list \<Rightarrow> authorizer" where
  "union_Authorize authzHandler a = unionLoop authzHandler a [] []"

type_synonym rule_resolver =
  "UserInfo \<Rightarrow> string \<Rightarrow> ResourceRuleInfo list \<times> NonResourceRuleInfo list \<times> bool \<times> rbac_error option"

fun unionRulesLoop ::
  "rule_resolver list \<Rightarrow> UserInfo \<Rightarrow> string \<Rightarrow> ResourceRuleInfo list \<Rightarrow> NonResourceRuleInfo list
     \<Rightarrow> bool \<Rightarrow> rbac_error list
     \<Rightarrow> ResourceRuleInfo list \<times> NonResourceRuleInfo list \<times> bool \<times> rbac_error option" where
  "unionRulesLoop [] user namespace rs ns incompleteStatus errs =
     (rs, ns, incompleteStatus, NewAggregate errs)"
| "unionRulesLoop (h # hs) user namespace rs ns incompleteStatus errs =
     (case h user namespace of
        (resourceRules, nonResourceRules, incomplete, err) \<Rightarrow>
          unionRulesLoop hs user namespace
            (if length resourceRules > 0 then rs @ resourceRules else rs)
            (if length nonResourceRules > 0 then ns @ nonResourceRules else ns)
            (if incomplete then True else incompleteStatus)
            (case err of Some e \<Rightarrow> errs @ [e] | None \<Rightarrow> errs))"

definition union_RulesFor :: "rule_resolver list \<Rightarrow> rule_resolver" where
  "union_RulesFor authzHandler user namespace =
     unionRulesLoop authzHandler user namespace [] [] False []"

section \<open>Static roles\<close>

record StaticRoles =
  sr_roles :: "Role list"
  sr_roleBindings :: "RoleBinding list"
  sr_clusterRoles :: "ClusterRole list"
  sr_clusterRoleBindings :: "ClusterRoleBinding list"

definition StaticRoles_GetRole :: "StaticRoles \<Rightarrow> string \<Rightarrow> string \<Rightarrow> rbac_error + Role" where
  "StaticRoles_GetRole r namespace name =
     (if length namespace = 0 then Inl (StoreError ''must provide namespace when getting role'')
      else (case find (\<lambda>role. role_namespace role = namespace \<and> role_name role = name) (sr_roles r) of
              Some role \<Rightarrow> Inr role
            | None \<Rightarrow> Inl (StoreError ''role not found'')))"

definition StaticRoles_GetClusterRole :: "StaticRoles \<Rightarrow> string \<Rightarrow> rbac_error + ClusterRole" where
  "StaticRoles_GetClusterRole r name =
     (case find (\<lambda>clusterRole. cr_name clusterRole = name) (sr_clusterRoles r) of
        Some clusterRole \<Rightarrow> Inr clusterRole
      | None \<Rightarrow> Inl (StoreError ''clusterrole not found''))"

definition StaticRoles_ListRoleBindings ::
  "StaticRoles \<Rightarrow> string \<Rightarrow> rbac_error + RoleBinding list" where
  "StaticRoles_ListRoleBindings r namespace =
     (if length namespace = 0 then
        Inl (StoreError ''must provide namespace when listing role bindings'')
      else Inr (filter (\<lambda>b. rb_namespace b = namespace) (sr_roleBindings r)))"

definition StaticRoles_ListClusterRoleBindings ::
  "StaticRoles \<Rightarrow> rbac_error + ClusterRoleBinding list" where
  "StaticRoles_ListClusterRoleBindings r = Inr (sr_clusterRoleBindings r)"

definition newMockRuleResolver :: "StaticRoles \<Rightarrow> DefaultRuleResolver" where
  "newMockRuleResolver r =
     \<lparr>GetRole = StaticRoles_GetRole r, ListRoleBindings = StaticRoles_ListRoleBindings r,
       GetClusterRole = StaticRoles_GetClusterRole r,
       ListClusterRoleBindings = StaticRoles_ListClusterRoleBindings r\<rparr>"

section \<open>The interface of a rule mapper and the authorizer over it\<close>

text \<open>What a rule mapper visits, as a list: rules with their source, and resolution errors.\<close>

datatype visit_event = VisitRule rule_source PolicyRule | VisitError rbac_error

fun runVisits :: "'s visitor \<Rightarrow> visit_event list \<Rightarrow> 's \<Rightarrow> bool \<times> 's" where
  "runVisits visitor [] s = (True, s)"
| "runVisits visitor (e # es) s =
     (case (case e of VisitRule src rule \<Rightarrow> visitor (Some src) (Some rule) None s
            | VisitError err \<Rightarrow> visitor None None (Some err) s) of
        (False, s') \<Rightarrow> (False, s')
      | (True, s') \<Rightarrow> runVisits visitor es s')"

fun event_rules :: "visit_event list \<Rightarrow> PolicyRule list" where
  "event_rules [] = []"
| "event_rules (VisitRule src rule # es) = rule # event_rules es"
| "event_rules (VisitError err # es) = event_rules es"

fun event_errors :: "visit_event list \<Rightarrow> rbac_error list" where
  "event_errors [] = []"
| "event_errors (VisitRule src rule # es) = event_errors es"
| "event_errors (VisitError err # es) = err # event_errors es"

lemma event_append [simp]:
  "event_rules (es @ es') = event_rules es @ event_rules es'"
  "event_errors (es @ es') = event_errors es @ event_errors es'"
  by (induction es rule: event_rules.induct; simp)+

lemma runVisits_append:
  "runVisits v (es @ es') s =
     (case runVisits v es s of (False, s') \<Rightarrow> (False, s') | (True, s') \<Rightarrow> runVisits v es' s')"
  by (induction es arbitrary: s) (auto split: prod.splits bool.splits)

lemma event_rules_iff: "rule \<in> set (event_rules es) \<longleftrightarrow> (\<exists>src. VisitRule src rule \<in> set es)"
  by (induction es rule: event_rules.induct) auto

definition allowing :: "Attributes \<Rightarrow> visit_event \<Rightarrow> bool" where
  "allowing a e \<longleftrightarrow> (case e of VisitRule src rule \<Rightarrow> RuleAllows a rule | VisitError err \<Rightarrow> False)"

lemma allowing_simps [simp]:
  "allowing a (VisitRule src rule) \<longleftrightarrow> RuleAllows a rule" "\<not> allowing a (VisitError err)"
  by (simp_all add: allowing_def)

lemma RulesAllow_events: "RulesAllow a (event_rules es) \<longleftrightarrow> (\<exists>e \<in> set es. allowing a e)"
  by (induction es rule: event_rules.induct) auto

text \<open>The visitor of the authorizer stops at the first allowing rule and otherwise collects the errors.\<close>

lemma authorizing_visits:
  "runVisits authorizingVisitor_visit es v =
     (case find (allowing (requestAttributes v)) es of
        Some (VisitRule src rule) \<Rightarrow>
          (False, v\<lparr>allowed := True, av_reason := AllowedBy src,
             av_errors := av_errors v
               @ event_errors (takeWhile (\<lambda>e. \<not> allowing (requestAttributes v) e) es)\<rparr>)
      | _ \<Rightarrow> (True, v\<lparr>av_errors := av_errors v @ event_errors es\<rparr>))"
  by (induction es arbitrary: v rule: event_rules.induct)
    (auto simp: authorizingVisitor_visit_def split: option.splits visit_event.splits)

lemma accumulating_visits:
  "runVisits ruleAccumulator_visit es s =
     (True, s\<lparr>acc_rules := acc_rules s @ event_rules es, acc_errors := acc_errors s @ event_errors es\<rparr>)"
  by (induction es arbitrary: s rule: event_rules.induct) (auto simp: ruleAccumulator_visit_def)

text \<open>The contract of \<open>RequestToRuleMapper\<close>: \<open>VisitRulesFor\<close> hands a fixed list of rules and errors to
  the visitor until it declines, and \<open>RulesFor\<close> collects that list.\<close>

locale RequestToRuleMapper =
  fixes visit_rules_for :: rule_visitor
    and rules_for :: "UserInfo \<Rightarrow> string \<Rightarrow> PolicyRule list \<times> rbac_error option"
    and events :: "UserInfo \<Rightarrow> string \<Rightarrow> visit_event list"
  assumes visits: "visit_rules_for user ns v s = snd (runVisits v (events user ns) s)"
    and collects: "rules_for user ns =
      (event_rules (events user ns), NewAggregate (event_errors (events user ns)))"
begin

text \<open>The short-circuiting authorizer agrees with checking the collected rules.\<close>

lemma Authorize_RulesAllow:
  "fst (RBAC_Authorize visit_rules_for a) =
     (if RulesAllow a (fst (rules_for (attr_user a) (attr_namespace a)))
      then DecisionAllow else DecisionNoOpinion)"
proof (cases "find (allowing a) (events (attr_user a) (attr_namespace a))")
  case None
  moreover from None have "\<forall>e \<in> set (events (attr_user a) (attr_namespace a)). \<not> allowing a e"
    by (auto simp: find_None_iff)
  ultimately show ?thesis
    by (auto simp: RBAC_Authorize_def visits authorizing_visits collects RulesAllow_events)
next
  case (Some e)
  then have "e \<in> set (events (attr_user a) (attr_namespace a)) \<and> allowing a e"
    by (simp add: find_Some_iff) (metis nth_mem)
  moreover then have "\<exists>e \<in> set (events (attr_user a) (attr_namespace a)). allowing a e"
    by blast
  ultimately show ?thesis
    using Some
    by (cases e) (auto simp: RBAC_Authorize_def visits authorizing_visits collects RulesAllow_events)
qed

text \<open>The reason of an allow names a source one of whose rules allows the request.\<close>

lemma Authorize_reason:
  assumes "RBAC_Authorize visit_rules_for a = (DecisionAllow, why)"
  shows "\<exists>src rule. why = AllowedBy src \<and> RuleAllows a rule
     \<and> VisitRule src rule \<in> set (events (attr_user a) (attr_namespace a))"
proof (cases "find (allowing a) (events (attr_user a) (attr_namespace a))")
  case None
  with assms show ?thesis
    by (auto simp: RBAC_Authorize_def visits authorizing_visits)
next
  case (Some e)
  then have "e \<in> set (events (attr_user a) (attr_namespace a)) \<and> allowing a e"
    by (simp add: find_Some_iff) (metis nth_mem)
  with Some assms show ?thesis
    by (cases e) (auto simp: RBAC_Authorize_def visits authorizing_visits)
qed

end

section \<open>The default rule resolver implements the interface\<close>

text \<open>The events of one binding, given the subjects it lists and the namespace its rules are resolved in.\<close>

definition binding_events ::
  "DefaultRuleResolver \<Rightarrow> UserInfo \<Rightarrow> string \<Rightarrow> (Subject \<Rightarrow> rule_source) \<Rightarrow> Subject list \<Rightarrow> RoleRef
     \<Rightarrow> visit_event list" where
  "binding_events r user ns describer subjects ref =
     (case appliesTo user subjects ns of
        (i, applies) \<Rightarrow>
          if \<not> applies then []
          else (case GetRoleReferenceRules r ref ns of
                  Inl err \<Rightarrow> [VisitError err]
                | Inr rules \<Rightarrow> map (VisitRule (describer (subjects ! i))) rules))"

definition cluster_events :: "DefaultRuleResolver \<Rightarrow> UserInfo \<Rightarrow> visit_event list" where
  "cluster_events r user =
     (case ListClusterRoleBindings r of
        Inl err \<Rightarrow> [VisitError err]
      | Inr bs \<Rightarrow> concat (map (\<lambda>b. binding_events r user [] (ClusterRoleBindingDescriber b)
          (crb_subjects b) (crb_role_ref b)) bs))"

definition namespace_events :: "DefaultRuleResolver \<Rightarrow> UserInfo \<Rightarrow> string \<Rightarrow> visit_event list" where
  "namespace_events r user ns =
     (if ns = [] then []
      else (case ListRoleBindings r ns of
              Inl err \<Rightarrow> [VisitError err]
            | Inr bs \<Rightarrow> concat (map (\<lambda>b. binding_events r user ns (RoleBindingDescriber b)
                (rb_subjects b) (rb_role_ref b)) bs)))"

definition resolver_events :: "DefaultRuleResolver \<Rightarrow> UserInfo \<Rightarrow> string \<Rightarrow> visit_event list" where
  "resolver_events r user ns = cluster_events r user @ namespace_events r user ns"

lemma visitRules_events: "visitRules v src rules s = runVisits v (map (VisitRule src) rules) s"
  by (induction rules arbitrary: s) (auto split: prod.splits bool.splits)

lemma visitClusterRoleBindings_events:
  "visitClusterRoleBindings r user v bs s =
     runVisits v (concat (map (\<lambda>b. binding_events r user [] (ClusterRoleBindingDescriber b)
       (crb_subjects b) (crb_role_ref b)) bs)) s"
  by (induction bs arbitrary: s)
    (auto simp: binding_events_def runVisits_append visitRules_events
      split: prod.splits bool.splits sum.splits)

lemma visitRoleBindings_events:
  "visitRoleBindings r user ns v bs s =
     runVisits v (concat (map (\<lambda>b. binding_events r user ns (RoleBindingDescriber b)
       (rb_subjects b) (rb_role_ref b)) bs)) s"
  by (induction bs arbitrary: s)
    (auto simp: binding_events_def runVisits_append visitRules_events
      split: prod.splits bool.splits sum.splits)

lemma VisitRulesFor_events:
  "VisitRulesFor r user ns v s = snd (runVisits v (resolver_events r user ns) s)"
proof -
  have cluster: "(case ListClusterRoleBindings r of
        Inl err \<Rightarrow> v None None (Some err) s
      | Inr bs \<Rightarrow> visitClusterRoleBindings r user v bs s) = runVisits v (cluster_events r user) s"
    by (auto simp: cluster_events_def visitClusterRoleBindings_events
      split: sum.splits prod.splits bool.splits)
  show ?thesis
    unfolding VisitRulesFor_def resolver_events_def runVisits_append cluster
    by (auto simp: namespace_events_def visitRoleBindings_events
      split: prod.splits bool.splits sum.splits)
qed

interpretation resolver: RequestToRuleMapper
  "VisitRulesFor r" "RulesFor r" "resolver_events r" for r
proof unfold_locales
  show "VisitRulesFor r user ns v s = snd (runVisits v (resolver_events r user ns) s)" for user ns v s
    by (rule VisitRulesFor_events)
  show "RulesFor r user ns = (event_rules (resolver_events r user ns),
      NewAggregate (event_errors (resolver_events r user ns)))" for user ns
    by (simp add: RulesFor_def VisitRulesFor_events accumulating_visits)
qed

section \<open>What the authorizer decides\<close>

lemma appliesToFrom_iff: "snd (appliesToFrom i user ss ns) \<longleftrightarrow> (\<exists>s \<in> set ss. appliesToUser user s ns)"
  by (induction ss arbitrary: i) auto

lemma appliesTo_iff: "snd (appliesTo user ss ns) \<longleftrightarrow> (\<exists>s \<in> set ss. appliesToUser user s ns)"
  by (simp add: appliesTo_def appliesToFrom_iff)

lemma appliesToFrom_index:
  "appliesToFrom i user ss ns = (j, True) \<Longrightarrow>
     i \<le> j \<and> j - i < length ss \<and> appliesToUser user (ss ! (j - i)) ns
     \<and> (\<forall>k < j - i. \<not> appliesToUser user (ss ! k) ns)"
proof (induction ss arbitrary: i)
  case Nil
  then show ?case by simp
next
  case (Cons s ss)
  show ?case
  proof (cases "appliesToUser user s ns")
    case True
    with Cons.prems show ?thesis by simp
  next
    case False
    with Cons have "Suc i \<le> j \<and> j - Suc i < length ss \<and> appliesToUser user (ss ! (j - Suc i)) ns
        \<and> (\<forall>k < j - Suc i. \<not> appliesToUser user (ss ! k) ns)"
      by simp
    moreover from this have "j - i = Suc (j - Suc i)" by linarith
    ultimately show ?thesis using False by (auto simp: less_Suc_eq_0_disj)
  qed
qed

text \<open>The permissions the bindings grant to a user in a namespace, stated without loops or visitors:
  the rules of a role that a binding refers to and that lists a subject the user is.\<close>

definition grants :: "DefaultRuleResolver \<Rightarrow> UserInfo \<Rightarrow> string \<Rightarrow> PolicyRule \<Rightarrow> bool" where
  "grants r user ns rule \<longleftrightarrow>
     (\<exists>bs b rules. ListClusterRoleBindings r = Inr bs \<and> b \<in> set bs
        \<and> (\<exists>s \<in> set (crb_subjects b). appliesToUser user s '''')
        \<and> GetRoleReferenceRules r (crb_role_ref b) '''' = Inr rules \<and> rule \<in> set rules)
     \<or> (ns \<noteq> '''' \<and>
        (\<exists>bs b rules. ListRoleBindings r ns = Inr bs \<and> b \<in> set bs
           \<and> (\<exists>s \<in> set (rb_subjects b). appliesToUser user s ns)
           \<and> GetRoleReferenceRules r (rb_role_ref b) ns = Inr rules \<and> rule \<in> set rules))"

lemma binding_events_rules:
  "rule \<in> set (event_rules (binding_events r user ns d ss ref)) \<longleftrightarrow>
     (\<exists>s \<in> set ss. appliesToUser user s ns)
     \<and> (\<exists>rules. GetRoleReferenceRules r ref ns = Inr rules \<and> rule \<in> set rules)"
proof -
  obtain i applies where "appliesTo user ss ns = (i, applies)" by fastforce
  moreover have "event_rules (map (VisitRule src) rules) = rules" for src rules
    by (induction rules) auto
  ultimately show ?thesis
    using appliesTo_iff [of user ss ns]
    by (cases "GetRoleReferenceRules r ref ns") (auto simp: binding_events_def)
qed

lemma event_rules_concat: "event_rules (concat ess) = concat (map event_rules ess)"
  by (induction ess) auto

lemma resolver_events_rules: "rule \<in> set (event_rules (resolver_events r user ns)) \<longleftrightarrow> grants r user ns rule"
proof -
  have "rule \<in> set (event_rules (cluster_events r user)) \<longleftrightarrow>
      (\<exists>bs b rules. ListClusterRoleBindings r = Inr bs \<and> b \<in> set bs
        \<and> (\<exists>s \<in> set (crb_subjects b). appliesToUser user s '''')
        \<and> GetRoleReferenceRules r (crb_role_ref b) '''' = Inr rules \<and> rule \<in> set rules)"
    by (cases "ListClusterRoleBindings r")
      (auto simp: cluster_events_def event_rules_concat binding_events_rules)
  moreover have "rule \<in> set (event_rules (namespace_events r user ns)) \<longleftrightarrow> ns \<noteq> '''' \<and>
        (\<exists>bs b rules. ListRoleBindings r ns = Inr bs \<and> b \<in> set bs
           \<and> (\<exists>s \<in> set (rb_subjects b). appliesToUser user s ns)
           \<and> GetRoleReferenceRules r (rb_role_ref b) ns = Inr rules \<and> rule \<in> set rules)"
    by (cases "ListRoleBindings r ns")
      (auto simp: namespace_events_def event_rules_concat binding_events_rules)
  ultimately show ?thesis
    by (simp add: resolver_events_def grants_def)
qed

lemma RulesFor_rules: "fst (RulesFor r user ns) = event_rules (resolver_events r user ns)"
  by (simp add: resolver.collects)

text \<open>C1. The RBAC authorizer, which visits rules lazily, stops at the first match and carries on past
  resolution errors, allows a request exactly when some rule granted to its user in its namespace
  allows it, and never denies (it returns no opinion otherwise).\<close>

theorem RBAC_Authorize_grants:
  "fst (RBAC_Authorize (VisitRulesFor r) a) =
     (if \<exists>rule. grants r (attr_user a) (attr_namespace a) rule \<and> RuleAllows a rule
      then DecisionAllow else DecisionNoOpinion)"
  by (simp add: resolver.Authorize_RulesAllow RulesFor_rules RulesAllow_iff Bex_def
    resolver_events_rules)

text \<open>C3. The escalation check is sound: when \<open>ConfirmNoEscalation\<close> accepts a list of rules for the
  user and namespace on the context, the user is already authorized, in that namespace, for every
  request those rules would allow.\<close>

theorem ConfirmNoEscalation_sound:
  assumes "ConfirmNoEscalation order ctx r rules = None"
    and "ctx_user ctx = Some (attr_user a)" 
    and "(case ctx_namespace ctx of None \<Rightarrow> [] | Some ns \<Rightarrow> ns) = attr_namespace a"
    and "RulesAllow a rules" and "CHR ''/'' \<notin> set (attr_resource a)"
  shows "fst (RBAC_Authorize (VisitRulesFor r) a) = DecisionAllow"
proof -
  obtain owner err where rules_for: "RulesFor r (attr_user a) (attr_namespace a) = (owner, err)"
    by fastforce
  from assms(1-3) have "fst (Covers owner rules)"
    by (simp add: ConfirmNoEscalation_def rules_for Let_def split: prod.splits if_splits)
  then have "RulesAllow a owner" using assms(4,5) by (rule Covers_sound_aux)
  then show ?thesis
    by (simp add: resolver.Authorize_RulesAllow rules_for)
qed

text \<open>A small cluster for the witnesses: a cluster role that may read any log, bound to the group
  \<open>dev\<close> twice, once cluster-wide and once in the namespace \<open>prod\<close>.\<close>

definition dev_subject :: Subject where
  "dev_subject = \<lparr>subject_kind = ''Group'', subject_api_group = ''rbac.authorization.k8s.io'',
     subject_name = ''dev'', subject_namespace = ''''\<rparr>"

definition viewer_ref :: RoleRef where
  "viewer_ref = \<lparr>ref_api_group = ''rbac.authorization.k8s.io'', ref_kind = ''ClusterRole'',
     ref_name = ''log-viewer''\<rparr>"

definition example_cluster :: StaticRoles where
  "example_cluster =
     \<lparr>sr_roles = [],
      sr_roleBindings = [\<lparr>rb_namespace = ''prod'', rb_name = ''dev-logs'', rb_subjects = [dev_subject],
        rb_role_ref = viewer_ref\<rparr>],
      sr_clusterRoles = [\<lparr>cr_name = ''log-viewer'', cr_rules = [any_log_reader]\<rparr>],
      sr_clusterRoleBindings = [\<lparr>crb_name = ''dev-all-logs'', crb_subjects = [dev_subject],
        crb_role_ref = viewer_ref\<rparr>]\<rparr>"

definition example_context :: request_context where
  "example_context = \<lparr>ctx_user = Some example_user, ctx_namespace = Some ''prod''\<rparr>"

theorem ConfirmNoEscalation_sound_witness:
  "fst (RBAC_Authorize (VisitRulesFor (newMockRuleResolver example_cluster))
     (log_request ''pods'' ''log'')) = DecisionAllow"
proof (rule ConfirmNoEscalation_sound)
  show "ConfirmNoEscalation [] example_context (newMockRuleResolver example_cluster) [log_reader] = None"
    by code_simp
  show "ctx_user example_context = Some (attr_user (log_request ''pods'' ''log''))"
    by (simp add: example_context_def log_request_def)
  show "(case ctx_namespace example_context of None \<Rightarrow> [] | Some ns \<Rightarrow> ns) =
      attr_namespace (log_request ''pods'' ''log'')"
    by (simp add: example_context_def log_request_def)
  show "RulesAllow (log_request ''pods'' ''log'') [log_reader]" by code_simp
  show "CHR ''/'' \<notin> set (attr_resource (log_request ''pods'' ''log''))" by code_simp
qed

section \<open>The subject locator\<close>

lemma allowedByClusterBindings_subjects:
  "set (fst (allowedByClusterBindings r a bs ss errs)) =
     set ss \<union> (\<Union>b \<in> {b \<in> set bs. \<exists>rules. GetRoleReferenceRules r (crb_role_ref b) '''' = Inr rules
        \<and> RulesAllow a rules}. set (crb_subjects b))"
  by (induction bs arbitrary: ss errs) (auto split: sum.splits)

lemma allowedByBindings_subjects:
  "set (fst (allowedByBindings r a ns bs ss errs)) =
     set ss \<union> (\<Union>b \<in> {b \<in> set bs. \<exists>rules. GetRoleReferenceRules r (rb_role_ref b) ns = Inr rules
        \<and> RulesAllow a rules}. set (rb_subjects b))"
  by (induction bs arbitrary: ss errs) (auto split: sum.splits)

lemma AllowedSubjects_bindings:
  "set (fst (AllowedSubjects superUser r a)) =
     {\<lparr>subject_kind = GroupKind, subject_api_group = GroupName,
        subject_name = SystemPrivilegedGroup, subject_namespace = ''''\<rparr>}
     \<union> (if superUser = '''' then {} else
        {\<lparr>subject_kind = UserKind, subject_api_group = GroupName, subject_name = superUser,
           subject_namespace = ''''\<rparr>})
     \<union> {s. \<exists>bs b rules. ListClusterRoleBindings r = Inr bs \<and> b \<in> set bs \<and> s \<in> set (crb_subjects b)
          \<and> GetRoleReferenceRules r (crb_role_ref b) '''' = Inr rules \<and> RulesAllow a rules}
     \<union> {s. attr_namespace a \<noteq> '''' \<and>
          (\<exists>bs b rules. ListRoleBindings r (attr_namespace a) = Inr bs \<and> b \<in> set bs
            \<and> s \<in> set (rb_subjects b)
            \<and> GetRoleReferenceRules r (rb_role_ref b) (attr_namespace a) = Inr rules
            \<and> RulesAllow a rules)}"
proof -
  define ss where "ss = (let ss0 = [\<lparr>subject_kind = GroupKind, subject_api_group = GroupName,
        subject_name = SystemPrivilegedGroup, subject_namespace = []\<rparr>] in
      if length superUser > 0 then ss0 @ [\<lparr>subject_kind = UserKind, subject_api_group = GroupName,
        subject_name = superUser, subject_namespace = []\<rparr>] else ss0)"
  define C where "C = (case ListClusterRoleBindings r of
      Inl err \<Rightarrow> (ss, [err]) | Inr bs \<Rightarrow> allowedByClusterBindings r a bs ss [])"
  have eq: "fst (AllowedSubjects superUser r a) =
    fst (if length (attr_namespace a) > 0 then
           (case ListRoleBindings r (attr_namespace a) of
              Inl err \<Rightarrow> (fst C, snd C @ [err])
            | Inr bs \<Rightarrow> allowedByBindings r a (attr_namespace a) bs (fst C) (snd C))
         else (fst C, snd C))"
    unfolding C_def ss_def AllowedSubjects_def Let_def case_prod_beta fst_conv by (rule refl)
  have "set (fst C) = set ss \<union> {s. \<exists>bs b rules. ListClusterRoleBindings r = Inr bs \<and> b \<in> set bs
      \<and> s \<in> set (crb_subjects b) \<and> GetRoleReferenceRules r (crb_role_ref b) [] = Inr rules
      \<and> RulesAllow a rules}"
    by (cases "ListClusterRoleBindings r") (auto simp: C_def allowedByClusterBindings_subjects)
  moreover have "set (fst (AllowedSubjects superUser r a)) = set (fst C) \<union>
      {s. attr_namespace a \<noteq> [] \<and>
          (\<exists>bs b rules. ListRoleBindings r (attr_namespace a) = Inr bs \<and> b \<in> set bs
            \<and> s \<in> set (rb_subjects b)
            \<and> GetRoleReferenceRules r (rb_role_ref b) (attr_namespace a) = Inr rules
            \<and> RulesAllow a rules)}"
    unfolding eq
    by (cases "ListRoleBindings r (attr_namespace a)") (auto simp: allowedByBindings_subjects)
  ultimately show ?thesis
    by (auto simp: ss_def)
qed

text \<open>A subject that applies to a user without a default namespace applies with any default.\<close>

lemma appliesToUser_default: "appliesToUser user s '''' \<Longrightarrow> appliesToUser user s ns"
  by (auto simp: appliesToUser_def Let_def split: if_splits)

lemma bex_listed:
  "(\<exists>s \<in> {g} \<union> ((if c then {} else {u}) \<union> B). P s) \<longleftrightarrow> P g \<or> (\<not> c \<and> P u) \<or> (\<exists>s \<in> B. P s)"
  by auto

text \<open>C7. The subject locator and the authorizer agree: some subject the locator lists applies to a user exactly when
  the user is authorized for the request, or is in the privileged group, or is the super user of the locator.
  Service account subjects of cluster role bindings carry a namespace, which the API validation of such bindings
  requires.\<close>

theorem AllowedSubjects_correct:
  assumes sa: "\<And>bs b s. ListClusterRoleBindings r = Inr bs \<Longrightarrow> b \<in> set bs \<Longrightarrow> s \<in> set (crb_subjects b)
      \<Longrightarrow> subject_kind s = ServiceAccountKind \<Longrightarrow> subject_namespace s \<noteq> ''''"
  shows "(\<exists>s \<in> set (fst (AllowedSubjects superUser r a)). appliesToUser (attr_user a) s (attr_namespace a)) \<longleftrightarrow>
     fst (RBAC_Authorize (VisitRulesFor r) a) = DecisionAllow
     \<or> has (user_groups (attr_user a)) SystemPrivilegedGroup
     \<or> (superUser \<noteq> '''' \<and> user_name (attr_user a) = superUser)"
proof -
  let ?bound = "\<lambda>s. (\<exists>bs b rules. ListClusterRoleBindings r = Inr bs \<and> b \<in> set bs \<and> s \<in> set (crb_subjects b)
          \<and> GetRoleReferenceRules r (crb_role_ref b) '''' = Inr rules \<and> RulesAllow a rules)
      \<or> (attr_namespace a \<noteq> '''' \<and>
          (\<exists>bs b rules. ListRoleBindings r (attr_namespace a) = Inr bs \<and> b \<in> set bs \<and> s \<in> set (rb_subjects b)
            \<and> GetRoleReferenceRules r (rb_role_ref b) (attr_namespace a) = Inr rules \<and> RulesAllow a rules))"
  have allow: "fst (RBAC_Authorize (VisitRulesFor r) a) = DecisionAllow \<longleftrightarrow>
      (\<exists>rule. grants r (attr_user a) (attr_namespace a) rule \<and> RuleAllows a rule)"
    by (auto simp: resolver.Authorize_RulesAllow RulesFor_rules RulesAllow_iff resolver_events_rules split: if_splits)
  have granted: "(\<exists>s. ?bound s \<and> appliesToUser (attr_user a) s (attr_namespace a)) \<longleftrightarrow>
      (\<exists>rule. grants r (attr_user a) (attr_namespace a) rule \<and> RuleAllows a rule)"
  proof
    assume "\<exists>rule. grants r (attr_user a) (attr_namespace a) rule \<and> RuleAllows a rule"
    then show "\<exists>s. ?bound s \<and> appliesToUser (attr_user a) s (attr_namespace a)"
      unfolding grants_def RulesAllow_iff by (blast dest: appliesToUser_default)
  next
    assume "\<exists>s. ?bound s \<and> appliesToUser (attr_user a) s (attr_namespace a)"
    then obtain s where s: "?bound s" "appliesToUser (attr_user a) s (attr_namespace a)" by blast
    have "appliesToUser (attr_user a) s ''''" if "ListClusterRoleBindings r = Inr bs" "b \<in> set bs" "s \<in> set (crb_subjects b)" for bs b
      using s(2) sa [OF that] by (auto simp: appliesToUser_def Let_def split: if_splits)
    then show "\<exists>rule. grants r (attr_user a) (attr_namespace a) rule \<and> RuleAllows a rule"
      using s unfolding grants_def RulesAllow_iff by blast
  qed
  have special: "appliesToUser (attr_user a) \<lparr>subject_kind = GroupKind, subject_api_group = GroupName,
        subject_name = SystemPrivilegedGroup, subject_namespace = []\<rparr> (attr_namespace a) \<longleftrightarrow>
        has (user_groups (attr_user a)) SystemPrivilegedGroup"
      "appliesToUser (attr_user a) \<lparr>subject_kind = UserKind, subject_api_group = GroupName,
        subject_name = superUser, subject_namespace = []\<rparr> (attr_namespace a) \<longleftrightarrow> user_name (attr_user a) = superUser"
    by (auto simp: appliesToUser_def)
  have "(\<exists>s \<in> set (fst (AllowedSubjects superUser r a)). appliesToUser (attr_user a) s (attr_namespace a)) \<longleftrightarrow>
      has (user_groups (attr_user a)) SystemPrivilegedGroup \<or> (superUser \<noteq> '''' \<and> user_name (attr_user a) = superUser)
      \<or> (\<exists>s. ?bound s \<and> appliesToUser (attr_user a) s (attr_namespace a))"
    unfolding AllowedSubjects_bindings Un_assoc unfolding bex_listed special unfolding Bex_def Un_iff mem_Collect_eq by (rule refl)
  then show ?thesis unfolding granted allow by blast
qed

theorem AllowedSubjects_correct_witness:
  "\<exists>s \<in> set (fst (AllowedSubjects ''root'' (newMockRuleResolver example_cluster)
      (log_request ''pods'' ''log''))). appliesToUser example_user s ''prod''"
proof -
  let ?r = "newMockRuleResolver example_cluster" and ?a = "log_request ''pods'' ''log''"
  have "subject_namespace s \<noteq> ''''"
    if "ListClusterRoleBindings ?r = Inr bs" "b \<in> set bs" "s \<in> set (crb_subjects b)"
      "subject_kind s = ServiceAccountKind" for bs b s
    using that by (auto simp: newMockRuleResolver_def StaticRoles_ListClusterRoleBindings_def
      example_cluster_def dev_subject_def)
  note eq = AllowedSubjects_correct [where r = ?r and superUser = "''root''" and a = ?a, OF this]
  have "fst (RBAC_Authorize (VisitRulesFor ?r) ?a) = DecisionAllow" by code_simp
  moreover have "attr_user ?a = example_user" "attr_namespace ?a = ''prod''" by (simp_all add: log_request_def)
  ultimately show ?thesis using eq by simp
qed

text \<open>Whether the rules a binding refers to are found and allow the request, and the error when they are not found.\<close>

definition ref_allows :: "DefaultRuleResolver \<Rightarrow> Attributes \<Rightarrow> string \<Rightarrow> RoleRef \<Rightarrow> bool" where
  "ref_allows r a ns ref \<longleftrightarrow> (case GetRoleReferenceRules r ref ns of Inl err \<Rightarrow> False | Inr rules \<Rightarrow> RulesAllow a rules)"

definition ref_errors :: "DefaultRuleResolver \<Rightarrow> string \<Rightarrow> RoleRef \<Rightarrow> rbac_error list" where
  "ref_errors r ns ref = (case GetRoleReferenceRules r ref ns of Inl err \<Rightarrow> [err] | Inr rules \<Rightarrow> [])"

lemma allowedByClusterBindings_eq:
  "allowedByClusterBindings r a bs ss errs =
     (ss @ concat (map crb_subjects (filter (\<lambda>b. ref_allows r a '''' (crb_role_ref b)) bs)),
      errs @ concat (map (\<lambda>b. ref_errors r '''' (crb_role_ref b)) bs))"
  by (induction bs arbitrary: ss errs) (auto simp: ref_allows_def ref_errors_def RulesAllow_iff split: sum.split)

lemma allowedByBindings_eq:
  "allowedByBindings r a ns bs ss errs =
     (ss @ concat (map rb_subjects (filter (\<lambda>b. ref_allows r a ns (rb_role_ref b)) bs)),
      errs @ concat (map (\<lambda>b. ref_errors r ns (rb_role_ref b)) bs))"
  by (induction bs arbitrary: ss errs) (auto simp: ref_allows_def ref_errors_def RulesAllow_iff split: sum.split)

lemma count_concat: "b \<in> set bs \<Longrightarrow> x \<in> set (f b) \<Longrightarrow> 1 \<le> count_list (concat (map f bs)) x"
  using count_list_0_iff [of "concat (map f bs)" x] by (auto simp: Suc_le_eq intro: gr0I)

text \<open>C8. When the bindings can be listed, the locator returns the privileged group, the super user, and the subjects of every
  binding whose role allows the request, in the order of the bindings and as often as they are bound, and it
  reports the error of every role it cannot find.  So a subject that a cluster role binding and a role binding both
  allow is returned at least twice, although the code computes a list without duplicates: it drops that list.\<close>

theorem AllowedSubjects_returns_duplicates:
  assumes "ListClusterRoleBindings r = Inr cbs" and "attr_namespace a = ns" and "ns \<noteq> ''''" and "ListRoleBindings r ns = Inr bs"
  shows "AllowedSubjects superUser r a =
      (\<lparr>subject_kind = GroupKind, subject_api_group = GroupName, subject_name = SystemPrivilegedGroup, subject_namespace = ''''\<rparr>
         # (if superUser = '''' then [] else
             [\<lparr>subject_kind = UserKind, subject_api_group = GroupName, subject_name = superUser, subject_namespace = ''''\<rparr>])
         @ concat (map crb_subjects (filter (\<lambda>b. ref_allows r a '''' (crb_role_ref b)) cbs))
         @ concat (map rb_subjects (filter (\<lambda>b. ref_allows r a ns (rb_role_ref b)) bs)),
       NewAggregate (concat (map (\<lambda>b. ref_errors r '''' (crb_role_ref b)) cbs) @ concat (map (\<lambda>b. ref_errors r ns (rb_role_ref b)) bs)))
    \<and> (\<forall>b \<in> set cbs. \<forall>c \<in> set bs. \<forall>s. ref_allows r a '''' (crb_role_ref b) \<longrightarrow> ref_allows r a ns (rb_role_ref c) \<longrightarrow>
         s \<in> set (crb_subjects b) \<longrightarrow> s \<in> set (rb_subjects c) \<longrightarrow> 2 \<le> count_list (fst (AllowedSubjects superUser r a)) s)"
proof -
  let ?C = "concat (map crb_subjects (filter (\<lambda>b. ref_allows r a '''' (crb_role_ref b)) cbs))"
    and ?R = "concat (map rb_subjects (filter (\<lambda>b. ref_allows r a ns (rb_role_ref b)) bs))"
    and ?G = "\<lparr>subject_kind = GroupKind, subject_api_group = GroupName, subject_name = SystemPrivilegedGroup, subject_namespace = ''''\<rparr>"
    and ?U = "if superUser = '''' then [] else
      [\<lparr>subject_kind = UserKind, subject_api_group = GroupName, subject_name = superUser, subject_namespace = ''''\<rparr>]"
    and ?E = "NewAggregate (concat (map (\<lambda>b. ref_errors r '''' (crb_role_ref b)) cbs) @ concat (map (\<lambda>b. ref_errors r ns (rb_role_ref b)) bs))"
  have eq: "AllowedSubjects superUser r a = (?G # ?U @ ?C @ ?R, ?E)"
    using assms by (simp add: AllowedSubjects_def allowedByClusterBindings_eq allowedByBindings_eq Let_def)
  have "2 \<le> count_list (fst (AllowedSubjects superUser r a)) s"
    if "b \<in> set cbs" "c \<in> set bs" "ref_allows r a '''' (crb_role_ref b)" "ref_allows r a ns (rb_role_ref c)"
      "s \<in> set (crb_subjects b)" "s \<in> set (rb_subjects c)" for b c s
  proof -
    have "1 \<le> count_list ?C s" "1 \<le> count_list ?R s" using that by (intro count_concat; simp)+
    moreover have "count_list (?G # ?U @ ?C @ ?R) s = count_list (?G # ?U) s + (count_list ?C s + count_list ?R s)"
      by (simp only: count_list_append flip: append_Cons)
    ultimately show ?thesis unfolding eq fst_conv by linarith
  qed
  with eq show ?thesis by blast
qed

theorem AllowedSubjects_returns_duplicates_witness:
  "2 \<le> count_list (fst (AllowedSubjects ''root'' (newMockRuleResolver example_cluster) (log_request ''pods'' ''log''))) dev_subject"
proof -
  let ?r = "newMockRuleResolver example_cluster" and ?a = "log_request ''pods'' ''log''"
  have l: "ListClusterRoleBindings ?r = Inr (sr_clusterRoleBindings example_cluster)" "attr_namespace ?a = ''prod''"
    "ListRoleBindings ?r ''prod'' = Inr (sr_roleBindings example_cluster)"
    by code_simp+
  have h: "ref_allows ?r ?a '''' viewer_ref" "ref_allows ?r ?a ''prod'' viewer_ref" by code_simp+
  from AllowedSubjects_returns_duplicates [OF l(1,2) _ l(3), of "''root''"] h show ?thesis
    by (simp add: example_cluster_def)
qed

section \<open>The union authorizer\<close>

lemma unionLoop_append:
  "\<forall>h \<in> set hs. fst (h a) = DecisionNoOpinion \<Longrightarrow>
     \<exists>errs' reasons'. unionLoop (hs @ hs') a errs reasons = unionLoop hs' a errs' reasons'"
proof (induction hs arbitrary: errs reasons)
  case Nil
  then show ?case by auto
next
  case (Cons h hs)
  then show ?case
    by (cases "h a") (auto simp: Let_def)
qed

lemma unionLoop_no_opinion:
  "fst (unionLoop hs a errs reasons) = DecisionNoOpinion \<longleftrightarrow> (\<forall>h \<in> set hs. fst (h a) = DecisionNoOpinion)"
  by (induction hs arbitrary: errs reasons) (auto simp: Let_def split: prod.splits Decision.splits)

text \<open>C9. The union authorizer returns the whole answer (decision, reason, error) of the first authorizer
  that has an opinion, and has no opinion only when none of them has one; a later authorizer can
  therefore never override an earlier deny.\<close>

theorem union_Authorize_first:
  "(fst (union_Authorize hs a) = DecisionNoOpinion \<longleftrightarrow> (\<forall>h \<in> set hs. fst (h a) = DecisionNoOpinion))
   \<and> (\<forall>pre h post. hs = pre @ h # post \<longrightarrow> (\<forall>g \<in> set pre. fst (g a) = DecisionNoOpinion)
        \<longrightarrow> fst (h a) \<noteq> DecisionNoOpinion \<longrightarrow> union_Authorize hs a = h a)"
proof (intro conjI allI impI)
  fix pre h post
  assume hs: "hs = pre @ h # post" "\<forall>g \<in> set pre. fst (g a) = DecisionNoOpinion"
    and h: "fst (h a) \<noteq> DecisionNoOpinion"
  from unionLoop_append [OF hs(2)] obtain errs reasons where
    "unionLoop hs a [] [] = unionLoop (h # post) a errs reasons"
    unfolding hs(1) by blast
  with h show "union_Authorize hs a = h a"
    by (cases "h a") (auto simp: union_Authorize_def Let_def split: Decision.splits)
qed (simp add: union_Authorize_def unionLoop_no_opinion)

theorem union_Authorize_first_witness:
  "union_Authorize [\<lambda>_. (DecisionNoOpinion, ''rbac'', None), \<lambda>_. (DecisionDeny, ''node'', None),
      \<lambda>_. (DecisionAllow, [], None)] (log_request ''pods'' ''log'') = (DecisionDeny, ''node'', None)"
proof -
  let ?h1 = "\<lambda>_. (DecisionNoOpinion, ''rbac'', None)" and ?h2 = "\<lambda>_. (DecisionDeny, ''node'', None)"
    and ?h3 = "\<lambda>_. (DecisionAllow, [], None)"
  from union_Authorize_first [of "[?h1, ?h2, ?h3]" "log_request ''pods'' ''log''", THEN conjunct2,
      rule_format, of "[?h1]" ?h2 "[?h3]"]
  show ?thesis by simp
qed

end
