(* ===== verification/Thread_Safe_Store.thy ===== *)
theory Thread_Safe_Store
  imports K8s_Prelude
begin

text \<open>
  The indexed object store of client-go: \<open>staging/src/k8s.io/client-go/tools/cache/thread_safe_store.go\<close>
  and the keyed cache over it, \<open>store.go\<close>.  Every operation runs under the store's lock, so an
  operation is a function on the store.

  Objects are the non-nil values of the type parameter; an index function or key function may fail.
  The code panics when an index function fails; a panic is the left injection of the result.
  \<open>ord n\<close> is the order in which the n-th loop of a call ranges over the map of indexers.
\<close>

section \<open>State and operations of threadSafeMap\<close>

type_synonym 'o IndexFunc = "'o \<Rightarrow> string + string list"
type_synonym Index = "string \<rightharpoonup> string set"

record 'o threadSafeMap =
  tsm_items :: "string \<rightharpoonup> 'o"
  indexers :: "string \<rightharpoonup> 'o IndexFunc"
  indices :: "string \<rightharpoonup> Index"

datatype store_panic = IndexPanic string string string

type_synonym range_orders = "nat \<Rightarrow> string list"

definition NewThreadSafeStore ::
  "(string \<rightharpoonup> 'o IndexFunc) \<Rightarrow> (string \<rightharpoonup> Index) \<Rightarrow> 'o threadSafeMap" where
  "NewThreadSafeStore ixers ixs = \<lparr>tsm_items = Map.empty, indexers = ixers, indices = ixs\<rparr>"

text \<open>A lookup in a nil or absent index or set behaves as in an empty one.\<close>

definition lookupSet :: "Index \<Rightarrow> string \<Rightarrow> string set" where
  "lookupSet index v = (case index v of None \<Rightarrow> {} | Some s \<Rightarrow> s)"

definition lookupIndex :: "'o threadSafeMap \<Rightarrow> string \<Rightarrow> Index" where
  "lookupIndex c name = (case indices c name of None \<Rightarrow> Map.empty | Some index \<Rightarrow> index)"

text \<open>The inner loops of \<open>updateIndices\<close> and \<open>deleteFromIndices\<close>, over the values of one index.\<close>

fun insertValues :: "string \<Rightarrow> string list \<Rightarrow> Index \<Rightarrow> Index" where
  "insertValues key [] index = index"
| "insertValues key (v # vs) index =
     insertValues key vs (index(v \<mapsto> insert key (lookupSet index v)))"

fun deleteValues :: "string \<Rightarrow> string list \<Rightarrow> Index \<Rightarrow> Index" where
  "deleteValues key [] index = index"
| "deleteValues key (v # vs) index =
     deleteValues key vs
       (case index v of None \<Rightarrow> index | Some s \<Rightarrow> index(v \<mapsto> s - {key}))"

fun deleteFromIndices ::
  "string list \<Rightarrow> 'o \<Rightarrow> string \<Rightarrow> 'o threadSafeMap \<Rightarrow> store_panic + 'o threadSafeMap" where
  "deleteFromIndices [] obj key c = Inr c"
| "deleteFromIndices (name # names) obj key c =
     (case indexers c name of
        None \<Rightarrow> deleteFromIndices names obj key c
      | Some indexFunc \<Rightarrow>
          (case indexFunc obj of
             Inl err \<Rightarrow> Inl (IndexPanic key name err)
           | Inr indexValues \<Rightarrow>
               (case indices c name of
                  None \<Rightarrow> deleteFromIndices names obj key c
                | Some index \<Rightarrow>
                    deleteFromIndices names obj key
                      (c\<lparr>indices := (indices c)(name \<mapsto> deleteValues key indexValues index)\<rparr>))))"

fun insertIntoIndices ::
  "string list \<Rightarrow> 'o \<Rightarrow> string \<Rightarrow> 'o threadSafeMap \<Rightarrow> store_panic + 'o threadSafeMap" where
  "insertIntoIndices [] newObj key c = Inr c"
| "insertIntoIndices (name # names) newObj key c =
     (case indexers c name of
        None \<Rightarrow> insertIntoIndices names newObj key c
      | Some indexFunc \<Rightarrow>
          (case indexFunc newObj of
             Inl err \<Rightarrow> Inl (IndexPanic key name err)
           | Inr indexValues \<Rightarrow>
               insertIntoIndices names newObj key
                 (c\<lparr>indices := (indices c)(name \<mapsto>
                      insertValues key indexValues (lookupIndex c name))\<rparr>)))"

definition updateIndices ::
  "range_orders \<Rightarrow> 'o option \<Rightarrow> 'o \<Rightarrow> string \<Rightarrow> 'o threadSafeMap \<Rightarrow> store_panic + 'o threadSafeMap" where
  "updateIndices ord oldObj newObj key c =
     (case (case oldObj of None \<Rightarrow> Inr c | Some old \<Rightarrow> deleteFromIndices (ord 0) old key c) of
        Inl p \<Rightarrow> Inl p
      | Inr c' \<Rightarrow> insertIntoIndices (ord 1) newObj key c')"

definition tsm_Add ::
  "range_orders \<Rightarrow> string \<Rightarrow> 'o \<Rightarrow> 'o threadSafeMap \<Rightarrow> store_panic + 'o threadSafeMap" where
  "tsm_Add ord key obj c =
     (let oldObject = tsm_items c key
      in updateIndices ord oldObject obj key (c\<lparr>tsm_items := (tsm_items c)(key \<mapsto> obj)\<rparr>))"

definition tsm_Update ::
  "range_orders \<Rightarrow> string \<Rightarrow> 'o \<Rightarrow> 'o threadSafeMap \<Rightarrow> store_panic + 'o threadSafeMap" where
  "tsm_Update ord key obj c =
     (let oldObject = tsm_items c key
      in updateIndices ord oldObject obj key (c\<lparr>tsm_items := (tsm_items c)(key \<mapsto> obj)\<rparr>))"

definition tsm_Delete ::
  "range_orders \<Rightarrow> string \<Rightarrow> 'o threadSafeMap \<Rightarrow> store_panic + 'o threadSafeMap" where
  "tsm_Delete ord key c =
     (case tsm_items c key of
        None \<Rightarrow> Inr c
      | Some obj \<Rightarrow>
          (case deleteFromIndices (ord 0) obj key c of
             Inl p \<Rightarrow> Inl p
           | Inr c' \<Rightarrow> Inr (c'\<lparr>tsm_items := (tsm_items c')(key := None)\<rparr>)))"

definition tsm_Get :: "'o threadSafeMap \<Rightarrow> string \<Rightarrow> 'o option" where
  "tsm_Get c key = tsm_items c key"

text \<open>\<open>keys\<close> is the order in which the loop ranges over the items.\<close>

definition tsm_List :: "string list \<Rightarrow> 'o threadSafeMap \<Rightarrow> 'o list" where
  "tsm_List keys c = List.map_filter (tsm_items c) keys"

definition tsm_ListKeys :: "string list \<Rightarrow> 'o threadSafeMap \<Rightarrow> string list" where
  "tsm_ListKeys keys c = filter (\<lambda>k. tsm_items c k \<noteq> None) keys"

fun replaceLoop ::
  "(string \<Rightarrow> range_orders) \<Rightarrow> string list \<Rightarrow> 'o threadSafeMap \<Rightarrow> store_panic + 'o threadSafeMap" where
  "replaceLoop ord [] c = Inr c"
| "replaceLoop ord (key # keys) c =
     (case tsm_items c key of
        None \<Rightarrow> replaceLoop ord keys c
      | Some item \<Rightarrow>
          (case updateIndices (ord key) None item key c of
             Inl p \<Rightarrow> Inl p
           | Inr c' \<Rightarrow> replaceLoop ord keys c'))"

definition tsm_Replace ::
  "(string \<Rightarrow> range_orders) \<Rightarrow> string list \<Rightarrow> (string \<rightharpoonup> 'o) \<Rightarrow> 'o threadSafeMap
     \<Rightarrow> store_panic + 'o threadSafeMap" where
  "tsm_Replace ord keys items c = replaceLoop ord keys (c\<lparr>tsm_items := items, indices := Map.empty\<rparr>)"

datatype store_error =
    NoSuchIndex string
  | IndexFuncError string
  | RunningIndex
  | IndexerConflict "string set"

text \<open>A missing item reads as nil, hence the option; \<open>keys\<close> orders the returned key set.\<close>

definition tsm_Index ::
  "string list \<Rightarrow> string \<Rightarrow> 'o \<Rightarrow> 'o threadSafeMap \<Rightarrow> store_error + 'o option list" where
  "tsm_Index keys indexName obj c =
     (case indexers c indexName of
        None \<Rightarrow> Inl (NoSuchIndex indexName)
      | Some indexFunc \<Rightarrow>
          (case indexFunc obj of
             Inl err \<Rightarrow> Inl (IndexFuncError err)
           | Inr indexKeys \<Rightarrow>
               (let index = lookupIndex c indexName;
                    returnKeySet = (\<Union>v \<in> set indexKeys. lookupSet index v)
                in Inr (map (tsm_items c) (filter (\<lambda>k. k \<in> returnKeySet) keys)))))"

definition tsm_IndexKeys :: "string \<Rightarrow> string \<Rightarrow> 'o threadSafeMap \<Rightarrow> store_error + string list" where
  "tsm_IndexKeys indexName indexKey c =
     (case indexers c indexName of
        None \<Rightarrow> Inl (NoSuchIndex indexName)
      | Some indexFunc \<Rightarrow>
          Inr (sorted_list_of_set (lookupSet (lookupIndex c indexName) indexKey)))"

definition tsm_ByIndex :: "string \<Rightarrow> string \<Rightarrow> 'o threadSafeMap \<Rightarrow> store_error + 'o option list" where
  "tsm_ByIndex indexName indexKey c =
     (case indexers c indexName of
        None \<Rightarrow> Inl (NoSuchIndex indexName)
      | Some indexFunc \<Rightarrow>
          Inr (map (tsm_items c)
            (sorted_list_of_set (lookupSet (lookupIndex c indexName) indexKey))))"

definition tsm_ListIndexFuncValues :: "string list \<Rightarrow> string \<Rightarrow> 'o threadSafeMap \<Rightarrow> string list" where
  "tsm_ListIndexFuncValues values indexName c =
     filter (\<lambda>v. lookupIndex c indexName v \<noteq> None) values"

definition tsm_AddIndexers ::
  "(string \<rightharpoonup> 'o IndexFunc) \<Rightarrow> 'o threadSafeMap \<Rightarrow> store_error option \<times> 'o threadSafeMap" where
  "tsm_AddIndexers newIndexers c =
     (if tsm_items c \<noteq> Map.empty then (Some RunningIndex, c)
      else (let oldKeys = dom (indexers c); newKeys = dom newIndexers
            in if oldKeys \<inter> newKeys \<noteq> {} then (Some (IndexerConflict (oldKeys \<inter> newKeys)), c)
               else (None, c\<lparr>indexers := indexers c ++ newIndexers\<rparr>)))"

section \<open>The index invariant\<close>

text \<open>
  For every indexer, the index maps a value to exactly the keys of the stored objects that have this
  value; stored objects can be indexed; nothing is kept for indexers that do not exist.
\<close>

definition values_of :: "'o IndexFunc \<Rightarrow> 'o \<Rightarrow> string list" where
  "values_of f obj = (case f obj of Inr vs \<Rightarrow> vs | Inl err \<Rightarrow> [])"

text \<open>An object every indexer can index.\<close>

definition indexable :: "'o threadSafeMap \<Rightarrow> 'o \<Rightarrow> bool" where
  "indexable c obj \<longleftrightarrow> (\<forall>name f. indexers c name = Some f \<longrightarrow> (\<exists>vs. f obj = Inr vs))"

definition keys_with :: "'o threadSafeMap \<Rightarrow> 'o IndexFunc \<Rightarrow> string \<Rightarrow> string set" where
  "keys_with c f v = {k. \<exists>obj. tsm_items c k = Some obj \<and> v \<in> set (values_of f obj)}"

definition store_inv :: "'o threadSafeMap \<Rightarrow> bool" where
  "store_inv c \<longleftrightarrow>
     (\<forall>name f v. indexers c name = Some f \<longrightarrow> lookupSet (lookupIndex c name) v = keys_with c f v)
     \<and> (\<forall>k obj. tsm_items c k = Some obj \<longrightarrow> indexable c obj)
     \<and> dom (indices c) \<subseteq> dom (indexers c)
     \<and> finite (dom (tsm_items c))"

definition orders :: "'o threadSafeMap \<Rightarrow> range_orders \<Rightarrow> bool" where
  "orders c ord \<longleftrightarrow> (\<forall>n. range_keys (ord n) (indexers c))"

lemma lookupSet_empty [simp]: "lookupSet Map.empty v = {}"
  by (simp add: lookupSet_def)

lemma insertValues_lookup:
  "lookupSet (insertValues key vs index) v =
     (if v \<in> set vs then insert key (lookupSet index v) else lookupSet index v)"
  by (induction vs arbitrary: index) (auto simp: lookupSet_def)

lemma deleteValues_lookup:
  "lookupSet (deleteValues key vs index) v =
     (if v \<in> set vs then lookupSet index v - {key} else lookupSet index v)"
  by (induction vs arbitrary: index) (auto simp: lookupSet_def split: option.splits)

text \<open>The two loops over the indexers change every index independently.\<close>

definition deletedIndices :: "'o threadSafeMap \<Rightarrow> 'o \<Rightarrow> string \<Rightarrow> string set \<Rightarrow> string \<rightharpoonup> Index" where
  "deletedIndices c obj key N = (\<lambda>n.
     case indexers c n of
       None \<Rightarrow> indices c n
     | Some f \<Rightarrow> if n \<in> N then map_option (deleteValues key (values_of f obj)) (indices c n)
                 else indices c n)"

definition insertedIndices :: "'o threadSafeMap \<Rightarrow> 'o \<Rightarrow> string \<Rightarrow> string set \<Rightarrow> string \<rightharpoonup> Index" where
  "insertedIndices c obj key N = (\<lambda>n.
     case indexers c n of
       None \<Rightarrow> indices c n
     | Some f \<Rightarrow> if n \<in> N then Some (insertValues key (values_of f obj) (lookupIndex c n))
                 else indices c n)"

lemma indexableD: "indexable c obj \<Longrightarrow> indexers c n = Some f \<Longrightarrow> f obj = Inr (values_of f obj)"
  by (force simp: indexable_def values_of_def)

lemma indexable_indices [simp]: "indexable (c\<lparr>indices := ixs\<rparr>) obj = indexable c obj"
  by (simp add: indexable_def)

lemma deleteFromIndices_eq:
  "distinct names \<Longrightarrow> indexable c obj \<Longrightarrow>
     deleteFromIndices names obj key c = Inr (c\<lparr>indices := deletedIndices c obj key (set names)\<rparr>)"
proof (induction names arbitrary: c)
  case Nil
  have "deletedIndices c obj key {} = indices c"
    by (auto simp: deletedIndices_def fun_eq_iff split: option.split)
  then show ?case by simp
next
  case (Cons name names)
  define c1 where "c1 = c\<lparr>indices := deletedIndices c obj key {name}\<rparr>"
  have "deleteFromIndices (name # names) obj key c = deleteFromIndices names obj key c1"
  proof (cases "indexers c name")
    case None
    then have "deletedIndices c obj key {name} = indices c"
      by (auto simp: deletedIndices_def fun_eq_iff split: option.split)
    with None show ?thesis by (simp add: c1_def)
  next
    case (Some f)
    then have "deletedIndices c obj key {name} =
        (case indices c name of None \<Rightarrow> indices c
         | Some index \<Rightarrow> (indices c)(name \<mapsto> deleteValues key (values_of f obj) index))"
      by (auto simp: deletedIndices_def fun_eq_iff split: option.split)
    with Some indexableD [OF Cons.prems(2) Some] show ?thesis
      by (simp add: c1_def split: option.split)
  qed
  moreover have "deletedIndices c1 obj key (set names) = deletedIndices c obj key (set (name # names))"
    using Cons.prems(1) by (auto simp: deletedIndices_def c1_def fun_eq_iff split: option.split)
  ultimately show ?case
    using Cons.IH [of c1] Cons.prems by (simp add: c1_def)
qed

lemma insertIntoIndices_eq:
  "distinct names \<Longrightarrow> indexable c obj \<Longrightarrow>
     insertIntoIndices names obj key c = Inr (c\<lparr>indices := insertedIndices c obj key (set names)\<rparr>)"
proof (induction names arbitrary: c)
  case Nil
  have "insertedIndices c obj key {} = indices c"
    by (auto simp: insertedIndices_def fun_eq_iff split: option.split)
  then show ?case by simp
next
  case (Cons name names)
  define c1 where "c1 = c\<lparr>indices := insertedIndices c obj key {name}\<rparr>"
  have "insertIntoIndices (name # names) obj key c = insertIntoIndices names obj key c1"
  proof (cases "indexers c name")
    case None
    then have "insertedIndices c obj key {name} = indices c"
      by (auto simp: insertedIndices_def fun_eq_iff split: option.split)
    with None show ?thesis by (simp add: c1_def)
  next
    case (Some f)
    then have "insertedIndices c obj key {name} =
        (indices c)(name \<mapsto> insertValues key (values_of f obj) (lookupIndex c name))"
      by (auto simp: insertedIndices_def fun_eq_iff split: option.split)
    with Some indexableD [OF Cons.prems(2) Some] show ?thesis
      by (simp add: c1_def)
  qed
  moreover have "insertedIndices c1 obj key (set names) = insertedIndices c obj key (set (name # names))"
    using Cons.prems(1)
    by (auto simp: insertedIndices_def c1_def fun_eq_iff lookupIndex_def split: option.split)
  ultimately show ?case
    using Cons.IH [of c1] Cons.prems by (simp add: c1_def)
qed

lemma lookup_deleted:
  "indexers c n = Some f \<Longrightarrow> n \<in> N \<Longrightarrow>
     lookupSet (lookupIndex (c\<lparr>indices := deletedIndices c obj key N\<rparr>) n) v =
       (if v \<in> set (values_of f obj) then lookupSet (lookupIndex c n) v - {key}
        else lookupSet (lookupIndex c n) v)"
  by (cases "indices c n")
    (simp_all add: lookupIndex_def deletedIndices_def deleteValues_lookup)

lemma lookup_inserted:
  "indexers c n = Some f \<Longrightarrow> n \<in> N \<Longrightarrow>
     lookupSet (lookupIndex (c\<lparr>indices := insertedIndices c obj key N\<rparr>) n) v =
       (if v \<in> set (values_of f obj) then insert key (lookupSet (lookupIndex c n) v)
        else lookupSet (lookupIndex c n) v)"
  by (simp add: lookupIndex_def insertedIndices_def insertValues_lookup)

lemma dom_changed:
  "dom (deletedIndices c obj key N) = dom (indices c)"
  "dom (insertedIndices c obj key N) \<subseteq> dom (indices c) \<union> dom (indexers c)"
  by (auto simp: deletedIndices_def insertedIndices_def split: option.splits if_splits)

text \<open>The state between the two loops: the key is in no index.\<close>

definition unindexed :: "'o threadSafeMap \<Rightarrow> string \<Rightarrow> string \<rightharpoonup> Index" where
  "unindexed c key =
     (case tsm_items c key of
        None \<Rightarrow> indices c
      | Some old \<Rightarrow> deletedIndices c old key (dom (indexers c)))"

lemma lookup_unindexed:
  assumes "store_inv c" and "indexers c n = Some f"
  shows "lookupSet (lookupIndex (c\<lparr>indices := unindexed c key\<rparr>) n) v = keys_with c f v - {key}"
proof (cases "tsm_items c key")
  case None
  have "lookupIndex (c\<lparr>indices := indices c\<rparr>) n = lookupIndex c n"
    by (simp add: lookupIndex_def)
  with None assms show ?thesis
    by (auto simp: unindexed_def store_inv_def keys_with_def)
next
  case (Some old)
  have n: "n \<in> dom (indexers c)" using assms(2) by blast
  have "lookupSet (lookupIndex c n) v = keys_with c f v"
    using assms by (simp add: store_inv_def)
  moreover have "key \<in> keys_with c f v \<longleftrightarrow> v \<in> set (values_of f old)"
    using Some by (simp add: keys_with_def)
  ultimately show ?thesis
    using lookup_deleted [OF assms(2) n, of old key v] Some by (auto simp: unindexed_def)
qed

lemma dom_unindexed: "dom (unindexed c key) = dom (indices c)"
  by (simp add: unindexed_def dom_changed split: option.split)

lemma updateIndices_eq:
  assumes "orders c ord" and "indexable c obj"
    and "\<And>old. oldObj = Some old \<Longrightarrow> indexable c old"
  shows "updateIndices ord oldObj obj key c =
     Inr (c\<lparr>indices := insertedIndices
       (c\<lparr>indices := (case oldObj of None \<Rightarrow> indices c
          | Some old \<Rightarrow> deletedIndices c old key (dom (indexers c)))\<rparr>) obj key (dom (indexers c))\<rparr>)"
proof -
  from assms(1) have names: "distinct (ord n)" "set (ord n) = dom (indexers c)" for n
    by (auto simp: orders_def)
  show ?thesis
  proof (cases oldObj)
    case None
    have "c\<lparr>indices := indices c\<rparr> = c" by simp
    with None show ?thesis
      using insertIntoIndices_eq [OF names(1) assms(2)] names(2) by (simp add: updateIndices_def)
  next
    case (Some old)
    let ?c = "c\<lparr>indices := deletedIndices c old key (dom (indexers c))\<rparr>"
    have "deleteFromIndices (ord 0) old key c = Inr ?c"
      using deleteFromIndices_eq [OF names(1) assms(3) [OF Some]] names(2) by simp
    moreover have "insertIntoIndices (ord 1) obj key ?c =
        Inr (?c\<lparr>indices := insertedIndices ?c obj key (dom (indexers c))\<rparr>)"
      using insertIntoIndices_eq [OF names(1), of ?c obj] assms(2) names(2) by simp
    ultimately show ?thesis
      using Some by (simp add: updateIndices_def)
  qed
qed

lemma lookupIndex_items [simp]: "lookupIndex (c\<lparr>tsm_items := m\<rparr>) n = lookupIndex c n"
  by (simp add: lookupIndex_def)

lemma indexable_items [simp]: "indexable (c\<lparr>tsm_items := m\<rparr>) obj = indexable c obj"
  by (simp add: indexable_def)

lemma store_invI:
  assumes "\<And>n f v. indexers c n = Some f \<Longrightarrow> lookupSet (lookupIndex c n) v = keys_with c f v"
    and "\<And>k obj. tsm_items c k = Some obj \<Longrightarrow> indexable c obj"
    and "dom (indices c) \<subseteq> dom (indexers c)" and "finite (dom (tsm_items c))"
  shows "store_inv c"
  using assms by (auto simp: store_inv_def)

lemma store_invD:
  assumes "store_inv c"
  shows "indexers c n = Some f \<Longrightarrow> lookupSet (lookupIndex c n) v = keys_with c f v"
    and "tsm_items c k = Some obj \<Longrightarrow> indexable c obj"
    and "dom (indices c) \<subseteq> dom (indexers c)" and "finite (dom (tsm_items c))"
  using assms by (auto simp: store_inv_def)

lemma keys_with_put:
  "keys_with (c\<lparr>tsm_items := (tsm_items c)(key \<mapsto> obj), indices := ixs\<rparr>) f v =
     (if v \<in> set (values_of f obj) then insert key (keys_with c f v - {key}) else keys_with c f v - {key})"
  by (auto simp: keys_with_def split: if_splits)

lemma keys_with_remove:
  "keys_with (c\<lparr>tsm_items := (tsm_items c)(key := None), indices := ixs\<rparr>) f v = keys_with c f v - {key}"
  by (auto simp: keys_with_def split: if_splits)

text \<open>The store after \<open>obj\<close> was written under \<open>key\<close>, and after \<open>key\<close> was deleted.\<close>

definition stored :: "string \<Rightarrow> 'o \<Rightarrow> 'o threadSafeMap \<Rightarrow> 'o threadSafeMap" where
  "stored key obj c =
     c\<lparr>tsm_items := (tsm_items c)(key \<mapsto> obj),
       indices := insertedIndices (c\<lparr>indices := unindexed c key\<rparr>) obj key (dom (indexers c))\<rparr>"

definition removed :: "string \<Rightarrow> 'o threadSafeMap \<Rightarrow> 'o threadSafeMap" where
  "removed key c = c\<lparr>tsm_items := (tsm_items c)(key := None), indices := unindexed c key\<rparr>"

lemma stored_fields [simp]:
  "tsm_items (stored key obj c) = (tsm_items c)(key \<mapsto> obj)"
  "indexers (stored key obj c) = indexers c"
  "tsm_items (removed key c) = (tsm_items c)(key := None)"
  "indexers (removed key c) = indexers c"
  by (simp_all add: stored_def removed_def)

lemma lookup_stored:
  assumes "store_inv c" and "indexers c n = Some f"
  shows "lookupSet (lookupIndex (stored key obj c) n) v = keys_with (stored key obj c) f v"
proof -
  have "n \<in> dom (indexers c)" using assms(2) by blast
  from lookup_inserted [of "c\<lparr>indices := unindexed c key\<rparr>" n f, OF _ this, of obj key v]
  have "lookupSet (lookupIndex (stored key obj c) n) v =
      (if v \<in> set (values_of f obj) then insert key (keys_with c f v - {key}) else keys_with c f v - {key})"
    using lookup_unindexed [OF assms] assms(2) by (simp add: stored_def lookupIndex_def)
  also have "\<dots> = keys_with (stored key obj c) f v"
    by (simp add: stored_def keys_with_put)
  finally show ?thesis .
qed

lemma store_inv_stored:
  assumes "store_inv c" and "indexable c obj"
  shows "store_inv (stored key obj c)"
proof (rule store_invI)
  show "lookupSet (lookupIndex (stored key obj c) n) v = keys_with (stored key obj c) f v"
    if "indexers (stored key obj c) n = Some f" for n f v
    using that lookup_stored [OF assms(1)] by simp
  show "indexable (stored key obj c) obj'" if "tsm_items (stored key obj c) k = Some obj'" for k obj'
    using that assms store_invD(2) [OF assms(1), of k] by (auto simp: indexable_def split: if_splits)
  show "dom (indices (stored key obj c)) \<subseteq> dom (indexers (stored key obj c))"
    using dom_changed(2) [of "c\<lparr>indices := unindexed c key\<rparr>" obj key "dom (indexers c)"]
      store_invD(3) [OF assms(1)]
    by (simp add: stored_def dom_unindexed sup.absorb2)
  show "finite (dom (tsm_items (stored key obj c)))"
    using store_invD(4) [OF assms(1)] by simp
qed

lemma store_inv_removed:
  assumes "store_inv c"
  shows "store_inv (removed key c)"
proof (rule store_invI)
  show "lookupSet (lookupIndex (removed key c) n) v = keys_with (removed key c) f v"
    if "indexers (removed key c) n = Some f" for n f v
    using that lookup_unindexed [OF assms, of n f key v]
    by (simp add: removed_def keys_with_remove lookupIndex_def)
  show "indexable (removed key c) obj'" if "tsm_items (removed key c) k = Some obj'" for k obj'
    using that store_invD(2) [OF assms, of k] by (auto simp: indexable_def split: if_splits)
  show "dom (indices (removed key c)) \<subseteq> dom (indexers (removed key c))"
    using store_invD(3) [OF assms] by (simp add: removed_def dom_unindexed)
  show "finite (dom (tsm_items (removed key c)))"
    using store_invD(4) [OF assms] by simp
qed

lemma indices_of_items [simp]:
  "deletedIndices (c\<lparr>tsm_items := m\<rparr>) obj key N = deletedIndices c obj key N"
  "insertedIndices (c\<lparr>tsm_items := m\<rparr>) obj key N = insertedIndices c obj key N"
  "insertedIndices (c\<lparr>tsm_items := m, indices := ixs\<rparr>) obj key N =
     insertedIndices (c\<lparr>indices := ixs\<rparr>) obj key N"
  by (simp_all add: deletedIndices_def insertedIndices_def lookupIndex_def fun_eq_iff split: option.split)

lemma tsm_Add_eq:
  assumes "store_inv c" and "indexable c obj" and "orders c ord"
  shows "tsm_Add ord key obj c = Inr (stored key obj c)"
proof -
  let ?c = "c\<lparr>tsm_items := (tsm_items c)(key \<mapsto> obj)\<rparr>"
  have "orders ?c ord" using assms(3) by (simp add: orders_def)
  moreover have "indexable ?c obj" using assms(2) by simp
  moreover have "indexable ?c old" if "tsm_items c key = Some old" for old
    using store_invD(2) [OF assms(1) that] by simp
  ultimately have "tsm_Add ord key obj c =
     Inr (?c\<lparr>indices := insertedIndices (?c\<lparr>indices := (case tsm_items c key of None \<Rightarrow> indices ?c
          | Some old \<Rightarrow> deletedIndices ?c old key (dom (indexers ?c)))\<rparr>) obj key (dom (indexers ?c))\<rparr>)"
    unfolding tsm_Add_def Let_def by (rule updateIndices_eq)
  then show ?thesis
    by (simp add: stored_def unindexed_def split: option.split)
qed

lemma tsm_Delete_eq:
  assumes "store_inv c" and "orders c ord"
  shows "tsm_Delete ord key c = Inr (removed key c)"
proof (cases "tsm_items c key")
  case None
  then have "removed key c = c"
    by (simp add: removed_def unindexed_def fun_upd_idem)
  with None show ?thesis by (simp add: tsm_Delete_def)
next
  case (Some obj)
  have names: "distinct (ord 0)" "set (ord 0) = dom (indexers c)"
    using assms(2) by (auto simp: orders_def)
  show ?thesis
    using deleteFromIndices_eq [OF names(1) store_invD(2) [OF assms(1) Some]] names(2) Some
    by (simp add: tsm_Delete_def removed_def unindexed_def)
qed

text \<open>\<open>Replace\<close>: while the loop runs, the indices describe the objects already visited.\<close>

lemma replaceLoop_inv:
  assumes "store_inv (c\<lparr>tsm_items := tsm_items c |` done\<rparr>)" and "distinct keys"
    and "set keys \<inter> done = {}" and "set keys \<union> done = dom (tsm_items c)"
    and "\<And>k obj. tsm_items c k = Some obj \<Longrightarrow> indexable c obj"
    and "\<And>k. orders c (ord k)"
  shows "\<exists>c'. replaceLoop ord keys c = Inr c' \<and> store_inv c'
     \<and> tsm_items c' = tsm_items c \<and> indexers c' = indexers c"
  using assms
proof (induction keys arbitrary: c "done")
  case Nil
  then have "tsm_items c |` done = tsm_items c"
    by (auto simp: restrict_map_def fun_eq_iff)
  then have "c\<lparr>tsm_items := tsm_items c |` done\<rparr> = c" by simp
  with Nil.prems(1) show ?case by simp
next
  case (Cons key keys)
  let ?v = "c\<lparr>tsm_items := tsm_items c |` done\<rparr>"
  from Cons.prems(4) obtain item where item: "tsm_items c key = Some item" by auto
  have fresh: "(tsm_items c |` done) key = None"
    using Cons.prems(3) by (simp add: restrict_map_def)
  define c1 where "c1 = c\<lparr>indices := insertedIndices c item key (dom (indexers c))\<rparr>"
  have step: "updateIndices (ord key) None item key c = Inr c1"
    using updateIndices_eq [OF Cons.prems(6) Cons.prems(5) [OF item], of None] by (simp add: c1_def)
  have visited: "(tsm_items c |` done)(key \<mapsto> item) = tsm_items c |` insert key done"
    using item by (auto simp: restrict_map_def fun_eq_iff)
  have "stored key item ?v = c1\<lparr>tsm_items := tsm_items c1 |` insert key done\<rparr>"
    using fresh visited by (simp add: stored_def unindexed_def c1_def)
  moreover have "store_inv (stored key item ?v)"
    using store_inv_stored [OF Cons.prems(1)] Cons.prems(5) [OF item] by simp
  ultimately have "store_inv (c1\<lparr>tsm_items := tsm_items c1 |` insert key done\<rparr>)" by simp
  moreover have "set keys \<inter> insert key done = {}" "set keys \<union> insert key done = dom (tsm_items c1)"
    using Cons.prems(2-4) by (auto simp: c1_def)
  ultimately have "\<exists>c'. replaceLoop ord keys c1 = Inr c' \<and> store_inv c'
     \<and> tsm_items c' = tsm_items c1 \<and> indexers c' = indexers c1"
    using Cons.IH [of c1 "insert key done"] Cons.prems(2,5,6) by (simp add: c1_def orders_def)
  then show ?case
    using item step by (simp add: c1_def)
qed

lemma tsm_Replace_inv:
  assumes "range_keys keys items" and "\<And>k obj. items k = Some obj \<Longrightarrow> indexable c obj"
    and "\<And>k. orders c (ord k)"
  shows "\<exists>c'. tsm_Replace ord keys items c = Inr c' \<and> store_inv c'
     \<and> tsm_items c' = items \<and> indexers c' = indexers c"
proof -
  let ?c = "c\<lparr>tsm_items := items, indices := Map.empty\<rparr>"
  have "store_inv (?c\<lparr>tsm_items := tsm_items ?c |` {}\<rparr>)"
    by (rule store_invI) (auto simp: lookupIndex_def keys_with_def)
  then have "\<exists>c'. replaceLoop ord keys ?c = Inr c' \<and> store_inv c'
     \<and> tsm_items c' = tsm_items ?c \<and> indexers c' = indexers ?c"
    by (rule replaceLoop_inv) (use assms in \<open>auto simp: orders_def indexable_def\<close>)
  then show ?thesis by (simp add: tsm_Replace_def)
qed

lemma tsm_AddIndexers_inv:
  assumes "store_inv c"
  shows "store_inv (snd (tsm_AddIndexers new c))"
    and "tsm_items (snd (tsm_AddIndexers new c)) = tsm_items c"
proof -
  have "store_inv (c\<lparr>indexers := indexers c ++ new\<rparr>)"
    if none: "tsm_items c = Map.empty" and new: "dom (indexers c) \<inter> dom new = {}"
  proof (rule store_invI)
    let ?c = "c\<lparr>indexers := indexers c ++ new\<rparr>"
    show "lookupSet (lookupIndex ?c n) v = keys_with ?c f v" if n: "indexers ?c n = Some f" for n f v
    proof (cases "new n")
      case None
      then have "lookupSet (lookupIndex c n) v = {}"
        using n store_invD(1) [OF assms, of n f v] none
        by (simp add: keys_with_def map_add_def)
      with none show ?thesis by (simp add: keys_with_def lookupIndex_def)
    next
      case (Some g)
      then have "n \<notin> dom (indices c)"
        using new store_invD(3) [OF assms] by blast
      then have "indices c n = None" by (simp add: domIff)
      with none show ?thesis by (simp add: keys_with_def lookupIndex_def)
    qed
  qed (use none store_invD(3) [OF assms] in auto)
  with assms show "store_inv (snd (tsm_AddIndexers new c))"
    by (auto simp: tsm_AddIndexers_def Let_def)
  show "tsm_items (snd (tsm_AddIndexers new c)) = tsm_items c"
    by (simp add: tsm_AddIndexers_def Let_def)
qed

section \<open>Histories of a store\<close>

text \<open>
  The operations that change a store, and the runs of a sequence of them.  Every loop ranges over
  its map in some order; a run ends early with the panic of an operation.
\<close>

datatype 'o store_op =
    OpAdd string 'o
  | OpUpdate string 'o
  | OpDelete string
  | OpReplace "string \<rightharpoonup> 'o"
  | OpAddIndexers "string \<rightharpoonup> 'o IndexFunc"

inductive store_step ::
  "'o threadSafeMap \<Rightarrow> 'o store_op \<Rightarrow> store_panic + 'o threadSafeMap \<Rightarrow> bool" where
  add: "orders c ord \<Longrightarrow> store_step c (OpAdd key obj) (tsm_Add ord key obj c)"
| update: "orders c ord \<Longrightarrow> store_step c (OpUpdate key obj) (tsm_Update ord key obj c)"
| delete: "orders c ord \<Longrightarrow> store_step c (OpDelete key) (tsm_Delete ord key c)"
| replace: "range_keys keys items \<Longrightarrow> (\<And>k. orders c (ordk k)) \<Longrightarrow>
    store_step c (OpReplace items) (tsm_Replace ordk keys items c)"
| addIndexers: "store_step c (OpAddIndexers new) (Inr (snd (tsm_AddIndexers new c)))"

inductive store_runs ::
  "'o threadSafeMap \<Rightarrow> 'o store_op list \<Rightarrow> store_panic + 'o threadSafeMap \<Rightarrow> bool" where
  finished: "store_runs c [] (Inr c)"
| step: "store_step c op (Inr c') \<Longrightarrow> store_runs c' ops r \<Longrightarrow> store_runs c (op # ops) r"
| panic: "store_step c op (Inl p) \<Longrightarrow> store_runs c (op # ops) (Inl p)"

inductive_cases store_stepE: "store_step c op r"

text \<open>The specification: a store is a map, and indexers do not change it.\<close>

fun spec_op :: "'o store_op \<Rightarrow> (string \<rightharpoonup> 'o) \<Rightarrow> (string \<rightharpoonup> 'o)" where
  "spec_op (OpAdd key obj) m = m(key \<mapsto> obj)"
| "spec_op (OpUpdate key obj) m = m(key \<mapsto> obj)"
| "spec_op (OpDelete key) m = m(key := None)"
| "spec_op (OpReplace items) m = items"
| "spec_op (OpAddIndexers new) m = m"

text \<open>Index functions that never fail.\<close>

definition total_indexers :: "(string \<rightharpoonup> 'o IndexFunc) \<Rightarrow> bool" where
  "total_indexers ixers \<longleftrightarrow> (\<forall>name f obj. ixers name = Some f \<longrightarrow> (\<exists>vs. f obj = Inr vs))"

fun total_op :: "'o store_op \<Rightarrow> bool" where
  "total_op (OpAddIndexers new) = total_indexers new"
| "total_op _ = True"

lemma total_indexable: "total_indexers (indexers c) \<Longrightarrow> indexable c obj"
  by (simp add: total_indexers_def indexable_def)

lemma total_AddIndexers:
  "total_indexers (indexers c) \<Longrightarrow> total_indexers new
     \<Longrightarrow> total_indexers (indexers (snd (tsm_AddIndexers new c)))"
  by (auto simp: total_indexers_def tsm_AddIndexers_def Let_def map_add_def split: option.splits)

lemma store_step_refines:
  assumes "store_step c op r" and "store_inv c" and "total_indexers (indexers c)" and "total_op op"
  shows "\<exists>c'. r = Inr c' \<and> store_inv c' \<and> total_indexers (indexers c')
     \<and> tsm_items c' = spec_op op (tsm_items c)"
  using assms(1)
proof cases
  case (add ord key obj)
  then show ?thesis
    using assms tsm_Add_eq store_inv_stored total_indexable by (metis spec_op.simps(1) stored_fields(1,2))
next
  case (update ord key obj)
  have "tsm_Update ord key obj c = tsm_Add ord key obj c" by (simp add: tsm_Update_def tsm_Add_def)
  with update show ?thesis
    using assms tsm_Add_eq store_inv_stored total_indexable by (metis spec_op.simps(2) stored_fields(1,2))
next
  case (delete ord key)
  then show ?thesis
    using assms tsm_Delete_eq store_inv_removed by (metis spec_op.simps(3) stored_fields(3,4))
next
  case (replace keys items ordk)
  then show ?thesis
    using tsm_Replace_inv [of keys items c ordk] total_indexable [OF assms(3)] assms(3) by auto
next
  case (addIndexers new)
  then show ?thesis
    using tsm_AddIndexers_inv [OF assms(2)] total_AddIndexers assms(3,4) by auto
qed

lemma store_runs_refine:
  "store_runs c ops r \<Longrightarrow> store_inv c \<Longrightarrow> total_indexers (indexers c) \<Longrightarrow> list_all total_op ops \<Longrightarrow>
     \<exists>c'. r = Inr c' \<and> store_inv c' \<and> tsm_items c' = fold spec_op ops (tsm_items c)"
proof (induction rule: store_runs.induct)
  case (step c op c' ops r)
  then show ?case using store_step_refines [OF step.hyps(1)] by auto
next
  case (panic c op p ops)
  then show ?case using store_step_refines [OF panic.hyps(1)] by auto
qed simp

lemma store_inv_new: "store_inv (NewThreadSafeStore ixers Map.empty)"
  by (rule store_invI) (auto simp: NewThreadSafeStore_def lookupIndex_def keys_with_def)

lemma IndexKeys_exact:
  "store_inv c \<Longrightarrow> indexers c name = Some f \<Longrightarrow>
     tsm_IndexKeys name v c = Inr (sorted_list_of_set (keys_with c f v))"
  by (simp add: tsm_IndexKeys_def store_invD)

lemma finite_keys_with: "store_inv c \<Longrightarrow> finite (keys_with c f v)"
  by (rule finite_subset [OF _ store_invD(4)]) (auto simp: keys_with_def)

text \<open>Reads through an index never meet a missing object.\<close>

lemma ByIndex_exact:
  assumes "store_inv c" and "indexers c name = Some f"
  shows "tsm_ByIndex name v c =
    Inr (map (tsm_items c) (sorted_list_of_set (keys_with c f v)))"
    and "\<forall>k \<in> set (sorted_list_of_set (keys_with c f v)).
      \<exists>obj. tsm_items c k = Some obj \<and> v \<in> set (values_of f obj)"
  using assms finite_keys_with [OF assms(1)]
  by (simp_all add: tsm_ByIndex_def store_invD) (simp add: keys_with_def)

lemma Index_exact:
  assumes "store_inv c" and "indexers c name = Some f" and "f obj = Inr vs"
    and "set keys = (\<Union>v \<in> set vs. lookupSet (lookupIndex c name) v)"
  shows "\<exists>os. tsm_Index keys name obj c = Inr (map Some os) \<and>
    set os = {o'. \<exists>k. tsm_items c k = Some o' \<and> set (values_of f o') \<inter> set vs \<noteq> {}}"
proof -
  have keys: "set keys = (\<Union>v \<in> set vs. keys_with c f v)"
    using assms by (simp add: store_invD)
  let ?os = "map (\<lambda>k. the (tsm_items c k)) keys"
  have "filter (\<lambda>k. k \<in> (\<Union>v \<in> set vs. lookupSet (lookupIndex c name) v)) keys = keys"
    by (rule filter_True) (simp add: assms(4))
  then have "tsm_Index keys name obj c = Inr (map (tsm_items c) keys)"
    using assms(2,3) by (simp add: tsm_Index_def Let_def)
  moreover have "map (tsm_items c) keys = map Some ?os"
    using keys by (auto simp: keys_with_def)
  moreover have "set ?os = {o'. \<exists>k. tsm_items c k = Some o' \<and> set (values_of f o') \<inter> set vs \<noteq> {}}"
    using keys by (force simp: keys_with_def image_iff)
  ultimately show ?thesis by metis
qed

section \<open>The keyed cache\<close>

text \<open>
  \<open>store.go\<close>: a cache computes the key of an object and calls the store.  An operation may panic in
  an index function (left), or return a key error and the cache (right).
\<close>

datatype 'o key_error = KeyError 'o string

record 'o cache =
  cacheStorage :: "'o threadSafeMap"
  keyFunc :: "'o \<Rightarrow> string + string"

type_synonym 'o cache_result = "store_panic + 'o key_error option \<times> 'o cache"

definition NewIndexer :: "('o \<Rightarrow> string + string) \<Rightarrow> (string \<rightharpoonup> 'o IndexFunc) \<Rightarrow> 'o cache" where
  "NewIndexer kf ixers = \<lparr>cacheStorage = NewThreadSafeStore ixers Map.empty, keyFunc = kf\<rparr>"

definition NewStore :: "('o \<Rightarrow> string + string) \<Rightarrow> 'o cache" where
  "NewStore kf = \<lparr>cacheStorage = NewThreadSafeStore Map.empty Map.empty, keyFunc = kf\<rparr>"

definition written :: "'o cache \<Rightarrow> store_panic + 'o threadSafeMap \<Rightarrow> 'o cache_result" where
  "written c r = (case r of Inl p \<Rightarrow> Inl p | Inr s \<Rightarrow> Inr (None, c\<lparr>cacheStorage := s\<rparr>))"

definition cache_Add :: "range_orders \<Rightarrow> 'o \<Rightarrow> 'o cache \<Rightarrow> 'o cache_result" where
  "cache_Add ord obj c =
     (case keyFunc c obj of
        Inl err \<Rightarrow> Inr (Some (KeyError obj err), c)
      | Inr key \<Rightarrow> written c (tsm_Add ord key obj (cacheStorage c)))"

definition cache_Update :: "range_orders \<Rightarrow> 'o \<Rightarrow> 'o cache \<Rightarrow> 'o cache_result" where
  "cache_Update ord obj c =
     (case keyFunc c obj of
        Inl err \<Rightarrow> Inr (Some (KeyError obj err), c)
      | Inr key \<Rightarrow> written c (tsm_Update ord key obj (cacheStorage c)))"

definition cache_Delete :: "range_orders \<Rightarrow> 'o \<Rightarrow> 'o cache \<Rightarrow> 'o cache_result" where
  "cache_Delete ord obj c =
     (case keyFunc c obj of
        Inl err \<Rightarrow> Inr (Some (KeyError obj err), c)
      | Inr key \<Rightarrow> written c (tsm_Delete ord key (cacheStorage c)))"

definition cache_GetByKey :: "'o cache \<Rightarrow> string \<Rightarrow> 'o key_error + 'o option" where
  "cache_GetByKey c key = Inr (tsm_Get (cacheStorage c) key)"

definition cache_Get :: "'o cache \<Rightarrow> 'o \<Rightarrow> 'o key_error + 'o option" where
  "cache_Get c obj =
     (case keyFunc c obj of
        Inl err \<Rightarrow> Inl (KeyError obj err)
      | Inr key \<Rightarrow> cache_GetByKey c key)"

definition cache_List :: "string list \<Rightarrow> 'o cache \<Rightarrow> 'o list" where
  "cache_List keys c = tsm_List keys (cacheStorage c)"

definition cache_ListKeys :: "string list \<Rightarrow> 'o cache \<Rightarrow> string list" where
  "cache_ListKeys keys c = tsm_ListKeys keys (cacheStorage c)"

fun keyedItems ::
  "('o \<Rightarrow> string + string) \<Rightarrow> 'o list \<Rightarrow> (string \<rightharpoonup> 'o) \<Rightarrow> 'o key_error + (string \<rightharpoonup> 'o)" where
  "keyedItems kf [] items = Inr items"
| "keyedItems kf (item # list) items =
     (case kf item of
        Inl err \<Rightarrow> Inl (KeyError item err)
      | Inr key \<Rightarrow> keyedItems kf list (items(key \<mapsto> item)))"

definition cache_Replace ::
  "(string \<Rightarrow> range_orders) \<Rightarrow> string list \<Rightarrow> 'o list \<Rightarrow> 'o cache \<Rightarrow> 'o cache_result" where
  "cache_Replace ord keys list c =
     (case keyedItems (keyFunc c) list Map.empty of
        Inl err \<Rightarrow> Inr (Some err, c)
      | Inr items \<Rightarrow> written c (tsm_Replace ord keys items (cacheStorage c)))"

text \<open>Keys of API objects; \<open>NoMeta\<close> is an object without metadata.\<close>

datatype api_object =
    ExplicitKey string
  | WithMeta (meta_namespace: string) (meta_name: string)
  | NoMeta

definition MetaNamespaceKeyFunc :: "api_object \<Rightarrow> string + string" where
  "MetaNamespaceKeyFunc obj =
     (case obj of
        ExplicitKey key \<Rightarrow> Inr key
      | NoMeta \<Rightarrow> Inl ''object has no meta''
      | WithMeta namespace name \<Rightarrow>
          if length namespace > 0 then Inr (namespace @ ''/'' @ name) else Inr name)"

definition SplitMetaNamespaceKey :: "string \<Rightarrow> string + string \<times> string" where
  "SplitMetaNamespaceKey key =
     (case Split key CHR ''/'' of
        [name] \<Rightarrow> Inr ('''', name)
      | [namespace, name] \<Rightarrow> Inr (namespace, name)
      | _ \<Rightarrow> Inl key)"

section \<open>Properties of the store and the cache\<close>

text \<open>
  What a key lister and getter promises to its client, for a state \<open>s\<close>: the listed keys, in any
  order the store may list them, are exactly the keys under which an object is found.
\<close>

locale KeyListerGetter =
  fixes listOrder :: "'s \<Rightarrow> string list \<Rightarrow> bool"
    and listKeys :: "string list \<Rightarrow> 's \<Rightarrow> string list"
    and getByKey :: "'s \<Rightarrow> string \<Rightarrow> 'e + 'o option"
  assumes listKeys_distinct: "listOrder s ord \<Longrightarrow> distinct (listKeys ord s)"
    and listKeys_found: "listOrder s ord \<Longrightarrow>
      k \<in> set (listKeys ord s) \<longleftrightarrow> (\<exists>obj. getByKey s k = Inr (Some obj))"
    and getByKey_ok: "\<exists>r. getByKey s k = Inr r"
begin

definition contents :: "'s \<Rightarrow> string \<rightharpoonup> 'o" where
  "contents s k = (case getByKey s k of Inr r \<Rightarrow> r | Inl e \<Rightarrow> None)"

lemma contents_iff: "contents s k = Some obj \<longleftrightarrow> getByKey s k = Inr (Some obj)"
  by (auto simp: contents_def split: sum.split)

lemma listKeys_range: "listOrder s ord \<Longrightarrow> range_keys (listKeys ord s) (contents s)"
  using listKeys_distinct [of s ord] listKeys_found [of s ord]
  by (auto simp: range_keys_def contents_iff)

end

interpretation tsm: KeyListerGetter
  "\<lambda>c ks. range_keys ks (tsm_items (cacheStorage c))" cache_ListKeys cache_GetByKey
  by unfold_locales
    (auto simp: cache_ListKeys_def tsm_ListKeys_def cache_GetByKey_def tsm_Get_def dest: range_keysD)

lemma tsm_contents [simp]: "tsm.contents c = tsm_items (cacheStorage c)"
  by (simp add: tsm.contents_def fun_eq_iff cache_GetByKey_def tsm_Get_def)

text \<open>C13. Whatever sequence of Add, Update, Delete, Replace and AddIndexers operations runs on a new
  store, and in whatever order the loops range over the maps, no operation panics when the index
  functions never fail, the store holds exactly the objects a plain map would hold, and for every
  indexer and value the index lists exactly the keys of the held objects that have this value.\<close>

theorem store_runs_correct:
  assumes "store_runs (NewThreadSafeStore ixers Map.empty) ops r"
    and "total_indexers ixers" and "list_all total_op ops"
  shows "\<exists>c. r = Inr c \<and> tsm_Get c = fold spec_op ops Map.empty \<and>
    (\<forall>name f v. indexers c name = Some f \<longrightarrow>
       tsm_IndexKeys name v c = Inr (sorted_list_of_set
         {k. \<exists>obj. fold spec_op ops Map.empty k = Some obj \<and> v \<in> set (values_of f obj)}))"
proof -
  have new: "tsm_items (NewThreadSafeStore ixers Map.empty) = Map.empty"
    "indexers (NewThreadSafeStore ixers Map.empty) = ixers"
    by (simp_all add: NewThreadSafeStore_def)
  obtain c where c: "r = Inr c" "store_inv c" "tsm_items c = fold spec_op ops Map.empty"
    using store_runs_refine [OF assms(1) store_inv_new _ assms(3)] assms(2) new by auto
  have "tsm_IndexKeys name v c = Inr (sorted_list_of_set
      {k. \<exists>obj. fold spec_op ops Map.empty k = Some obj \<and> v \<in> set (values_of f obj)})"
    if "indexers c name = Some f" for name f v
    using IndexKeys_exact [OF c(2) that] c(3) by (simp add: keys_with_def)
  with c(1,3) show ?thesis by (auto simp: tsm_Get_def fun_eq_iff)
qed

text \<open>An index by the first character of the object, on a store of strings.\<close>

definition by_initial :: "string \<rightharpoonup> string IndexFunc" where
  "by_initial = [''initial'' \<mapsto> (\<lambda>s. Inr [take 1 s])]"

lemma range_by_initial: "orders (c\<lparr>indexers := by_initial\<rparr>) (\<lambda>n. [''initial''])"
  by (auto simp: orders_def range_keys_def by_initial_def)

lemma total_by_initial: "total_indexers by_initial"
  by (auto simp: total_indexers_def by_initial_def split: if_splits)

theorem store_runs_correct_witness:
  "\<exists>c. tsm_Add (\<lambda>n. [''initial'']) ''a'' ''pod'' (NewThreadSafeStore by_initial Map.empty) = Inr c
     \<and> tsm_Get c ''a'' = Some ''pod''"
proof -
  let ?c = "NewThreadSafeStore by_initial Map.empty"
  let ?r = "tsm_Add (\<lambda>n. [''initial'']) ''a'' ''pod'' ?c"
  have "orders ?c (\<lambda>n. [''initial''])"
    using range_by_initial [of ?c] by (simp add: NewThreadSafeStore_def)
  then have s: "store_step ?c (OpAdd ''a'' ''pod'') ?r" by (rule store_step.add)
  then have "store_runs ?c [OpAdd ''a'' ''pod''] ?r"
    by (cases ?r) (auto intro: store_runs.intros)
  from store_runs_correct [OF this total_by_initial] show ?thesis by auto
qed

text \<open>C14. After any sequence of operations on a new store, in whatever order the loops range over the maps, ByIndex returns for
  every value exactly the held objects that have this value, in the order of their keys, one for each key and never nil;
  Index returns for any object, held or not, exactly the held objects that share a value with it, one for each key even when
  they share several values.  The error of the index function and a missing index are reported.  The index
  functions of the store itself never fail.\<close>

theorem ByIndex_correct:
  assumes "store_runs (NewThreadSafeStore ixers Map.empty) ops (Inr c)"
    and "total_indexers ixers" and "list_all total_op ops" and "range_keys keys (fold spec_op ops Map.empty)"
  shows "case indexers c name of
      None \<Rightarrow> tsm_ByIndex name v c = Inl (NoSuchIndex name) \<and> tsm_Index keys name obj c = Inl (NoSuchIndex name)
    | Some f \<Rightarrow>
        (\<exists>ks. tsm_ByIndex name v c = Inr (map (fold spec_op ops Map.empty) ks) \<and> sorted ks \<and> distinct ks \<and>
           set ks = {k. \<exists>o'. fold spec_op ops Map.empty k = Some o' \<and> v \<in> set (values_of f o')})
        \<and> (case f obj of
             Inl err \<Rightarrow> tsm_Index keys name obj c = Inl (IndexFuncError err)
           | Inr vs \<Rightarrow>
               (\<exists>ks. tsm_Index keys name obj c = Inr (map (fold spec_op ops Map.empty) ks) \<and> distinct ks \<and>
                  set ks = {k. \<exists>o'. fold spec_op ops Map.empty k = Some o' \<and> set (values_of f o') \<inter> set vs \<noteq> {}}))"
proof -
  let ?m = "fold spec_op ops Map.empty"
  have "tsm_items (NewThreadSafeStore ixers Map.empty) = Map.empty" "indexers (NewThreadSafeStore ixers Map.empty) = ixers"
    by (simp_all add: NewThreadSafeStore_def)
  then have c: "store_inv c" "tsm_items c = ?m"
    using store_runs_refine [OF assms(1) store_inv_new _ assms(3)] assms(2) by auto
  show ?thesis
  proof (cases "indexers c name")
    case None
    then show ?thesis by (simp add: tsm_ByIndex_def tsm_Index_def)
  next
    case (Some f)
    have w: "keys_with c f u = {k. \<exists>o'. ?m k = Some o' \<and> u \<in> set (values_of f o')}" for u
      by (simp add: keys_with_def c(2))
    have "\<exists>ks. tsm_ByIndex name v c = Inr (map ?m ks) \<and> sorted ks \<and> distinct ks \<and>
        set ks = {k. \<exists>o'. ?m k = Some o' \<and> v \<in> set (values_of f o')}"
      using ByIndex_exact(1) [OF c(1) Some, of v] c(2) finite_keys_with [OF c(1), of f v] w [of v]
      by (intro exI [of _ "sorted_list_of_set (keys_with c f v)"]) simp
    moreover have "\<exists>ks. tsm_Index keys name obj c = Inr (map ?m ks) \<and> distinct ks \<and>
        set ks = {k. \<exists>o'. ?m k = Some o' \<and> set (values_of f o') \<inter> set vs \<noteq> {}}" if vs: "f obj = Inr vs" for vs
    proof (intro exI conjI)
      let ?ks = "filter (\<lambda>k. k \<in> (\<Union>u \<in> set vs. keys_with c f u)) keys"
      show "tsm_Index keys name obj c = Inr (map ?m ?ks)"
        using Some vs c by (simp add: tsm_Index_def store_invD(1) [OF c(1) Some] Let_def)
      show "distinct ?ks" using assms(4) by (simp add: range_keys_def)
      show "set ?ks = {k. \<exists>o'. ?m k = Some o' \<and> set (values_of f o') \<inter> set vs \<noteq> {}}"
        using assms(4) unfolding range_keys_def w by auto
    qed
    ultimately show ?thesis using Some by (simp add: tsm_Index_def split: sum.split)
  qed
qed

lemma initial_run:
  "\<exists>c. store_runs (NewThreadSafeStore by_initial Map.empty) [OpAdd ''a'' ''pod''] (Inr c) \<and> indexers c = by_initial"
proof -
  let ?c = "NewThreadSafeStore by_initial Map.empty"
  have o: "orders ?c (\<lambda>n. [''initial''])" using range_by_initial [of ?c] by (simp add: NewThreadSafeStore_def)
  then have s: "store_step ?c (OpAdd ''a'' ''pod'') (tsm_Add (\<lambda>n. [''initial'']) ''a'' ''pod'' ?c)" by (rule store_step.add)
  have ix: "indexers ?c = by_initial" by (simp add: NewThreadSafeStore_def)
  have "tsm_Add (\<lambda>n. [''initial'']) ''a'' ''pod'' ?c = Inr (stored ''a'' ''pod'' ?c)"
    by (rule tsm_Add_eq [OF store_inv_new total_indexable o]) (simp add: ix total_by_initial)
  with s have "store_runs ?c [OpAdd ''a'' ''pod''] (Inr (stored ''a'' ''pod'' ?c))" by (auto intro: store_runs.intros)
  then show ?thesis using ix by (intro exI [of _ "stored ''a'' ''pod'' ?c"]) simp
qed

theorem ByIndex_correct_witness:
  "\<exists>c. store_runs (NewThreadSafeStore by_initial Map.empty) [OpAdd ''a'' ''pod''] (Inr c)
     \<and> tsm_ByIndex ''initial'' ''p'' c = Inr [Some ''pod''] \<and> tsm_Index [''a''] ''initial'' ''pv'' c = Inr [Some ''pod'']"
proof -
  obtain c where c: "store_runs (NewThreadSafeStore by_initial Map.empty) [OpAdd ''a'' ''pod''] (Inr c)" "indexers c = by_initial"
    using initial_run by blast
  have ix: "indexers c ''initial'' = Some (\<lambda>s. Inr [take 1 s])" by (simp add: c(2) by_initial_def)
  have "range_keys [''a''] (fold spec_op [OpAdd ''a'' ''pod''] Map.empty)" by (simp add: range_keys_def)
  note r = ByIndex_correct [OF c(1) total_by_initial _ this, of "''initial''" "''p''" "''pv''", unfolded ix option.case sum.case]
  have one: "{k. \<exists>o'. fold spec_op [OpAdd ''a'' ''pod''] Map.empty k = Some o' \<and> ''p'' \<in> set (values_of (\<lambda>s. Inr [take 1 s]) o')} = {''a''}"
    "{k. \<exists>o'. fold spec_op [OpAdd ''a'' ''pod''] Map.empty k = Some o' \<and>
       set (values_of (\<lambda>s. Inr [take 1 s]) o') \<inter> set [take 1 ''pv''] \<noteq> {}} = {''a''}"
    by (auto simp: values_of_def split: if_splits)
  have single: "ks = [x]" if "distinct ks" "set ks = {x}" for ks :: "string list" and x
    using that by (cases ks; cases "tl ks") auto
  have "list_all total_op [OpAdd ''a'' ''pod'']" by simp
  note r = r [OF this, unfolded one]
  from conjunct1 [OF r] obtain ks where "tsm_ByIndex ''initial'' ''p'' c = Inr (map (fold spec_op [OpAdd ''a'' ''pod''] Map.empty) ks)"
    "distinct ks" "set ks = {''a''}" by blast
  moreover from conjunct2 [OF r] obtain ks' where
    "tsm_Index [''a''] ''initial'' ''pv'' c = Inr (map (fold spec_op [OpAdd ''a'' ''pod''] Map.empty) ks')"
    "distinct ks'" "set ks' = {''a''}" by blast
  ultimately show ?thesis using single [of ks "''a''"] single [of ks' "''a''"] c(1) by (intro exI [of _ c]) simp
qed

text \<open>The writing operations of the cache, on objects that can be keyed and indexed.\<close>

lemma cache_write_eq:
  assumes "store_inv (cacheStorage c)" and "orders (cacheStorage c) ord" and "keyFunc c obj = Inr key"
  shows "indexable (cacheStorage c) obj \<Longrightarrow>
      cache_Add ord obj c = Inr (None, c\<lparr>cacheStorage := stored key obj (cacheStorage c)\<rparr>)"
    and "indexable (cacheStorage c) obj \<Longrightarrow>
      cache_Update ord obj c = Inr (None, c\<lparr>cacheStorage := stored key obj (cacheStorage c)\<rparr>)"
    and "cache_Delete ord obj c = Inr (None, c\<lparr>cacheStorage := removed key (cacheStorage c)\<rparr>)"
proof -
  have "tsm_Update ord key obj s = tsm_Add ord key obj s" for s
    by (simp add: tsm_Update_def tsm_Add_def)
  then show "indexable (cacheStorage c) obj \<Longrightarrow>
      cache_Add ord obj c = Inr (None, c\<lparr>cacheStorage := stored key obj (cacheStorage c)\<rparr>)"
    and "indexable (cacheStorage c) obj \<Longrightarrow>
      cache_Update ord obj c = Inr (None, c\<lparr>cacheStorage := stored key obj (cacheStorage c)\<rparr>)"
    using assms by (simp_all add: cache_Add_def cache_Update_def written_def tsm_Add_eq)
  show "cache_Delete ord obj c = Inr (None, c\<lparr>cacheStorage := removed key (cacheStorage c)\<rparr>)"
    using assms by (simp add: cache_Delete_def written_def tsm_Delete_eq)
qed

text \<open>Every object is held under its own key.\<close>

definition keyed :: "'o cache \<Rightarrow> bool" where
  "keyed c \<longleftrightarrow> (\<forall>k obj. tsm_items (cacheStorage c) k = Some obj \<longrightarrow> keyFunc c obj = Inr k)"

lemma keyedItems_elems:
  "keyedItems kf list items = Inr items' \<Longrightarrow> items' k = Some obj \<Longrightarrow> obj \<in> set list \<or> items k = Some obj"
  by (induction list arbitrary: items) (fastforce split: sum.splits if_splits)+

lemma keyedItems_last:
  assumes "keyedItems kf list items = Inr items'"
  shows "items' k = (case filter (\<lambda>obj. kf obj = Inr k) (rev list) of [] \<Rightarrow> items k | obj # _ \<Rightarrow> Some obj)"
  using assms
  by (induction list arbitrary: items) (auto split: sum.splits list.splits simp: append_eq_Cons_conv)

lemma keyedItems_keyed:
  assumes "keyedItems kf list Map.empty = Inr items'" and "items' k = Some obj"
  shows "kf obj = Inr k"
proof -
  have "obj \<in> set (filter (\<lambda>obj. kf obj = Inr k) (rev list))"
    using keyedItems_last [OF assms(1), of k] assms(2) by (auto split: list.splits simp del: set_filter)
  then show ?thesis by simp
qed

lemma keyedItems_error:
  "keyedItems kf list items = Inl e \<Longrightarrow> \<exists>obj err. e = KeyError obj err \<and> obj \<in> set list \<and> kf obj = Inl err"
proof (induction list arbitrary: items)
  case (Cons item list)
  show ?case
  proof (cases "kf item")
    case (Inl err)
    with Cons.prems show ?thesis by auto
  next
    case (Inr key)
    with Cons.prems have "keyedItems kf list (items(key \<mapsto> item)) = Inl e" by simp
    from Cons.IH [OF this] show ?thesis by auto
  qed
qed simp

text \<open>C15. Replace of a cache, when every object of the list has a key and can be indexed: the cache
  then holds, under every key, the last object of the list with this key and nothing else; its
  indices agree with its objects and every object is held under its own key. When an object of the
  list has no key, Replace returns a key error and leaves the cache as it was.\<close>

theorem cache_Replace_correct:
  assumes "\<And>k. orders (cacheStorage c) (ord k)"
    and "\<And>items. keyedItems (keyFunc c) list Map.empty = Inr items \<Longrightarrow> range_keys keys items"
    and "\<And>obj. obj \<in> set list \<Longrightarrow> indexable (cacheStorage c) obj"
  shows "if \<exists>obj \<in> set list. \<exists>err. keyFunc c obj = Inl err
    then \<exists>obj err. cache_Replace ord keys list c = Inr (Some (KeyError obj err), c)
       \<and> obj \<in> set list \<and> keyFunc c obj = Inl err
    else \<exists>c'. cache_Replace ord keys list c = Inr (None, c') \<and> store_inv (cacheStorage c') \<and> keyed c' \<and>
       (\<forall>k. cache_GetByKey c' k =
          Inr (case filter (\<lambda>obj. keyFunc c obj = Inr k) (rev list) of [] \<Rightarrow> None | obj # _ \<Rightarrow> Some obj))"
proof (cases "keyedItems (keyFunc c) list Map.empty")
  case (Inl e)
  from keyedItems_error [OF Inl] Inl show ?thesis by (auto simp: cache_Replace_def)
next
  case (Inr items)
  have keys: "\<not> (\<exists>obj \<in> set list. \<exists>err. kf obj = Inl err)" if "keyedItems kf list m = Inr items" for kf m
    using that by (induction list arbitrary: m) (auto split: sum.splits)
  have "indexable (cacheStorage c) obj" if "items k = Some obj" for k obj
    using keyedItems_elems [OF Inr that] assms(3) by simp
  then obtain s where s: "tsm_Replace ord keys items (cacheStorage c) = Inr s" "store_inv s"
      "tsm_items s = items"
    using tsm_Replace_inv [OF assms(2) [OF Inr], of "cacheStorage c" ord] assms(1) by auto
  have "keyed (c\<lparr>cacheStorage := s\<rparr>)"
    using keyedItems_keyed [OF Inr] s(3) by (simp add: keyed_def)
  with keys [OF Inr] s Inr show ?thesis
    by (auto simp: cache_Replace_def written_def cache_GetByKey_def tsm_Get_def
        keyedItems_last [OF Inr] split: list.split)
qed

definition pod_key :: "string \<Rightarrow> string + string" where
  "pod_key s = (if s = '''' then Inl ''empty'' else Inr (take 1 s))"

theorem cache_Replace_correct_witness:
  "\<exists>c'. cache_Replace (\<lambda>k n. [''initial'']) [''p'', ''n''] [''pod'', ''node'', ''pv''] (NewIndexer pod_key by_initial)
     = Inr (None, c') \<and> cache_GetByKey c' ''p'' = Inr (Some ''pv'')"
proof -
  let ?c = "NewIndexer pod_key by_initial"
  have ord: "orders (cacheStorage ?c) (\<lambda>n. [''initial''])"
    using range_by_initial [of "cacheStorage ?c"] by (simp add: NewIndexer_def NewThreadSafeStore_def)
  have ix: "indexable (cacheStorage ?c) obj" for obj
    by (rule total_indexable) (simp add: NewIndexer_def NewThreadSafeStore_def total_by_initial)
  have "range_keys [''p'', ''n''] items"
    if "keyedItems (keyFunc ?c) [''pod'', ''node'', ''pv''] Map.empty = Inr items" for items
    using that by (auto simp: NewIndexer_def pod_key_def range_keys_def split: if_splits)
  note r = cache_Replace_correct [of ?c "\<lambda>k n. [''initial'']" "[''pod'', ''node'', ''pv'']" "[''p'', ''n'']",
      OF ord this ix]
  have "keyFunc ?c = pod_key" by (simp add: NewIndexer_def)
  with r show ?thesis by (auto simp: pod_key_def)
qed

text \<open>A namespace and a name without slashes are recovered from the key that
  MetaNamespaceKeyFunc makes of them, so objects with different namespaces or names have different
  keys.\<close>

theorem key_round_trip:
  assumes "CHR ''/'' \<notin> set namespace" and "CHR ''/'' \<notin> set name"
  shows "\<exists>key. MetaNamespaceKeyFunc (WithMeta namespace name) = Inr key
    \<and> SplitMetaNamespaceKey key = Inr (namespace, name)"
  using assms
  by (simp add: MetaNamespaceKeyFunc_def SplitMetaNamespaceKey_def Split_append Split_absent)

theorem key_round_trip_witness:
  "\<exists>key. MetaNamespaceKeyFunc (WithMeta ''kube-system'' ''dns'') = Inr key
    \<and> SplitMetaNamespaceKey key = Inr (''kube-system'', ''dns'')"
  by (rule key_round_trip) simp_all

end
