(* ===== verification/Delta_FIFO.thy ===== *)
theory Delta_FIFO
  imports Thread_Safe_Store
begin

text \<open>
  The producer-consumer queue of object changes of client-go,
  \<open>staging/src/k8s.io/client-go/tools/cache/delta_fifo.go\<close>.  Every operation runs under the lock of
  the queue and is a function on its state; the errors an operation returns are values.

  The set of known objects is an interface of another component: it is an argument of the operations
  that read it, with the key order and the lookups it answers during the call.
\<close>

section \<open>Objects, deltas and the queue\<close>

datatype DeltaType = Added | Updated | Deleted | Sync

text \<open>
  The dynamic types the code distinguishes: an API object, a tombstone (with the object if there is
  one) and a list of deltas.
\<close>

datatype 'a obj =
    Plain 'a
  | DeletedFinalStateUnknown string "'a obj option"
  | DeltasObj "'a delta list"
and 'a delta = Delta (delta_Type: DeltaType) (delta_Object: "'a obj")

type_synonym 'a Deltas = "'a delta list"

datatype 'a fifo_error =
    KeyErr "'a obj" "'a fifo_error"
  | ErrZeroLengthDeltasObject
  | KeyFuncError string
  | CouldntEnqueue "'a fifo_error"
  | NotDeltas "'a obj"

record 'a DeltaFIFO =
  df_items :: "string \<rightharpoonup> 'a Deltas"
  df_queue :: "string list"
  populated :: bool
  initialPopulationCount :: nat
  df_keyFunc :: "'a obj \<Rightarrow> string + string"
  closed :: bool

record 'a knownObjects =
  known_ListKeys :: "string list"
  known_GetByKey :: "string \<Rightarrow> string + 'a obj option"

definition NewDeltaFIFO :: "('a obj \<Rightarrow> string + string) \<Rightarrow> 'a DeltaFIFO" where
  "NewDeltaFIFO kf =
     \<lparr>df_items = Map.empty, df_queue = [], populated = False, initialPopulationCount = 0,
      df_keyFunc = kf, closed = False\<rparr>"

definition Newest :: "'a Deltas \<Rightarrow> 'a delta option" where
  "Newest d = (if length d > 0 then Some (d ! (length d - 1)) else None)"

definition Oldest :: "'a Deltas \<Rightarrow> 'a delta option" where
  "Oldest d = (if length d > 0 then Some (d ! 0) else None)"

definition keyOfPlain :: "('a obj \<Rightarrow> string + string) \<Rightarrow> 'a obj \<Rightarrow> 'a fifo_error + string" where
  "keyOfPlain kf obj =
     (case obj of
        DeletedFinalStateUnknown k old \<Rightarrow> Inr k
      | _ \<Rightarrow> (case kf obj of Inl err \<Rightarrow> Inl (KeyFuncError err) | Inr k \<Rightarrow> Inr k))"

definition KeyOf :: "'a DeltaFIFO \<Rightarrow> 'a obj \<Rightarrow> 'a fifo_error + string" where
  "KeyOf f obj =
     (case obj of
        DeltasObj d \<Rightarrow>
          (case Newest d of
             None \<Rightarrow> Inl (KeyErr obj ErrZeroLengthDeltasObject)
           | Some n \<Rightarrow> keyOfPlain (df_keyFunc f) (delta_Object n))
      | _ \<Rightarrow> keyOfPlain (df_keyFunc f) obj)"

definition HasSynced :: "'a DeltaFIFO \<Rightarrow> bool" where
  "HasSynced f \<longleftrightarrow> populated f \<and> initialPopulationCount f = 0"

definition df_Close :: "'a DeltaFIFO \<Rightarrow> 'a DeltaFIFO" where
  "df_Close f = f\<lparr>closed := True\<rparr>"

section \<open>Queueing one change\<close>

definition isDeletionDup :: "'a delta \<Rightarrow> 'a delta \<Rightarrow> 'a delta option" where
  "isDeletionDup a b =
     (if delta_Type b \<noteq> Deleted \<or> delta_Type a \<noteq> Deleted then None
      else (case delta_Object b of
              DeletedFinalStateUnknown k old \<Rightarrow> Some a
            | _ \<Rightarrow> Some b))"

definition isDup :: "'a delta \<Rightarrow> 'a delta \<Rightarrow> 'a delta option" where
  "isDup a b = (case isDeletionDup a b of Some out \<Rightarrow> Some out | None \<Rightarrow> None)"

definition dedupDeltas :: "'a Deltas \<Rightarrow> 'a Deltas" where
  "dedupDeltas deltas =
     (let n = length deltas
      in if n < 2 then deltas
         else (case isDup (deltas ! (n - 1)) (deltas ! (n - 2)) of
                 Some out \<Rightarrow> take (n - 2) deltas @ [out]
               | None \<Rightarrow> deltas))"

definition deltasOf :: "'a DeltaFIFO \<Rightarrow> string \<Rightarrow> 'a Deltas" where
  "deltasOf f key = (case df_items f key of None \<Rightarrow> [] | Some ds \<Rightarrow> ds)"

definition willObjectBeDeletedLocked :: "'a DeltaFIFO \<Rightarrow> string \<Rightarrow> bool" where
  "willObjectBeDeletedLocked f key =
     (let deltas = deltasOf f key
      in length deltas > 0 \<and> delta_Type (deltas ! (length deltas - 1)) = Deleted)"

definition queueActionLocked ::
  "DeltaType \<Rightarrow> 'a obj \<Rightarrow> 'a DeltaFIFO \<Rightarrow> 'a fifo_error option \<times> 'a DeltaFIFO" where
  "queueActionLocked actionType obj f =
     (case KeyOf f obj of
        Inl err \<Rightarrow> (Some (KeyErr obj err), f)
      | Inr key \<Rightarrow>
          if actionType = Sync \<and> willObjectBeDeletedLocked f key then (None, f)
          else
            (let newDeltas = dedupDeltas (deltasOf f key @ [Delta actionType obj])
             in if length newDeltas > 0 then
                  (None, f\<lparr>df_queue := (if df_items f key = None then df_queue f @ [key] else df_queue f),
                           df_items := (df_items f)(key \<mapsto> newDeltas)\<rparr>)
                else (None, f\<lparr>df_items := (df_items f)(key := None)\<rparr>)))"

definition df_Add :: "'a obj \<Rightarrow> 'a DeltaFIFO \<Rightarrow> 'a fifo_error option \<times> 'a DeltaFIFO" where
  "df_Add obj f = queueActionLocked Added obj (f\<lparr>populated := True\<rparr>)"

definition df_Update :: "'a obj \<Rightarrow> 'a DeltaFIFO \<Rightarrow> 'a fifo_error option \<times> 'a DeltaFIFO" where
  "df_Update obj f = queueActionLocked Updated obj (f\<lparr>populated := True\<rparr>)"

definition df_Delete ::
  "'a knownObjects option \<Rightarrow> 'a obj \<Rightarrow> 'a DeltaFIFO \<Rightarrow> 'a fifo_error option \<times> 'a DeltaFIFO" where
  "df_Delete known obj f =
     (case KeyOf f obj of
        Inl err \<Rightarrow> (Some (KeyErr obj err), f)
      | Inr key \<Rightarrow>
          (let f = f\<lparr>populated := True\<rparr>
           in case known of
                None \<Rightarrow>
                  if df_items f key = None then (None, f)
                  else queueActionLocked Deleted obj f
              | Some ko \<Rightarrow>
                  if known_GetByKey ko key = Inr None \<and> df_items f key = None then (None, f)
                  else queueActionLocked Deleted obj f))"

text \<open>The unexported addIfNotPresent, and the exported one, which panics on an empty Deltas object (left).\<close>

definition addIfNotPresentLocked :: "string \<Rightarrow> 'a Deltas \<Rightarrow> 'a DeltaFIFO \<Rightarrow> 'a DeltaFIFO" where
  "addIfNotPresentLocked key deltas f =
     (let f = f\<lparr>populated := True\<rparr>
      in if df_items f key \<noteq> None then f
         else f\<lparr>df_queue := df_queue f @ [key], df_items := (df_items f)(key \<mapsto> deltas)\<rparr>)"

datatype fifo_panic = NilDereference

definition AddIfNotPresent ::
  "'a obj \<Rightarrow> 'a DeltaFIFO \<Rightarrow> fifo_panic + 'a fifo_error option \<times> 'a DeltaFIFO" where
  "AddIfNotPresent obj f =
     (case obj of
        DeltasObj deltas \<Rightarrow>
          (case Newest deltas of
             None \<Rightarrow> Inl NilDereference
           | Some n \<Rightarrow>
               (case KeyOf f (delta_Object n) of
                  Inl err \<Rightarrow> Inr (Some (KeyErr obj err), f)
                | Inr key \<Rightarrow> Inr (None, addIfNotPresentLocked key deltas f)))
      | _ \<Rightarrow> Inr (Some (NotDeltas obj), f))"

section \<open>Reading the queue\<close>

fun df_List :: "string list \<Rightarrow> 'a DeltaFIFO \<Rightarrow> fifo_panic + 'a obj list" where
  "df_List [] f = Inr []"
| "df_List (k # keys) f =
     (case df_items f k of
        None \<Rightarrow> df_List keys f
      | Some item \<Rightarrow>
          (case Newest item of
             None \<Rightarrow> Inl NilDereference
           | Some n \<Rightarrow>
               (case df_List keys f of
                  Inl p \<Rightarrow> Inl p
                | Inr list \<Rightarrow> Inr (delta_Object n # list))))"

definition df_ListKeys :: "string list \<Rightarrow> 'a DeltaFIFO \<Rightarrow> string list" where
  "df_ListKeys keys f = filter (\<lambda>k. df_items f k \<noteq> None) keys"

definition df_GetByKey :: "'a DeltaFIFO \<Rightarrow> string \<Rightarrow> 'a fifo_error + 'a Deltas option" where
  "df_GetByKey f key = Inr (df_items f key)"

definition df_Get :: "'a DeltaFIFO \<Rightarrow> 'a obj \<Rightarrow> 'a fifo_error + 'a Deltas option" where
  "df_Get f obj =
     (case KeyOf f obj of Inl err \<Rightarrow> Inl (KeyErr obj err) | Inr key \<Rightarrow> df_GetByKey f key)"

section \<open>Pop, Replace and Resync\<close>

text \<open>
  The process function of Pop runs under the lock and changes the state of its owner; its result
  asks for a requeue or not.  Pop returns, waits on the condition variable, or ends on a closed queue.
\<close>

datatype 'e process_result = Processed "'e option" | ErrRequeue "'e option"

datatype ('a, 'e) pop_result = Popped "'a Deltas" "'e option" | PopWaits | FIFOClosedError

type_synonym ('a, 's, 'e) PopProcessFunc = "'a Deltas \<Rightarrow> 's \<Rightarrow> 'e process_result \<times> 's"

fun popLoop ::
  "('a, 's, 'e) PopProcessFunc \<Rightarrow> string list \<Rightarrow> 's \<Rightarrow> 'a DeltaFIFO
     \<Rightarrow> ('a, 'e) pop_result \<times> 's \<times> 'a DeltaFIFO" where
  "popLoop process [] s f =
     (if closed f then (FIFOClosedError, s, f\<lparr>df_queue := []\<rparr>) else (PopWaits, s, f\<lparr>df_queue := []\<rparr>))"
| "popLoop process (key # queue) s f =
     (let f1 = f\<lparr>df_queue := queue,
                 initialPopulationCount := (if initialPopulationCount f > 0
                   then initialPopulationCount f - 1 else initialPopulationCount f)\<rparr>
      in case df_items f1 key of
           None \<Rightarrow> popLoop process queue s f1
         | Some item \<Rightarrow>
             (let f2 = f1\<lparr>df_items := (df_items f1)(key := None)\<rparr>
              in case process item s of
                   (Processed err, s') \<Rightarrow> (Popped item err, s', f2)
                 | (ErrRequeue err, s') \<Rightarrow> (Popped item err, s', addIfNotPresentLocked key item f2)))"

definition df_Pop ::
  "('a, 's, 'e) PopProcessFunc \<Rightarrow> 's \<Rightarrow> 'a DeltaFIFO \<Rightarrow> ('a, 'e) pop_result \<times> 's \<times> 'a DeltaFIFO" where
  "df_Pop process s f = popLoop process (df_queue f) s f"

fun replaceSync ::
  "'a obj list \<Rightarrow> string set \<Rightarrow> 'a DeltaFIFO \<Rightarrow> ('a fifo_error + string set) \<times> 'a DeltaFIFO" where
  "replaceSync [] keys f = (Inr keys, f)"
| "replaceSync (item # list) keys f =
     (case KeyOf f item of
        Inl err \<Rightarrow> (Inl (KeyErr item err), f)
      | Inr key \<Rightarrow>
          (case queueActionLocked Sync item f of
             (Some err, f') \<Rightarrow> (Inl (CouldntEnqueue err), f')
           | (None, f') \<Rightarrow> replaceSync list (insert key keys) f'))"

text \<open>Deletion detection against the queue's own items; \<open>ks\<close> is the order of the loop over them.\<close>

fun replaceOwn ::
  "string list \<Rightarrow> string set \<Rightarrow> 'a DeltaFIFO \<Rightarrow> 'a fifo_error option \<times> 'a DeltaFIFO" where
  "replaceOwn [] keys f = (None, f)"
| "replaceOwn (k # ks) keys f =
     (case df_items f k of
        None \<Rightarrow> replaceOwn ks keys f
      | Some oldItem \<Rightarrow>
          if k \<in> keys then replaceOwn ks keys f
          else
            (case queueActionLocked Deleted
                    (DeletedFinalStateUnknown k (map_option delta_Object (Newest oldItem))) f of
               (Some err, f') \<Rightarrow> (Some err, f')
             | (None, f') \<Rightarrow> replaceOwn ks keys f'))"

fun replaceKnown ::
  "'a knownObjects \<Rightarrow> string list \<Rightarrow> string set \<Rightarrow> nat \<Rightarrow> 'a DeltaFIFO
     \<Rightarrow> ('a fifo_error + nat) \<times> 'a DeltaFIFO" where
  "replaceKnown ko [] keys queuedDeletions f = (Inr queuedDeletions, f)"
| "replaceKnown ko (k # ks) keys queuedDeletions f =
     (if k \<in> keys then replaceKnown ko ks keys queuedDeletions f
      else
        (let deletedObj = (case known_GetByKey ko k of Inl err \<Rightarrow> None | Inr r \<Rightarrow> r)
         in case queueActionLocked Deleted (DeletedFinalStateUnknown k deletedObj) f of
              (Some err, f') \<Rightarrow> (Inl err, f')
            | (None, f') \<Rightarrow> replaceKnown ko ks keys (queuedDeletions + 1) f'))"

definition populate :: "nat \<Rightarrow> 'a DeltaFIFO \<Rightarrow> 'a DeltaFIFO" where
  "populate count f =
     (if \<not> populated f then f\<lparr>populated := True, initialPopulationCount := count\<rparr> else f)"

definition df_Replace ::
  "string list \<Rightarrow> 'a knownObjects option \<Rightarrow> 'a obj list \<Rightarrow> 'a DeltaFIFO
     \<Rightarrow> 'a fifo_error option \<times> 'a DeltaFIFO" where
  "df_Replace ord known list f =
     (case replaceSync list {} f of
        (Inl err, f') \<Rightarrow> (Some err, f')
      | (Inr keys, f') \<Rightarrow>
          (case known of
             None \<Rightarrow>
               (case replaceOwn ord keys f' of
                  (Some err, f'') \<Rightarrow> (Some err, f'')
                | (None, f'') \<Rightarrow> (None, populate (length list) f''))
           | Some ko \<Rightarrow>
               (case replaceKnown ko (known_ListKeys ko) keys 0 f' of
                  (Inl err, f'') \<Rightarrow> (Some err, f'')
                | (Inr queuedDeletions, f'') \<Rightarrow> (None, populate (length list + queuedDeletions) f''))))"

definition syncKeyLocked ::
  "'a knownObjects \<Rightarrow> string \<Rightarrow> 'a DeltaFIFO \<Rightarrow> 'a fifo_error option \<times> 'a DeltaFIFO" where
  "syncKeyLocked ko key f =
     (case known_GetByKey ko key of
        Inl err \<Rightarrow> (None, f)
      | Inr None \<Rightarrow> (None, f)
      | Inr (Some obj) \<Rightarrow>
          (case KeyOf f obj of
             Inl err \<Rightarrow> (Some (KeyErr obj err), f)
           | Inr k \<Rightarrow>
               if length (deltasOf f k) > 0 then (None, f)
               else
                 (case queueActionLocked Sync obj f of
                    (Some err, f') \<Rightarrow> (Some (CouldntEnqueue err), f')
                  | (None, f') \<Rightarrow> (None, f'))))"

fun resyncLoop ::
  "'a knownObjects \<Rightarrow> string list \<Rightarrow> 'a DeltaFIFO \<Rightarrow> 'a fifo_error option \<times> 'a DeltaFIFO" where
  "resyncLoop ko [] f = (None, f)"
| "resyncLoop ko (k # keys) f =
     (case syncKeyLocked ko k f of
        (Some err, f') \<Rightarrow> (Some err, f')
      | (None, f') \<Rightarrow> resyncLoop ko keys f')"

definition df_Resync ::
  "'a knownObjects option \<Rightarrow> 'a DeltaFIFO \<Rightarrow> 'a fifo_error option \<times> 'a DeltaFIFO" where
  "df_Resync known f =
     (case known of
        None \<Rightarrow> (None, f)
      | Some ko \<Rightarrow> resyncLoop ko (known_ListKeys ko) f)"

section \<open>The invariant\<close>

text \<open>
  What the code depends on: the queue and the items have the same keys, no key is queued twice, and
  every key has at least one delta; moreover every delta is filed under the key of its object.
\<close>

definition fifo_inv :: "'a DeltaFIFO \<Rightarrow> bool" where
  "fifo_inv f \<longleftrightarrow>
     distinct (df_queue f) \<and> set (df_queue f) = dom (df_items f) \<and>
     (\<forall>k ds. df_items f k = Some ds \<longrightarrow> ds \<noteq> [] \<and> (\<forall>d \<in> set ds. KeyOf f (delta_Object d) = Inr k))"

text \<open>The state of an object after its deltas were applied, and of all objects after the queue was.\<close>

definition effect :: "'a delta \<Rightarrow> 'a obj option \<Rightarrow> 'a obj option" where
  "effect d s = (if delta_Type d = Deleted then None else Some (delta_Object d))"

definition pending :: "'a DeltaFIFO \<Rightarrow> (string \<rightharpoonup> 'a obj) \<Rightarrow> string \<rightharpoonup> 'a obj" where
  "pending f base k = fold effect (deltasOf f k) (base k)"

lemma fifo_invI:
  assumes "distinct (df_queue f)" and "set (df_queue f) = dom (df_items f)"
    and "\<And>k ds. df_items f k = Some ds \<Longrightarrow> ds \<noteq> []"
    and "\<And>k ds d. df_items f k = Some ds \<Longrightarrow> d \<in> set ds \<Longrightarrow> KeyOf f (delta_Object d) = Inr k"
  shows "fifo_inv f"
  using assms by (auto simp: fifo_inv_def)

lemma fifo_invD:
  assumes "fifo_inv f"
  shows "distinct (df_queue f)" and "set (df_queue f) = dom (df_items f)"
    and "df_items f k = Some ds \<Longrightarrow> ds \<noteq> []"
    and "df_items f k = Some ds \<Longrightarrow> d \<in> set ds \<Longrightarrow> KeyOf f (delta_Object d) = Inr k"
  using assms by (auto simp: fifo_inv_def)

lemma KeyOf_cong: "df_keyFunc f = df_keyFunc g \<Longrightarrow> KeyOf f = KeyOf g"
  by (rule ext) (simp only: KeyOf_def)

lemma KeyOf_update [simp]:
  "KeyOf (f\<lparr>df_queue := q\<rparr>) = KeyOf f" "KeyOf (f\<lparr>df_items := m\<rparr>) = KeyOf f"
  "KeyOf (f\<lparr>populated := b\<rparr>) = KeyOf f" "KeyOf (f\<lparr>initialPopulationCount := n\<rparr>) = KeyOf f"
  "KeyOf (f\<lparr>closed := b\<rparr>) = KeyOf f"
  by (rule KeyOf_cong, simp)+

lemma Newest_last: "Newest d = (if d = [] then None else Some (last d))"
  by (simp add: Newest_def last_conv_nth)

lemma willObjectBeDeleted_iff:
  "willObjectBeDeletedLocked f key \<longleftrightarrow> deltasOf f key \<noteq> [] \<and> delta_Type (last (deltasOf f key)) = Deleted"
  by (auto simp: willObjectBeDeletedLocked_def Let_def last_conv_nth)

text \<open>Deduplication looks at the two newest deltas only and keeps one of two deletions.\<close>

lemma dedupDeltas_snoc2:
  "dedupDeltas (ds @ [b, a]) =
     (if delta_Type b = Deleted \<and> delta_Type a = Deleted
      then ds @ [if \<exists>k old. delta_Object b = DeletedFinalStateUnknown k old then a else b]
      else ds @ [b, a])"
  by (auto simp: dedupDeltas_def isDup_def isDeletionDup_def nth_append split: obj.split)

lemma dedupDeltas_short [simp]: "dedupDeltas [] = []" "dedupDeltas [d] = [d]"
  by (simp_all add: dedupDeltas_def)

lemma dedupDeltas_cases:
  obtains "dedupDeltas (ds @ [a]) = ds @ [a]"
  | ds' b where "ds = ds' @ [b]" and "delta_Type a = Deleted" and "delta_Type b = Deleted"
    and "dedupDeltas (ds @ [a]) = ds' @ [a] \<or> dedupDeltas (ds @ [a]) = ds' @ [b]"
proof (cases ds rule: rev_cases)
  case Nil
  then show ?thesis using that(1) by simp
next
  case (snoc ds' b)
  then show ?thesis using that dedupDeltas_snoc2 [of ds' b a] by (auto split: if_splits)
qed

lemma dedupDeltas_neq_Nil [simp]: "dedupDeltas (ds @ [a]) \<noteq> []"
  by (rule dedupDeltas_cases [of ds a]) auto

lemma set_dedupDeltas: "set (dedupDeltas (ds @ [a])) \<subseteq> insert a (set ds)"
  by (rule dedupDeltas_cases [of ds a]) auto

lemma fold_effect_dedup: "fold effect (dedupDeltas (ds @ [a])) s = effect a (fold effect ds s)"
  by (rule dedupDeltas_cases [of ds a]) (auto simp: effect_def)

lemma fold_effect_last:
  "ds \<noteq> [] \<Longrightarrow> fold effect ds s = (if delta_Type (last ds) = Deleted then None else Some (delta_Object (last ds)))"
  by (cases ds rule: rev_cases) (auto simp: effect_def)

section \<open>Queueing a change\<close>

text \<open>The queue after a change of an object with this key.\<close>

definition queued :: "DeltaType \<Rightarrow> 'a obj \<Rightarrow> string \<Rightarrow> 'a DeltaFIFO \<Rightarrow> 'a DeltaFIFO" where
  "queued t obj key f =
     (if t = Sync \<and> willObjectBeDeletedLocked f key then f
      else f\<lparr>df_queue := (if df_items f key = None then df_queue f @ [key] else df_queue f),
             df_items := (df_items f)(key \<mapsto> dedupDeltas (deltasOf f key @ [Delta t obj]))\<rparr>)"

lemma queueActionLocked_eq: "KeyOf f obj = Inr key \<Longrightarrow> queueActionLocked t obj f = (None, queued t obj key f)"
  by (simp add: queueActionLocked_def queued_def Let_def)

lemma queued_fields [simp]:
  "populated (queued t obj key f) = populated f"
  "initialPopulationCount (queued t obj key f) = initialPopulationCount f"
  "df_keyFunc (queued t obj key f) = df_keyFunc f"
  "closed (queued t obj key f) = closed f"
  by (simp_all add: queued_def)

lemma queued_KeyOf [simp]: "KeyOf (queued t obj key f) = KeyOf f"
  by (rule KeyOf_cong) simp

lemma dom_queued: "dom (df_items (queued t obj key f)) = insert key (dom (df_items f))"
  by (auto simp: queued_def willObjectBeDeleted_iff deltasOf_def split: option.splits)

lemma queued_inv:
  assumes "fifo_inv f" and "KeyOf f obj = Inr key"
  shows "fifo_inv (queued t obj key f)"
proof (cases "t = Sync \<and> willObjectBeDeletedLocked f key")
  case True
  with assms(1) show ?thesis by (simp add: queued_def)
next
  case False
  have old: "d \<in> set (deltasOf f key) \<Longrightarrow> KeyOf f (delta_Object d) = Inr key" for d
    using fifo_invD(4) [OF assms(1)] by (cases "df_items f key") (simp_all add: deltasOf_def)
  have new: "d \<in> set (dedupDeltas (deltasOf f key @ [Delta t obj])) \<Longrightarrow> KeyOf f (delta_Object d) = Inr key" for d
    using old assms(2) set_dedupDeltas [of "deltasOf f key" "Delta t obj"] by auto
  show ?thesis
  proof (rule fifo_invI)
    show "distinct (df_queue (queued t obj key f))"
      using fifo_invD(1,2) [OF assms(1)] by (auto simp: queued_def domIff)
    show "set (df_queue (queued t obj key f)) = dom (df_items (queued t obj key f))"
      using fifo_invD(2) [OF assms(1)] False unfolding dom_queued by (auto simp: queued_def)
    fix k ds
    assume k: "df_items (queued t obj key f) k = Some ds"
    show "ds \<noteq> []"
      using k False fifo_invD(3) [OF assms(1)] by (auto simp: queued_def split: if_splits)
    show "KeyOf (queued t obj key f) (delta_Object d) = Inr k" if "d \<in> set ds" for d
    proof -
      have "df_items (queued t obj key f) k =
          (if k = key then Some (dedupDeltas (deltasOf f key @ [Delta t obj])) else df_items f k)"
        using False by (auto simp: queued_def)
      with k that fifo_invD(4) [OF assms(1), of k ds] new show ?thesis
        unfolding queued_KeyOf by (auto split: if_splits)
    qed
  qed
qed

lemma pending_queued:
  "pending (queued t obj key f) base =
     (if t = Sync \<and> willObjectBeDeletedLocked f key then pending f base
      else (pending f base)(key := if t = Deleted then None else Some obj))"
  by (auto simp: pending_def queued_def deltasOf_def fun_eq_iff fold_effect_dedup effect_def
      split: option.split)

text \<open>The fields no queueing operation changes.\<close>

definition same_config :: "'a DeltaFIFO \<Rightarrow> 'a DeltaFIFO \<Rightarrow> bool" where
  "same_config f g \<longleftrightarrow> populated g = populated f \<and> initialPopulationCount g = initialPopulationCount f
     \<and> df_keyFunc g = df_keyFunc f \<and> closed g = closed f"

lemma same_config_simps [simp]: "same_config f f" "same_config f (queued t obj key f)"
  by (simp_all add: same_config_def)

lemma same_config_trans [trans]: "same_config f g \<Longrightarrow> same_config g h \<Longrightarrow> same_config f h"
  by (simp add: same_config_def)

lemma same_config_KeyOf: "same_config f g \<Longrightarrow> KeyOf g = KeyOf f"
  by (rule KeyOf_cong) (simp add: same_config_def)

lemma fifo_inv_update [simp]:
  "fifo_inv (f\<lparr>populated := b\<rparr>) = fifo_inv f"
  "fifo_inv (f\<lparr>initialPopulationCount := n\<rparr>) = fifo_inv f"
  "fifo_inv (f\<lparr>closed := b\<rparr>) = fifo_inv f"
  by (simp_all add: fifo_inv_def)

lemma pending_update [simp]:
  "pending (f\<lparr>populated := b\<rparr>) = pending f"
  "pending (f\<lparr>initialPopulationCount := n\<rparr>) = pending f"
  "pending (f\<lparr>closed := b\<rparr>) = pending f"
  by (simp_all add: pending_def deltasOf_def fun_eq_iff)

lemma deltasOf_populated [simp]:
  "deltasOf (f\<lparr>populated := b\<rparr>) = deltasOf f"
  "deltasOf (f\<lparr>initialPopulationCount := n\<rparr>) = deltasOf f"
  by (simp_all add: deltasOf_def fun_eq_iff)

text \<open>An object whose last delta is a deletion is gone after the queue is applied.\<close>

lemma pending_deleted: "willObjectBeDeletedLocked f k \<Longrightarrow> pending f base k = None"
  by (simp add: willObjectBeDeleted_iff pending_def fold_effect_last)

lemma pending_empty: "df_items f k = None \<Longrightarrow> pending f base k = base k"
  by (simp add: pending_def deltasOf_def)

lemma will_queued_Sync:
  "willObjectBeDeletedLocked (queued Sync obj key f) k = willObjectBeDeletedLocked f k"
proof (cases "willObjectBeDeletedLocked f key")
  case True
  then show ?thesis by (simp add: queued_def)
next
  case False
  have "dedupDeltas (deltasOf f key @ [Delta Sync obj]) = deltasOf f key @ [Delta Sync obj]"
    by (rule dedupDeltas_cases [of "deltasOf f key" "Delta Sync obj"]) simp_all
  with False show ?thesis
    by (auto simp: queued_def willObjectBeDeleted_iff deltasOf_def)
qed

section \<open>Replacing the contents\<close>

text \<open>The last object of a list with a given key.\<close>

fun listed :: "('a obj \<Rightarrow> 'a fifo_error + string) \<Rightarrow> 'a obj list \<Rightarrow> string \<rightharpoonup> 'a obj" where
  "listed kf [] k = None"
| "listed kf (item # list) k =
     (case listed kf list k of
        Some obj \<Rightarrow> Some obj
      | None \<Rightarrow> if kf item = Inr k then Some item else None)"

definition has_keys :: "'a DeltaFIFO \<Rightarrow> 'a obj list \<Rightarrow> bool" where
  "has_keys f list \<longleftrightarrow> (\<forall>item \<in> set list. \<exists>k. KeyOf f item = Inr k)"

lemma listed_None: "listed kf list k = None \<longleftrightarrow> (\<forall>item \<in> set list. kf item \<noteq> Inr k)"
  by (induction list) (auto split: option.splits)

lemma listed_dom: "dom (listed kf list) = {k. \<exists>item \<in> set list. kf item = Inr k}"
  unfolding dom_def listed_None by simp

lemma listed_key: "listed kf list k = Some obj \<Longrightarrow> kf obj = Inr k \<and> obj \<in> set list"
  by (induction list) (auto split: option.splits if_splits)

lemma replaceSync_spec:
  assumes "fifo_inv f" and "has_keys f list"
  shows "\<exists>f'. replaceSync list keys f = (Inr (keys \<union> dom (listed (KeyOf f) list)), f')
    \<and> fifo_inv f' \<and> same_config f f' \<and> dom (df_items f') = dom (df_items f) \<union> dom (listed (KeyOf f) list)
    \<and> (\<forall>k. willObjectBeDeletedLocked f' k = willObjectBeDeletedLocked f k)
    \<and> (\<forall>base k. pending f' base k =
         (case listed (KeyOf f) list k of
            Some obj \<Rightarrow> if willObjectBeDeletedLocked f k then None else Some obj
          | None \<Rightarrow> pending f base k))"
  using assms
proof (induction list arbitrary: f keys)
  case Nil
  have "dom (listed (KeyOf f) []) = {}" by (auto simp: domIff)
  with Nil show ?case by simp
next
  case (Cons item list)
  from Cons.prems(2) obtain key where key: "KeyOf f item = Inr key"
    by (auto simp: has_keys_def)
  let ?f = "queued Sync item key f"
  have "has_keys ?f list" using Cons.prems(2) by (simp add: has_keys_def)
  from Cons.IH [OF queued_inv [OF Cons.prems(1) key] this, of "insert key keys"] obtain f' where
    f': "replaceSync list (insert key keys) ?f = (Inr (insert key keys \<union> dom (listed (KeyOf f) list)), f')"
    "fifo_inv f'" "same_config ?f f'" "dom (df_items f') = dom (df_items ?f) \<union> dom (listed (KeyOf f) list)"
    "\<And>k. willObjectBeDeletedLocked f' k = willObjectBeDeletedLocked ?f k"
    "\<And>base k. pending f' base k =
         (case listed (KeyOf f) list k of
            Some obj \<Rightarrow> if willObjectBeDeletedLocked ?f k then None else Some obj
          | None \<Rightarrow> pending ?f base k)"
    by (auto simp: queued_KeyOf)
  have dom: "dom (listed (KeyOf f) (item # list)) = insert key (dom (listed (KeyOf f) list))"
    using key by (auto simp: listed_dom)
  have "pending f' base k =
         (case listed (KeyOf f) (item # list) k of
            Some obj \<Rightarrow> if willObjectBeDeletedLocked f k then None else Some obj
          | None \<Rightarrow> pending f base k)" for base k
    using key f'(6) pending_deleted [of f key base]
    by (auto simp: will_queued_Sync pending_queued split: option.split)
  then show ?case
    using f' key dom same_config_trans [OF same_config_simps(2) f'(3)]
    by (simp add: queueActionLocked_eq will_queued_Sync dom_queued del: listed.simps)
qed

lemma KeyOf_tombstone [simp]: "KeyOf f (DeletedFinalStateUnknown k old) = Inr k"
  by (simp add: KeyOf_def keyOfPlain_def)

lemma replaceKnown_spec:
  assumes "fifo_inv f"
  shows "\<exists>f'. replaceKnown ko ks keys n f = (Inr (n + length (filter (\<lambda>k. k \<notin> keys) ks)), f')
    \<and> fifo_inv f' \<and> same_config f f' \<and> dom (df_items f') = dom (df_items f) \<union> (set ks - keys)
    \<and> (\<forall>base k. pending f' base k = (if k \<in> set ks - keys then None else pending f base k))"
  using assms
proof (induction ks arbitrary: f n)
  case (Cons k ks)
  show ?case
  proof (cases "k \<in> keys")
    case True
    then show ?thesis using Cons.IH [OF Cons.prems, of n] by auto
  next
    case False
    define old where "old = (case known_GetByKey ko k of Inl err \<Rightarrow> None | Inr r \<Rightarrow> r)"
    let ?f = "queued Deleted (DeletedFinalStateUnknown k old) k f"
    have inv: "fifo_inv ?f" by (rule queued_inv [OF Cons.prems KeyOf_tombstone])
    from Cons.IH [OF inv, of "n + 1"] obtain f' where
      f': "replaceKnown ko ks keys (n + 1) ?f = (Inr (n + 1 + length (filter (\<lambda>k. k \<notin> keys) ks)), f')"
      "fifo_inv f'" "same_config ?f f'" "dom (df_items f') = dom (df_items ?f) \<union> (set ks - keys)"
      "\<And>base k. pending f' base k = (if k \<in> set ks - keys then None else pending ?f base k)"
      by blast
    have "replaceKnown ko (k # ks) keys n f = (Inr (n + length (filter (\<lambda>k. k \<notin> keys) (k # ks))), f')"
      using False f'(1) by (simp add: queueActionLocked_eq flip: old_def)
    moreover have "dom (df_items f') = dom (df_items f) \<union> (set (k # ks) - keys)"
      using f'(4) False by (auto simp: dom_queued)
    moreover have "pending f' base k' = (if k' \<in> set (k # ks) - keys then None else pending f base k')" for base k'
      using f'(5) [of base k'] False by (auto simp: pending_queued)
    ultimately show ?thesis
      using f'(2) same_config_trans [OF same_config_simps(2) f'(3)] by blast
  qed
qed simp

lemma replaceOwn_spec:
  assumes "fifo_inv f" and "distinct ks" and "set ks \<subseteq> dom (df_items f)"
  shows "\<exists>f'. replaceOwn ks keys f = (None, f') \<and> fifo_inv f' \<and> same_config f f'
    \<and> dom (df_items f') = dom (df_items f)
    \<and> (\<forall>base k. pending f' base k = (if k \<in> set ks - keys then None else pending f base k))"
  using assms
proof (induction ks arbitrary: f)
  case (Cons k ks)
  from Cons.prems(3) obtain item where item: "df_items f k = Some item" by auto
  show ?case
  proof (cases "k \<in> keys")
    case True
    then show ?thesis using Cons.IH [OF Cons.prems(1)] Cons.prems(2,3) item by auto
  next
    case False
    let ?t = "DeletedFinalStateUnknown k (map_option delta_Object (Newest item))"
    let ?f = "queued Deleted ?t k f"
    have inv: "fifo_inv ?f" by (rule queued_inv [OF Cons.prems(1) KeyOf_tombstone])
    have dom: "dom (df_items ?f) = dom (df_items f)" using item by (auto simp: dom_queued)
    from Cons.IH [OF inv] Cons.prems(2,3) obtain f' where
      f': "replaceOwn ks keys ?f = (None, f')" "fifo_inv f'" "same_config ?f f'"
      "dom (df_items f') = dom (df_items f)"
      "\<And>base k. pending f' base k = (if k \<in> set ks - keys then None else pending ?f base k)"
      using dom by auto
    have "replaceOwn (k # ks) keys f = (None, f')"
      using False item f'(1) by (simp add: queueActionLocked_eq)
    moreover have "pending f' base k' = (if k' \<in> set (k # ks) - keys then None else pending f base k')" for base k'
      using f'(5) [of base k'] False by (auto simp: pending_queued)
    ultimately show ?thesis
      using f'(2,4) same_config_trans [OF same_config_simps(2) f'(3)] by blast
  qed
qed simp

section \<open>Every operation keeps the invariant\<close>

lemma queueActionLocked_inv: "fifo_inv f \<Longrightarrow> fifo_inv (snd (queueActionLocked t obj f))"
  by (cases "KeyOf f obj") (simp_all add: queueActionLocked_eq queued_inv, simp add: queueActionLocked_def)

lemma df_Delete_inv: "fifo_inv f \<Longrightarrow> fifo_inv (snd (df_Delete known obj f))"
  by (auto simp: df_Delete_def Let_def queueActionLocked_inv split: sum.split option.split)

lemma addIfNotPresentLocked_inv:
  assumes "fifo_inv f" and "ds \<noteq> []" and "\<And>d. d \<in> set ds \<Longrightarrow> KeyOf f (delta_Object d) = Inr key"
  shows "fifo_inv (addIfNotPresentLocked key ds f)"
proof (cases "df_items f key")
  case None
  then have new: "addIfNotPresentLocked key ds f =
      f\<lparr>populated := True, df_queue := df_queue f @ [key], df_items := (df_items f)(key \<mapsto> ds)\<rparr>"
    by (simp add: addIfNotPresentLocked_def Let_def)
  show ?thesis
    unfolding new by (rule fifo_invI) (use fifo_invD [OF assms(1)] assms(2,3) None in \<open>auto split: if_splits\<close>)
next
  case (Some ds')
  then show ?thesis using assms(1) by (simp add: addIfNotPresentLocked_def Let_def)
qed

lemma AddIfNotPresent_inv:
  assumes "fifo_inv f" and "AddIfNotPresent (DeltasObj ds) f = Inr (err, f')"
    and "\<And>d d'. d \<in> set ds \<Longrightarrow> d' \<in> set ds \<Longrightarrow> KeyOf f (delta_Object d) = KeyOf f (delta_Object d')"
  shows "fifo_inv f'"
proof -
  from assms(2) have "ds \<noteq> []" by (auto simp: AddIfNotPresent_def Newest_last)
  then have last: "last ds \<in> set ds" by simp
  show ?thesis
  proof (cases "KeyOf f (delta_Object (last ds))")
    case (Inl e)
    with assms(1,2) \<open>ds \<noteq> []\<close> show ?thesis by (auto simp: AddIfNotPresent_def Newest_last)
  next
    case (Inr key)
    then have "KeyOf f (delta_Object d) = Inr key" if "d \<in> set ds" for d
      using assms(3) [OF that last] by simp
    from addIfNotPresentLocked_inv [OF assms(1) \<open>ds \<noteq> []\<close> this] assms(2) \<open>ds \<noteq> []\<close> Inr show ?thesis
      by (auto simp: AddIfNotPresent_def Newest_last)
  qed
qed

lemma replace_loops_inv:
  "fifo_inv f \<Longrightarrow> fifo_inv (snd (replaceSync list keys f))"
  "fifo_inv f \<Longrightarrow> fifo_inv (snd (replaceOwn ks keys f))"
  "fifo_inv f \<Longrightarrow> fifo_inv (snd (replaceKnown ko ks keys n f))"
proof -
  show "fifo_inv f \<Longrightarrow> fifo_inv (snd (replaceSync list keys f))"
    by (induction list arbitrary: keys f)
      (auto simp: queueActionLocked_eq queued_inv split: sum.split)
  show "fifo_inv f \<Longrightarrow> fifo_inv (snd (replaceOwn ks keys f))"
    by (induction ks arbitrary: f)
      (auto simp: queueActionLocked_eq queued_inv split: option.split)
  show "fifo_inv f \<Longrightarrow> fifo_inv (snd (replaceKnown ko ks keys n f))"
    by (induction ks arbitrary: n f)
      (auto simp: queueActionLocked_eq queued_inv Let_def)
qed

lemma populate_simps [simp]: "fifo_inv (populate n f) = fifo_inv f" "pending (populate n f) = pending f"
  by (simp_all add: populate_def)

lemma df_Replace_inv: "fifo_inv f \<Longrightarrow> fifo_inv (snd (df_Replace ord known list f))"
proof -
  assume f: "fifo_inv f"
  obtain r f' where sync: "replaceSync list {} f = (r, f')" by fastforce
  have f': "fifo_inv f'" using replace_loops_inv(1) [OF f, of list "{}"] sync by simp
  show "fifo_inv (snd (df_Replace ord known list f))"
    using f' replace_loops_inv(2,3) [OF f'] by (simp add: df_Replace_def sync case_prod_beta split: sum.split option.split)
qed

lemma syncKeyLocked_inv: "fifo_inv f \<Longrightarrow> fifo_inv (snd (syncKeyLocked ko key f))"
  by (auto simp: syncKeyLocked_def queueActionLocked_eq queued_inv split: sum.split option.split)

lemma df_Resync_inv: "fifo_inv f \<Longrightarrow> fifo_inv (snd (df_Resync known f))"
proof -
  have "fifo_inv f \<Longrightarrow> fifo_inv (snd (resyncLoop ko ks f))" for ko ks
  proof (induction ks arbitrary: f)
    case (Cons k ks)
    obtain r f' where "syncKeyLocked ko k f = (r, f')" by fastforce
    with Cons.IH [of f'] syncKeyLocked_inv [OF Cons.prems, of ko k] show ?case
      by (simp split: option.split)
  qed simp
  then show "fifo_inv f \<Longrightarrow> fifo_inv (snd (df_Resync known f))"
    by (simp add: df_Resync_def split: option.split)
qed

text \<open>The queue after its first key was taken.\<close>

definition popped :: "string \<Rightarrow> 'a DeltaFIFO \<Rightarrow> 'a DeltaFIFO" where
  "popped key f =
     f\<lparr>df_queue := tl (df_queue f), initialPopulationCount := initialPopulationCount f - 1,
       df_items := (df_items f)(key := None)\<rparr>"

lemma queue_head:
  assumes "fifo_inv f" and "df_queue f = key # q"
  obtains item where "df_items f key = Some item"
proof -
  have "key \<in> dom (df_items f)"
    using assms(2) by (simp flip: fifo_invD(2) [OF assms(1)])
  with that show thesis by blast
qed

lemma df_Pop_eq:
  assumes "df_queue f = key # q" and "df_items f key = Some item"
  shows "df_Pop process s f =
      (case process item s of
         (Processed err, s') \<Rightarrow> (Popped item err, s', popped key f)
       | (ErrRequeue err, s') \<Rightarrow> (Popped item err, s', addIfNotPresentLocked key item (popped key f)))"
proof -
  have "popped key f = f\<lparr>df_queue := q, initialPopulationCount :=
      (if initialPopulationCount f > 0 then initialPopulationCount f - 1 else initialPopulationCount f),
      df_items := (df_items f)(key := None)\<rparr>"
    using assms(1) by (simp add: popped_def)
  with assms show ?thesis
    by (simp add: df_Pop_def split: prod.split process_result.split)
qed

lemma df_Pop_empty:
  "df_queue f = [] \<Longrightarrow> df_Pop process s f = (if closed f then FIFOClosedError else PopWaits, s, f)"
  by (simp add: df_Pop_def)

lemma popped_inv:
  assumes "fifo_inv f" and "df_queue f = key # q"
  shows "fifo_inv (popped key f)"
proof (rule fifo_invI)
  show "distinct (df_queue (popped key f))"
    using fifo_invD(1) [OF assms(1)] assms(2) by (simp add: popped_def)
  have "key \<notin> set q" using fifo_invD(1) [OF assms(1)] assms(2) by simp
  moreover have "dom (df_items f) = insert key (set q)"
    using assms(2) by (simp flip: fifo_invD(2) [OF assms(1)])
  ultimately show "set (df_queue (popped key f)) = dom (df_items (popped key f))"
    using assms(2) by (simp add: popped_def)
  show "ds \<noteq> []" if "df_items (popped key f) k = Some ds" for k ds
    using that fifo_invD(3) [OF assms(1), of k] by (auto simp: popped_def split: if_splits)
  show "KeyOf (popped key f) (delta_Object d) = Inr k"
    if "df_items (popped key f) k = Some ds" "d \<in> set ds" for k ds d
    using that fifo_invD(4) [OF assms(1), of k ds d] by (simp add: popped_def split: if_splits)
qed

lemma df_Pop_inv:
  assumes "fifo_inv f"
  shows "fifo_inv (snd (snd (df_Pop process s f)))"
proof (cases "df_queue f")
  case Nil
  with assms show ?thesis by (simp add: df_Pop_empty)
next
  case (Cons key q)
  note inv = popped_inv [OF assms Cons]
  obtain item where item: "df_items f key = Some item"
    by (rule queue_head [OF assms Cons])
  have "KeyOf (popped key f) = KeyOf f" by (simp add: popped_def)
  then have "fifo_inv (addIfNotPresentLocked key item (popped key f))"
    using fifo_invD(3) [OF assms item] fifo_invD(4) [OF assms item]
    by (intro addIfNotPresentLocked_inv [OF inv]) simp_all
  with inv show ?thesis
    by (simp add: df_Pop_eq [OF Cons item] split: prod.split process_result.split)
qed

section \<open>Histories of a queue\<close>

text \<open>
  Any operation on any arguments, with any set of known objects and any process function.
  AddIfNotPresent is for the deltas of one object, as its comment demands.
\<close>

inductive fifo_step :: "'a DeltaFIFO \<Rightarrow> 'a DeltaFIFO \<Rightarrow> bool" where
  add: "fifo_step f (snd (df_Add obj f))"
| update: "fifo_step f (snd (df_Update obj f))"
| delete: "fifo_step f (snd (df_Delete known obj f))"
| addIfNotPresent: "AddIfNotPresent (DeltasObj ds) f = Inr (err, f') \<Longrightarrow>
    (\<And>d d'. d \<in> set ds \<Longrightarrow> d' \<in> set ds \<Longrightarrow> KeyOf f (delta_Object d) = KeyOf f (delta_Object d')) \<Longrightarrow>
    fifo_step f f'"
| pop: "df_Pop (process :: ('a, unit, unit) PopProcessFunc) s f = (r, s', f') \<Longrightarrow> fifo_step f f'"
| replace: "fifo_step f (snd (df_Replace ord known list f))"
| resync: "fifo_step f (snd (df_Resync known f))"
| close: "fifo_step f (df_Close f)"

lemma fifo_step_inv: "fifo_step f f' \<Longrightarrow> fifo_inv f \<Longrightarrow> fifo_inv f'"
proof (induction rule: fifo_step.induct)
  case (addIfNotPresent ds f err f')
  then show ?case using AddIfNotPresent_inv by blast
next
  case (pop process s f r s' f')
  then show ?case using df_Pop_inv [of f process s] by simp
qed (simp_all add: df_Add_def df_Update_def df_Close_def queueActionLocked_inv df_Delete_inv
    df_Replace_inv df_Resync_inv)

lemma new_fifo_inv: "fifo_inv (NewDeltaFIFO kf)"
  by (rule fifo_invI) (auto simp: NewDeltaFIFO_def)

text \<open>C11. In every state of a DeltaFIFO that its operations can reach, in any order and with any
  arguments, the queue holds no key twice and exactly the keys of the items, every key has at least
  one delta, and every delta is filed under the key of its object.\<close>

theorem fifo_reachable_inv:
  assumes "fifo_step\<^sup>*\<^sup>* (NewDeltaFIFO kf) f"
  shows "fifo_inv f"
  using assms by (induction rule: rtranclp_induct) (auto simp: new_fifo_inv fifo_step_inv)

definition plain_key :: "string obj \<Rightarrow> string + string" where
  "plain_key obj = (case obj of Plain s \<Rightarrow> Inr (take 1 s) | _ \<Rightarrow> Inl ''no key'')"

theorem fifo_reachable_inv_witness:
  "fifo_inv (snd (df_Add (Plain ''pod'') (NewDeltaFIFO plain_key)))"
  by (rule fifo_reachable_inv [where kf = plain_key]) (blast intro: fifo_step.add)

section \<open>Properties of Replace, Pop and HasSynced\<close>

lemma df_Replace_eq:
  assumes "fifo_inv f" and "has_keys f list"
  shows "\<exists>f'. df_Replace ord (Some ko) list f =
      (None, populate (length list + length (filter (\<lambda>k. k \<notin> dom (listed (KeyOf f) list)) (known_ListKeys ko))) f')
    \<and> fifo_inv f' \<and> same_config f f'
    \<and> dom (df_items f') = dom (df_items f) \<union> dom (listed (KeyOf f) list) \<union> set (known_ListKeys ko)
    \<and> (\<forall>base k. pending f' base k =
         (case listed (KeyOf f) list k of
            Some obj \<Rightarrow> if willObjectBeDeletedLocked f k then None else Some obj
          | None \<Rightarrow> if k \<in> set (known_ListKeys ko) then None else pending f base k))"
proof -
  let ?keys = "dom (listed (KeyOf f) list)"
  from replaceSync_spec [OF assms, of "{}"] obtain f1 where
    f1: "replaceSync list {} f = (Inr ?keys, f1)" "fifo_inv f1" "same_config f f1"
    "dom (df_items f1) = dom (df_items f) \<union> ?keys"
    "\<forall>base k. pending f1 base k =
         (case listed (KeyOf f) list k of
            Some obj \<Rightarrow> if willObjectBeDeletedLocked f k then None else Some obj
          | None \<Rightarrow> pending f base k)"
    by auto
  from replaceKnown_spec [OF f1(2), of ko "known_ListKeys ko" ?keys 0] obtain f2 where
    f2: "replaceKnown ko (known_ListKeys ko) ?keys 0 f1 =
      (Inr (length (filter (\<lambda>k. k \<notin> ?keys) (known_ListKeys ko))), f2)"
    "fifo_inv f2" "same_config f1 f2" "dom (df_items f2) = dom (df_items f1) \<union> (set (known_ListKeys ko) - ?keys)"
    "\<forall>base k. pending f2 base k =
        (if k \<in> set (known_ListKeys ko) - ?keys then None else pending f1 base k)"
    by auto
  have "df_Replace ord (Some ko) list f =
      (None, populate (length list + length (filter (\<lambda>k. k \<notin> ?keys) (known_ListKeys ko))) f2)"
    by (simp add: df_Replace_def f1(1) f2(1))
  moreover have "pending f2 base k =
         (case listed (KeyOf f) list k of
            Some obj \<Rightarrow> if willObjectBeDeletedLocked f k then None else Some obj
          | None \<Rightarrow> if k \<in> set (known_ListKeys ko) then None else pending f base k)" for base k
    using f1(5) f2(5) by (simp add: domIff split: option.split)
  moreover have "dom (df_items f2) = dom (df_items f) \<union> ?keys \<union> set (known_ListKeys ko)"
    using f1(4) f2(4) by auto
  ultimately show ?thesis
    using f2(2) same_config_trans [OF f1(3) f2(3)] by blast
qed

text \<open>C12. Replace with a set of known objects, when every listed object has a key: applying the
  queue afterwards leaves, under every listed key whose last queued change is not a deletion, the
  last listed object with this key; a key that is known and not listed is deleted; but a listed key
  whose last queued change is a deletion stays deleted, and a key that is neither listed nor known
  keeps its queued changes.\<close>

theorem df_Replace_correct:
  assumes "fifo_inv f" and "has_keys f list"
  shows "\<exists>f'. df_Replace ord (Some ko) list f = (None, f') \<and>
    (\<forall>base k. pending f' base k =
       (case listed (KeyOf f) list k of
          Some obj \<Rightarrow> if willObjectBeDeletedLocked f k then None else Some obj
        | None \<Rightarrow> if k \<in> set (known_ListKeys ko) then None else pending f base k))"
proof -
  from df_Replace_eq [OF assms, of ord ko] obtain n f' where
    f': "df_Replace ord (Some ko) list f = (None, populate n f')"
    "\<forall>base k. pending f' base k =
       (case listed (KeyOf f) list k of
          Some obj \<Rightarrow> if willObjectBeDeletedLocked f k then None else Some obj
        | None \<Rightarrow> if k \<in> set (known_ListKeys ko) then None else pending f base k)"
    by auto
  then show ?thesis by (intro exI [of _ "populate n f'"]) simp
qed

definition known_pod :: "string knownObjects" where
  "known_pod = \<lparr>known_ListKeys = [''p''], known_GetByKey = (\<lambda>k. Inr (if k = ''p'' then Some (Plain ''pod'') else None))\<rparr>"

theorem df_Replace_correct_witness:
  "\<exists>f'. df_Replace [] (Some known_pod) [Plain ''node''] (NewDeltaFIFO plain_key) = (None, f')
     \<and> pending f' Map.empty ''n'' = Some (Plain ''node'')"
proof -
  have "has_keys (NewDeltaFIFO plain_key) [Plain ''node'']"
    "listed (KeyOf (NewDeltaFIFO plain_key)) [Plain ''node''] ''n'' = Some (Plain ''node'')"
    "\<not> willObjectBeDeletedLocked (NewDeltaFIFO plain_key) ''n''"
    by (simp_all add: has_keys_def KeyOf_def keyOfPlain_def plain_key_def NewDeltaFIFO_def
        willObjectBeDeletedLocked_def deltasOf_def)
  with df_Replace_correct [OF new_fifo_inv this(1), of "[]" known_pod] show ?thesis by auto
qed

section \<open>The order of the queue\<close>

text \<open>
  An operation that does not take a key from the queue only appends to it, and once the queue is populated leaves the
  number of keys of the first list that wait alone.
\<close>

definition grows :: "'a DeltaFIFO \<Rightarrow> 'a DeltaFIFO \<Rightarrow> bool" where
  "grows f f' \<longleftrightarrow> prefix (df_queue f) (df_queue f') \<and>
     (populated f \<longrightarrow> populated f' \<and> initialPopulationCount f' = initialPopulationCount f)"

lemma grows_refl [simp]: "grows f f" "grows f (f\<lparr>populated := True\<rparr>)" "grows f (populate n f)"
  by (simp_all add: grows_def populate_def)

lemma grows_trans: "grows f g \<Longrightarrow> grows g h \<Longrightarrow> grows f h"
  by (auto simp: grows_def)

lemma grows_queueAction [simp]: "grows f (snd (queueActionLocked t obj f))"
  by (simp add: grows_def queueActionLocked_def Let_def split: sum.split)

lemma grows_Add: "grows f (snd (df_Add obj f))" "grows f (snd (df_Update obj f))"
  unfolding df_Add_def df_Update_def by (rule grows_trans [OF grows_refl(2) grows_queueAction])+

lemma grows_Delete: "grows f (snd (df_Delete known obj f))"
  using grows_trans [OF grows_refl(2) grows_queueAction, of f Deleted obj]
  by (simp add: df_Delete_def Let_def split: sum.split option.split)

lemma grows_replaceSync: "grows f (snd (replaceSync list keys f))"
proof (induction list arbitrary: keys f)
  case (Cons item list)
  show ?case using grows_trans [OF grows_queueAction [of f Sync item] Cons]
    by (simp split: sum.split prod.split option.split) (metis grows_queueAction snd_conv)
qed simp

lemma grows_replaceKnown: "grows f (snd (replaceKnown ko ks keys n f))"
proof (induction ks arbitrary: n f)
  case (Cons k ks)
  show ?case using grows_trans [OF grows_queueAction Cons] Cons
    by (simp add: Let_def split: prod.split option.split) (metis grows_queueAction snd_conv)
qed simp

lemma grows_Replace: "grows f (snd (df_Replace ord (Some ko) list f))"
proof -
  obtain r f1 where sync: "replaceSync list {} f = (r, f1)" by fastforce
  obtain r' f2 where known: "replaceKnown ko (known_ListKeys ko) (case r of Inr keys \<Rightarrow> keys | Inl e \<Rightarrow> {}) 0 f1 = (r', f2)" by fastforce
  have "grows f f1" "grows f1 f2"
    using grows_replaceSync [of f list "{}"] grows_replaceKnown [of f1] sync known by (metis snd_conv)+
  then show ?thesis using sync known grows_trans [of f f1 f2] grows_trans [OF grows_trans [of f f1 f2] grows_refl(3)]
    by (auto simp: df_Replace_def split: sum.split)
qed

lemma grows_resyncLoop: "grows f (snd (resyncLoop ko ks f))"
proof (induction ks arbitrary: f)
  case (Cons k ks)
  have "grows f (snd (syncKeyLocked ko k f))"
    using grows_queueAction [of f Sync]
    by (auto simp: syncKeyLocked_def split: sum.split option.split prod.split) (metis grows_queueAction snd_conv)+
  then show ?case using grows_trans [OF _ Cons] by (simp split: prod.split option.split) (metis snd_conv)
qed simp

lemma grows_Resync: "grows f (snd (df_Resync known f))"
  by (simp add: df_Resync_def grows_resyncLoop split: option.split)

end
