(* ===== verification/Informer.thy ===== *)
theory Informer
  imports Delta_FIFO
begin

text \<open>
  The shared informer of client-go: \<open>shared_informer.go\<close>, \<open>controller.go\<close> and the store operations
  of \<open>reflector.go\<close>, all in \<open>staging/src/k8s.io/client-go/tools/cache/\<close>, and the ring buffer of
  \<open>staging/src/k8s.io/client-go/util/buffer/ring_growing.go\<close>.

  A reflector turns the list and the watch events of the API server into operations of a DeltaFIFO; a
  controller pops deltas and hands them to HandleDeltas, which updates the indexer and notifies the
  listeners.  Times and durations are integers (nanoseconds).
\<close>

section \<open>The ring buffer\<close>

text \<open>An absent element of the backing array is nil.\<close>

record 'a RingGrowing =
  ring_data :: "'a option list"
  ring_n :: nat
  ring_beg :: nat
  readable :: nat

definition NewRingGrowing :: "nat \<Rightarrow> 'a RingGrowing" where
  "NewRingGrowing initialSize =
     \<lparr>ring_data = replicate initialSize None, ring_n = initialSize, ring_beg = 0, readable = 0\<rparr>"

definition ReadOne :: "'a RingGrowing \<Rightarrow> ('a option \<times> bool) \<times> 'a RingGrowing" where
  "ReadOne r =
     (if readable r = 0 then ((None, False), r)
      else ((ring_data r ! ring_beg r, True),
            r\<lparr>readable := readable r - 1,
              ring_data := (ring_data r)[ring_beg r := None],
              ring_beg := (if ring_beg r = ring_n r - 1 then 0 else ring_beg r + 1)\<rparr>))"

definition grow :: "'a RingGrowing \<Rightarrow> 'a RingGrowing" where
  "grow r =
     (let newN = ring_n r * 2;
          to = ring_beg r + readable r;
          copied = (if to \<le> ring_n r then take (to - ring_beg r) (drop (ring_beg r) (ring_data r))
                    else drop (ring_beg r) (ring_data r) @ take (to mod ring_n r) (ring_data r))
      in r\<lparr>ring_beg := 0, ring_data := copied @ replicate (newN - length copied) None, ring_n := newN\<rparr>)"

definition WriteOne :: "'a \<Rightarrow> 'a RingGrowing \<Rightarrow> 'a RingGrowing" where
  "WriteOne x r0 =
     (let r = (if readable r0 = ring_n r0 then grow r0 else r0)
      in r\<lparr>ring_data := (ring_data r)[(readable r + ring_beg r) mod ring_n r := Some x],
           readable := readable r + 1\<rparr>)"

text \<open>A ring holds the sequence of its readable elements; the size of the array is not zero.\<close>

definition ring_elems :: "'a RingGrowing \<Rightarrow> 'a option list" where
  "ring_elems r = map (\<lambda>i. ring_data r ! ((ring_beg r + i) mod ring_n r)) [0..<readable r]"

definition ring_ok :: "'a RingGrowing \<Rightarrow> bool" where
  "ring_ok r \<longleftrightarrow> ring_n r > 0 \<and> length (ring_data r) = ring_n r \<and> ring_beg r < ring_n r
     \<and> readable r \<le> ring_n r"

lemma ring_index: "b < (n::nat) \<Longrightarrow> i < n \<Longrightarrow> (b + i) mod n = (if b + i < n then b + i else b + i - n)"
  by (simp add: mod_if)

lemma ring_ok_new: "n > 0 \<Longrightarrow> ring_ok (NewRingGrowing n)"
  by (simp add: ring_ok_def NewRingGrowing_def)

lemma ring_elems_new [simp]: "ring_elems (NewRingGrowing n) = []"
  by (simp add: ring_elems_def NewRingGrowing_def)

lemma ReadOne_spec:
  assumes "ring_ok r" and "ring_elems r = x # xs"
  shows "fst (ReadOne r) = (x, True)" and "ring_ok (snd (ReadOne r))"
    and "ring_elems (snd (ReadOne r)) = xs"
proof -
  define b n m where "b = ring_beg r" and "n = ring_n r" and "m = readable r"
  have len: "length (ring_elems r) = m" by (simp add: ring_elems_def m_def)
  then have m: "m > 0" using assms(2) by auto
  have ok: "n > 0" "length (ring_data r) = n" "b < n" "m \<le> n"
    using assms(1) by (simp_all add: ring_ok_def b_def n_def m_def)
  have "ring_elems r ! 0 = ring_data r ! b"
    using m ok by (simp add: ring_elems_def b_def n_def m_def)
  then show "fst (ReadOne r) = (x, True)"
    using assms(2) m by (simp add: ReadOne_def b_def m_def)
  let ?r = "snd (ReadOne r)"
  define b' where "b' = (if b = n - 1 then 0 else b + 1)"
  have r': "readable ?r = m - 1" "ring_n ?r = n" "ring_data ?r = (ring_data r)[b := None]" "ring_beg ?r = b'"
    using m by (simp_all add: ReadOne_def m_def n_def b_def b'_def)
  show "ring_ok ?r" using ok r' by (auto simp: ring_ok_def b'_def)
  show "ring_elems ?r = xs"
  proof (rule nth_equalityI)
    show "length (ring_elems ?r) = length xs"
      using assms(2) len r'(1) by (simp add: ring_elems_def)
    fix i
    assume "i < length (ring_elems ?r)"
    then have i: "i + 1 < m" using r'(1) by (simp add: ring_elems_def)
    have idx: "(b' + i) mod n = (b + (i + 1)) mod n"
    proof (cases "b = n - 1")
      case True
      then have "b + (i + 1) = n + i" using ok by simp
      with True show ?thesis by (simp add: b'_def)
    qed (simp add: b'_def)
    have "(b + (i + 1)) mod n = (if b + (i + 1) < n then b + (i + 1) else b + (i + 1) - n)"
      using i ok by (intro ring_index) simp_all
    then have neq: "(b + (i + 1)) mod n \<noteq> b"
      using i ok by (simp split: if_splits)
    have "ring_elems ?r ! i = (ring_data r)[b := None] ! ((b + (i + 1)) mod n)"
      using i r'(1) idx by (simp add: ring_elems_def r'(2-4) less_diff_conv)
    also have "\<dots> = ring_elems r ! (i + 1)"
      using i neq by (simp add: ring_elems_def b_def n_def m_def)
    also have "\<dots> = xs ! i" using assms(2) by simp
    finally show "ring_elems ?r ! i = xs ! i" .
  qed
qed

lemma ReadOne_empty: "ring_elems r = [] \<Longrightarrow> ReadOne r = ((None, False), r)"
  by (simp add: ring_elems_def ReadOne_def)

lemma grow_spec:
  assumes "ring_ok r" and "readable r = ring_n r"
  shows "ring_ok (grow r)" and "ring_elems (grow r) = ring_elems r" and "readable (grow r) < ring_n (grow r)"
proof -
  define b n where "b = ring_beg r" and "n = ring_n r"
  have ok: "n > 0" "length (ring_data r) = n" "b < n" "readable r = n"
    using assms by (simp_all add: ring_ok_def b_def n_def)
  define copied where "copied = drop b (ring_data r) @ take b (ring_data r)"
  have len: "length copied = n" using ok by (simp add: copied_def)
  have g: "ring_data (grow r) = copied @ replicate n None" "ring_n (grow r) = n * 2"
    "ring_beg (grow r) = 0" "readable (grow r) = n"
    using ok by (auto simp: grow_def Let_def b_def n_def copied_def)
  show "ring_ok (grow r)" and "readable (grow r) < ring_n (grow r)"
    using g ok len by (simp_all add: ring_ok_def)
  show "ring_elems (grow r) = ring_elems r"
  proof (rule nth_equalityI)
    fix i
    assume "i < length (ring_elems (grow r))"
    then have i: "i < n" using g by (simp add: ring_elems_def)
    then have "ring_elems (grow r) ! i = copied ! i"
      using g ok len by (simp add: ring_elems_def nth_append)
    also have "\<dots> = ring_data r ! ((b + i) mod n)"
      using i ok ring_index [OF ok(3) i]
      by (cases "b + i < n") (simp_all add: copied_def nth_append add.commute less_diff_conv)
    finally show "ring_elems (grow r) ! i = ring_elems r ! i"
      using i ok by (simp add: ring_elems_def b_def n_def)
  qed (use g ok in \<open>simp add: ring_elems_def\<close>)
qed

lemma WriteOne_room:
  fixes r :: "'a RingGrowing" and x :: 'a
  assumes "ring_ok r" and "readable r < ring_n r"
  defines "r' \<equiv> r\<lparr>ring_data := (ring_data r)[(readable r + ring_beg r) mod ring_n r := Some x],
                  readable := readable r + 1\<rparr>"
  shows "ring_ok r'" and "ring_elems r' = ring_elems r @ [Some x]"
proof -
  define b n m where "b = ring_beg r" and "n = ring_n r" and "m = readable r"
  have ok: "n > 0" "length (ring_data r) = n" "b < n" "m < n"
    using assms(1,2) by (simp_all add: ring_ok_def b_def n_def m_def)
  show "ring_ok r'" using assms(1,2) by (simp add: r'_def ring_ok_def)
  have "(m + b) mod n \<noteq> (b + i) mod n" if "i < m" for i
    using that ok ring_index [OF ok(3), of i] ring_index [OF ok(3,4)]
    by (simp add: add.commute split: if_splits)
  then have "map (\<lambda>i. (ring_data r)[(m + b) mod n := Some x] ! ((b + i) mod n)) [0..<m] = ring_elems r"
    by (auto simp: ring_elems_def b_def n_def m_def intro!: map_cong)
  moreover have "(ring_data r)[(m + b) mod n := Some x] ! ((b + m) mod n) = Some x"
    using ok by (simp add: add.commute)
  ultimately show "ring_elems r' = ring_elems r @ [Some x]"
    by (simp add: r'_def ring_elems_def b_def n_def m_def)
qed

lemma WriteOne_spec:
  assumes "ring_ok r"
  shows "ring_ok (WriteOne x r)" and "ring_elems (WriteOne x r) = ring_elems r @ [Some x]"
proof -
  have "ring_ok (WriteOne x r) \<and> ring_elems (WriteOne x r) = ring_elems r @ [Some x]"
  proof (cases "readable r = ring_n r")
    case True
    then show ?thesis
      using WriteOne_room [of "grow r" x] grow_spec [OF assms True] by (simp add: WriteOne_def Let_def)
  next
    case False
    then have "readable r < ring_n r" using assms by (simp add: ring_ok_def)
    then show ?thesis
      using WriteOne_room [OF assms] False by (simp add: WriteOne_def Let_def)
  qed
  then show "ring_ok (WriteOne x r)" and "ring_elems (WriteOne x r) = ring_elems r @ [Some x]" by simp_all
qed

section \<open>The delivery loop of a listener\<close>

text \<open>
  \<open>processorListener.pop\<close>: the loop selects between sending the current notification to the handler
  and receiving a new one.  \<open>nextCh\<close> says whether sending is enabled; the buffer is a parameter.
\<close>

record ('a, 'b) pop_state =
  notification :: "'a option"
  nextCh :: bool
  pendingNotifications :: 'b

definition pop_start :: "'b \<Rightarrow> ('a, 'b) pop_state" where
  "pop_start buf = \<lparr>notification = None, nextCh = False, pendingNotifications = buf\<rparr>"

definition pop_dispatch ::
  "('b \<Rightarrow> ('a option \<times> bool) \<times> 'b) \<Rightarrow> ('a, 'b) pop_state \<Rightarrow> ('a, 'b) pop_state" where
  "pop_dispatch readOne st =
     (case readOne (pendingNotifications st) of
        ((next, ok), buf) \<Rightarrow>
          st\<lparr>notification := next, nextCh := ok, pendingNotifications := buf\<rparr>)"

definition pop_receive :: "('a \<Rightarrow> 'b \<Rightarrow> 'b) \<Rightarrow> 'a \<Rightarrow> ('a, 'b) pop_state \<Rightarrow> ('a, 'b) pop_state" where
  "pop_receive writeOne x st =
     (if notification st = None then st\<lparr>notification := Some x, nextCh := True\<rparr>
      else st\<lparr>pendingNotifications := writeOne x (pendingNotifications st)\<rparr>)"

text \<open>The runs of the loop, with the notifications it received and those it sent so far.\<close>

inductive pop_runs ::
  "('b \<Rightarrow> ('a option \<times> bool) \<times> 'b) \<Rightarrow> ('a \<Rightarrow> 'b \<Rightarrow> 'b) \<Rightarrow> 'b
     \<Rightarrow> ('a, 'b) pop_state \<Rightarrow> 'a list \<Rightarrow> 'a option list \<Rightarrow> bool"
  for readOne :: "'b \<Rightarrow> ('a option \<times> bool) \<times> 'b" and writeOne :: "'a \<Rightarrow> 'b \<Rightarrow> 'b" and buf :: 'b where
  start: "pop_runs readOne writeOne buf (pop_start buf) [] []"
| dispatch: "pop_runs readOne writeOne buf st rcvd sent \<Longrightarrow> nextCh st \<Longrightarrow>
    pop_runs readOne writeOne buf (pop_dispatch readOne st) rcvd (sent @ [notification st])"
| receive: "pop_runs readOne writeOne buf st rcvd sent \<Longrightarrow>
    pop_runs readOne writeOne buf (pop_receive writeOne x st) (rcvd @ [x]) sent"

text \<open>What the loop needs of its buffer.\<close>

locale notification_buffer =
  fixes ok :: "'b \<Rightarrow> bool"
    and elements :: "'b \<Rightarrow> 'a option list"
    and readOne :: "'b \<Rightarrow> ('a option \<times> bool) \<times> 'b"
    and writeOne :: "'a \<Rightarrow> 'b \<Rightarrow> 'b"
  assumes read_empty: "ok b \<Longrightarrow> elements b = [] \<Longrightarrow> readOne b = ((None, False), b)"
    and read_first: "ok b \<Longrightarrow> elements b = x # xs \<Longrightarrow>
      \<exists>b'. readOne b = ((x, True), b') \<and> ok b' \<and> elements b' = xs"
    and write_last: "ok b \<Longrightarrow> ok (writeOne y b) \<and> elements (writeOne y b) = elements b @ [Some y]"
begin

definition waiting :: "('a, 'b) pop_state \<Rightarrow> 'a option list" where
  "waiting st = (if nextCh st then notification st # elements (pendingNotifications st) else [])"

definition pop_ok :: "('a, 'b) pop_state \<Rightarrow> bool" where
  "pop_ok st \<longleftrightarrow> ok (pendingNotifications st) \<and> (nextCh st \<longleftrightarrow> notification st \<noteq> None)
     \<and> (\<not> nextCh st \<longrightarrow> elements (pendingNotifications st) = [])
     \<and> (\<forall>x \<in> set (elements (pendingNotifications st)). x \<noteq> None)"

lemma pop_dispatch_ok:
  assumes "pop_ok st" and "nextCh st"
  shows "pop_ok (pop_dispatch readOne st)" and "waiting st = notification st # waiting (pop_dispatch readOne st)"
proof -
  have "pop_ok (pop_dispatch readOne st) \<and> waiting st = notification st # waiting (pop_dispatch readOne st)"
  proof (cases "elements (pendingNotifications st)")
    case Nil
    with assms read_empty [of "pendingNotifications st"] show ?thesis
      by (simp add: pop_ok_def pop_dispatch_def waiting_def)
  next
    case (Cons x xs)
    with assms(1) obtain b' where
      "readOne (pendingNotifications st) = ((x, True), b')" "ok b'" "elements b' = xs"
      using read_first [of "pendingNotifications st" x xs] by (auto simp: pop_ok_def)
    with assms Cons show ?thesis
      by (simp add: pop_ok_def pop_dispatch_def waiting_def)
  qed
  then show "pop_ok (pop_dispatch readOne st)" and "waiting st = notification st # waiting (pop_dispatch readOne st)"
    by simp_all
qed

lemma pop_receive_ok:
  assumes "pop_ok st"
  shows "pop_ok (pop_receive writeOne x st)" and "waiting (pop_receive writeOne x st) = waiting st @ [Some x]"
  using assms write_last [of "pendingNotifications st" x]
  by (auto simp: pop_ok_def pop_receive_def waiting_def)

lemma pop_runs_deliver:
  assumes "pop_runs readOne writeOne buf st rcvd sent" and "ok buf" and "elements buf = []"
  shows "pop_ok st \<and> map Some rcvd = sent @ waiting st"
  using assms(1)
proof induction
  case start
  then show ?case using assms(2,3) by (simp add: pop_ok_def pop_start_def waiting_def)
next
  case (dispatch st rcvd sent)
  then show ?case using pop_dispatch_ok by simp
next
  case (receive st rcvd sent x)
  then show ?case using pop_receive_ok by simp
qed

end

interpretation ring: notification_buffer ring_ok ring_elems ReadOne WriteOne
proof unfold_locales
  fix b :: "'a RingGrowing" and x xs
  show "ring_elems b = [] \<Longrightarrow> ReadOne b = ((None, False), b)" by (rule ReadOne_empty)
  show "\<exists>b'. ReadOne b = ((x, True), b') \<and> ring_ok b' \<and> ring_elems b' = xs"
    if "ring_ok b" "ring_elems b = x # xs"
  proof (intro exI conjI)
    show "ReadOne b = ((x, True), snd (ReadOne b))"
      using ReadOne_spec(1) [OF that] by (cases "ReadOne b") simp
    show "ring_ok (snd (ReadOne b))" and "ring_elems (snd (ReadOne b)) = xs"
      using ReadOne_spec(2,3) [OF that] .
  qed
next
  fix b :: "'a RingGrowing" and x
  show "ring_ok b \<Longrightarrow> ring_ok (WriteOne x b) \<and> ring_elems (WriteOne x b) = ring_elems b @ [Some x]"
    by (simp add: WriteOne_spec)
qed

text \<open>C17. A listener delivers every notification it receives, once and in the order of arrival: the
  notifications received are those sent to the handler followed by those that still wait, the
  current one and the contents of the ring buffer, whatever the initial size of the buffer.\<close>

theorem listener_delivers_in_order:
  assumes "pop_runs ReadOne WriteOne (NewRingGrowing n) st rcvd sent" and "n > 0"
  shows "map Some rcvd = sent @
    (if nextCh st then notification st # ring_elems (pendingNotifications st) else [])"
  using ring.pop_runs_deliver [OF assms(1)] assms(2) by (simp add: ring_ok_new ring.waiting_def)

theorem listener_delivers_in_order_witness:
  "\<exists>st. pop_runs ReadOne WriteOne (NewRingGrowing 1) st [''a''] [] \<and>
     map Some [''a''] = [] @ (if nextCh st then notification st # ring_elems (pendingNotifications st) else [])"
proof -
  have r: "pop_runs ReadOne WriteOne (NewRingGrowing 1)
      (pop_receive WriteOne ''a'' (pop_start (NewRingGrowing 1))) ([] @ [''a'']) []"
    by (rule pop_runs.receive, rule pop_runs.start)
  show ?thesis
    using listener_delivers_in_order [OF r] r by (auto simp del: map_append)
qed

section \<open>The shared processor\<close>

text \<open>Notifications; a listener keeps the sequence of the notifications sent to its channel.\<close>

datatype 'a notification =
    updateNotification "'a obj" "'a obj"
  | addNotification "'a obj"
  | deleteNotification "'a obj"

record 'a processorListener =
  requestedResyncPeriod :: int
  resyncPeriod :: int
  nextResync :: int
  addCh :: "'a notification list"

text \<open>\<open>syncingListeners\<close> holds pointers to listeners: their positions in the list of listeners.\<close>

record 'a sharedProcessor =
  listeners :: "'a processorListener list"
  syncingListeners :: "nat list"

definition determineNextResync :: "int \<Rightarrow> 'a processorListener \<Rightarrow> 'a processorListener" where
  "determineNextResync now l = l\<lparr>nextResync := now + resyncPeriod l\<rparr>"

definition newProcessListener :: "int \<Rightarrow> int \<Rightarrow> int \<Rightarrow> 'a processorListener" where
  "newProcessListener requested period now =
     determineNextResync now
       \<lparr>requestedResyncPeriod = requested, resyncPeriod = period, nextResync = 0, addCh = []\<rparr>"

definition listener_add :: "'a notification \<Rightarrow> 'a processorListener \<Rightarrow> 'a processorListener" where
  "listener_add n l = l\<lparr>addCh := addCh l @ [n]\<rparr>"

definition listener_shouldResync :: "int \<Rightarrow> 'a processorListener \<Rightarrow> bool" where
  "listener_shouldResync now l =
     (if resyncPeriod l = 0 then False else now > nextResync l \<or> now = nextResync l)"

definition setResyncPeriod :: "int \<Rightarrow> 'a processorListener \<Rightarrow> 'a processorListener" where
  "setResyncPeriod period l = l\<lparr>resyncPeriod := period\<rparr>"

definition addListener :: "'a processorListener \<Rightarrow> 'a sharedProcessor \<Rightarrow> 'a sharedProcessor" where
  "addListener l p =
     p\<lparr>listeners := listeners p @ [l], syncingListeners := syncingListeners p @ [length (listeners p)]\<rparr>"

fun addAll :: "'a notification \<Rightarrow> nat list \<Rightarrow> 'a processorListener list \<Rightarrow> 'a processorListener list" where
  "addAll n [] ls = ls"
| "addAll n (i # is) ls = addAll n is (ls[i := listener_add n (ls ! i)])"

definition distribute :: "'a notification \<Rightarrow> bool \<Rightarrow> 'a sharedProcessor \<Rightarrow> 'a sharedProcessor" where
  "distribute n sync p =
     (if sync then p\<lparr>listeners := addAll n (syncingListeners p) (listeners p)\<rparr>
      else p\<lparr>listeners := map (listener_add n) (listeners p)\<rparr>)"

text \<open>The loop of shouldResync: the resync flag, the syncing listeners and the updated listeners.\<close>

fun resyncScan ::
  "int \<Rightarrow> nat \<Rightarrow> 'a processorListener list \<Rightarrow> bool \<times> nat list \<times> 'a processorListener list" where
  "resyncScan now i [] = (False, [], [])"
| "resyncScan now i (l # ls) =
     (case resyncScan now (i + 1) ls of
        (needed, syncing, ls') \<Rightarrow>
          if listener_shouldResync now l then (True, i # syncing, determineNextResync now l # ls')
          else (needed, syncing, l # ls'))"

definition shouldResync :: "int \<Rightarrow> 'a sharedProcessor \<Rightarrow> bool \<times> 'a sharedProcessor" where
  "shouldResync now p =
     (case resyncScan now 0 (listeners p) of
        (needed, syncing, ls) \<Rightarrow> (needed, p\<lparr>syncingListeners := syncing, listeners := ls\<rparr>))"

definition determineResyncPeriod :: "int \<Rightarrow> int \<Rightarrow> int" where
  "determineResyncPeriod desired check =
     (if desired = 0 then desired
      else if check = 0 then 0
      else if desired < check then check
      else desired)"

definition resyncCheckPeriodChanged :: "int \<Rightarrow> 'a sharedProcessor \<Rightarrow> 'a sharedProcessor" where
  "resyncCheckPeriodChanged check p =
     p\<lparr>listeners := map (\<lambda>l. setResyncPeriod (determineResyncPeriod (requestedResyncPeriod l) check) l) (listeners p)\<rparr>"

section \<open>The shared index informer\<close>

record 'a sharedIndexInformer =
  indexer :: "'a obj cache"
  fifo :: "'a DeltaFIFO"
  processor :: "'a sharedProcessor"
  resyncCheckPeriod :: int
  started :: bool
  stopped :: bool

definition DeletionHandlingMetaNamespaceKeyFunc ::
  "('a obj \<Rightarrow> string + string) \<Rightarrow> 'a obj \<Rightarrow> string + string" where
  "DeletionHandlingMetaNamespaceKeyFunc metaKey obj =
     (case obj of
        DeletedFinalStateUnknown k old \<Rightarrow> Inr k
      | _ \<Rightarrow> metaKey obj)"

definition NewSharedIndexInformer ::
  "('a obj \<Rightarrow> string + string) \<Rightarrow> int \<Rightarrow> (string \<rightharpoonup> 'a obj IndexFunc) \<Rightarrow> 'a sharedIndexInformer" where
  "NewSharedIndexInformer metaKey defaultResync ixers =
     \<lparr>indexer = NewIndexer (DeletionHandlingMetaNamespaceKeyFunc metaKey) ixers,
      fifo = NewDeltaFIFO metaKey,
      processor = \<lparr>listeners = [], syncingListeners = []\<rparr>,
      resyncCheckPeriod = defaultResync, started = False, stopped = False\<rparr>"

definition minimumResyncPeriod :: int where
  "minimumResyncPeriod = 1000000000"

definition adjustedPeriod ::
  "int \<Rightarrow> 'a sharedIndexInformer \<Rightarrow> int \<times> 'a sharedIndexInformer" where
  "adjustedPeriod period s =
     (if period > 0 then
        (let period = (if period < minimumResyncPeriod then minimumResyncPeriod else period)
         in if period < resyncCheckPeriod s then
              (if started s then (resyncCheckPeriod s, s)
               else (period, s\<lparr>resyncCheckPeriod := period,
                               processor := resyncCheckPeriodChanged period (processor s)\<rparr>))
            else (period, s))
      else (period, s))"

text \<open>\<open>items\<close> are the objects the indexer lists, in the order of its loop.\<close>

definition AddEventHandlerWithResyncPeriod ::
  "int \<Rightarrow> 'a obj list \<Rightarrow> int \<Rightarrow> 'a sharedIndexInformer \<Rightarrow> 'a sharedIndexInformer" where
  "AddEventHandlerWithResyncPeriod now items period0 s0 =
     (if stopped s0 then s0
      else
        (case adjustedPeriod period0 s0 of
           (period, s) \<Rightarrow>
             (let l = newProcessListener period (determineResyncPeriod period (resyncCheckPeriod s)) now
              in if \<not> started s then s\<lparr>processor := addListener l (processor s)\<rparr>
                 else s\<lparr>processor := addListener (foldl (\<lambda>l item. listener_add (addNotification item) l) l items)
                          (processor s)\<rparr>)))"

text \<open>
  One delta, and the loop over the deltas; \<open>ords k\<close> are the orders of the indexer's loops for the
  k-th delta.  A key error ends the loop and is returned; a failing index function panics (left).
\<close>

type_synonym 'a handled = "store_panic + 'a obj key_error option \<times> 'a sharedIndexInformer"

definition stored_and_notified ::
  "'a notification \<Rightarrow> bool \<Rightarrow> 'a sharedIndexInformer \<Rightarrow> 'a obj cache_result \<Rightarrow> 'a handled" where
  "stored_and_notified n isSync s r =
     (case r of
        Inl p \<Rightarrow> Inl p
      | Inr (Some err, c) \<Rightarrow> Inr (Some err, s)
      | Inr (None, c) \<Rightarrow> Inr (None, s\<lparr>indexer := c, processor := distribute n isSync (processor s)\<rparr>))"

definition handleDelta :: "range_orders \<Rightarrow> 'a delta \<Rightarrow> 'a sharedIndexInformer \<Rightarrow> 'a handled" where
  "handleDelta ord d s =
     (if delta_Type d = Deleted then
        stored_and_notified (deleteNotification (delta_Object d)) False s
          (cache_Delete ord (delta_Object d) (indexer s))
      else
        (let isSync = (delta_Type d = Sync)
         in case cache_Get (indexer s) (delta_Object d) of
              Inr (Some old) \<Rightarrow>
                stored_and_notified (updateNotification old (delta_Object d)) isSync s
                  (cache_Update ord (delta_Object d) (indexer s))
            | _ \<Rightarrow>
                stored_and_notified (addNotification (delta_Object d)) isSync s
                  (cache_Add ord (delta_Object d) (indexer s))))"

fun HandleDeltas :: "(nat \<Rightarrow> range_orders) \<Rightarrow> 'a Deltas \<Rightarrow> 'a sharedIndexInformer \<Rightarrow> 'a handled" where
  "HandleDeltas ords [] s = Inr (None, s)"
| "HandleDeltas ords (d # ds) s =
     (case handleDelta (ords 0) d s of
        Inl p \<Rightarrow> Inl p
      | Inr (Some err, s') \<Rightarrow> Inr (Some err, s')
      | Inr (None, s') \<Rightarrow> HandleDeltas (\<lambda>k. ords (k + 1)) ds s')"

text \<open>The indexer as the known objects of the queue; \<open>ord\<close> is the order in which it lists its keys.\<close>

definition knownOf :: "string list \<Rightarrow> 'a obj cache \<Rightarrow> 'a knownObjects" where
  "knownOf ord c =
     \<lparr>known_ListKeys = cache_ListKeys ord c,
      known_GetByKey = (\<lambda>k. case cache_GetByKey c k of Inl err \<Rightarrow> Inl '''' | Inr r \<Rightarrow> Inr r)\<rparr>"

text \<open>One turn of the controller's processLoop.  A panic of an index function is kept as an error.\<close>

definition informerProcess ::
  "(nat \<Rightarrow> range_orders) \<Rightarrow> ('a, 'a sharedIndexInformer, store_panic + 'a obj key_error) PopProcessFunc" where
  "informerProcess ords ds s =
     (case HandleDeltas ords ds s of
        Inl p \<Rightarrow> (Processed (Some (Inl p)), s)
      | Inr (err, s') \<Rightarrow> (Processed (map_option Inr err), s'))"

definition processOne ::
  "(nat \<Rightarrow> range_orders) \<Rightarrow> 'a sharedIndexInformer
     \<Rightarrow> ('a, store_panic + 'a obj key_error) pop_result \<times> 'a sharedIndexInformer" where
  "processOne ords s =
     (case df_Pop (informerProcess ords) s (fifo s) of (r, s', f') \<Rightarrow> (r, s'\<lparr>fifo := f'\<rparr>))"

section \<open>The reflector\<close>

datatype event_type = WatchAdded | WatchModified | WatchDeleted | WatchError | WatchOther

datatype watch_end = WatchErrorEvent | WatchClosed

text \<open>
  The loop of watchHandler over the events of a watch.  \<open>typeOk\<close> is the check of the object's type and
  \<open>version\<close> reads the resource version of an object that has metadata; the last version seen is
  returned.  Errors of the store are logged only.
\<close>

definition storeEvent ::
  "event_type \<Rightarrow> 'a obj \<Rightarrow> 'a sharedIndexInformer \<Rightarrow> 'a sharedIndexInformer" where
  "storeEvent t obj s =
     (case t of
        WatchAdded \<Rightarrow> s\<lparr>fifo := snd (df_Add obj (fifo s))\<rparr>
      | WatchModified \<Rightarrow> s\<lparr>fifo := snd (df_Update obj (fifo s))\<rparr>
      | WatchDeleted \<Rightarrow> s\<lparr>fifo := snd (df_Delete (Some (knownOf [] (indexer s))) obj (fifo s))\<rparr>
      | _ \<Rightarrow> s)"

fun watchHandler ::
  "('a obj \<Rightarrow> bool) \<Rightarrow> ('a obj \<Rightarrow> string option) \<Rightarrow> (event_type \<times> 'a obj) list
     \<Rightarrow> string \<times> 'a sharedIndexInformer \<Rightarrow> watch_end \<times> string \<times> 'a sharedIndexInformer" where
  "watchHandler typeOk version [] st = (WatchClosed, st)"
| "watchHandler typeOk version ((t, obj) # events) (rv, s) =
     (if t = WatchError then (WatchErrorEvent, rv, s)
      else if \<not> typeOk obj then watchHandler typeOk version events (rv, s)
      else (case version obj of
              None \<Rightarrow> watchHandler typeOk version events (rv, s)
            | Some newResourceVersion \<Rightarrow>
                watchHandler typeOk version events (newResourceVersion, storeEvent t obj s)))"

definition syncWith ::
  "string list \<Rightarrow> 'a obj list \<Rightarrow> 'a sharedIndexInformer \<Rightarrow> 'a fifo_error option \<times> 'a sharedIndexInformer" where
  "syncWith ord items s =
     (case df_Replace [] (Some (knownOf ord (indexer s))) items (fifo s) of
        (err, f') \<Rightarrow> (err, s\<lparr>fifo := f'\<rparr>))"

definition informer_Resync ::
  "string list \<Rightarrow> 'a sharedIndexInformer \<Rightarrow> 'a fifo_error option \<times> 'a sharedIndexInformer" where
  "informer_Resync ord s =
     (case df_Resync (Some (knownOf ord (indexer s))) (fifo s) of
        (err, f') \<Rightarrow> (err, s\<lparr>fifo := f'\<rparr>))"

section \<open>The invariant of the informer\<close>

definition contents_of :: "'a sharedIndexInformer \<Rightarrow> string \<rightharpoonup> 'a obj" where
  "contents_of s = tsm_items (cacheStorage (indexer s))"

definition not_deltas :: "'a obj \<Rightarrow> bool" where
  "not_deltas obj \<longleftrightarrow> (\<forall>ds. obj \<noteq> DeltasObj ds)"

definition informer_inv :: "'a sharedIndexInformer \<Rightarrow> bool" where
  "informer_inv s \<longleftrightarrow>
     fifo_inv (fifo s) \<and> store_inv (cacheStorage (indexer s)) \<and>
     total_indexers (indexers (cacheStorage (indexer s))) \<and>
     keyFunc (indexer s) = DeletionHandlingMetaNamespaceKeyFunc (df_keyFunc (fifo s)) \<and>
     (\<forall>k ds d. df_items (fifo s) k = Some ds \<longrightarrow> d \<in> set ds \<longrightarrow> not_deltas (delta_Object d)) \<and>
     (\<forall>k obj. contents_of s k = Some obj \<longrightarrow> not_deltas obj \<and> KeyOf (fifo s) obj = Inr k)"

lemma informer_invD:
  assumes "informer_inv s"
  shows "fifo_inv (fifo s)" and "store_inv (cacheStorage (indexer s))"
    and "total_indexers (indexers (cacheStorage (indexer s)))"
    and "keyFunc (indexer s) = DeletionHandlingMetaNamespaceKeyFunc (df_keyFunc (fifo s))"
    and "df_items (fifo s) k = Some ds \<Longrightarrow> d \<in> set ds \<Longrightarrow> not_deltas (delta_Object d)"
    and "contents_of s k = Some obj \<Longrightarrow> not_deltas obj"
    and "contents_of s k = Some obj \<Longrightarrow> KeyOf (fifo s) obj = Inr k"
  using assms by (auto simp: informer_inv_def)

text \<open>The queue and the indexer agree on the keys of objects that are not lists of deltas.\<close>

lemma KeyOf_keyFunc:
  "not_deltas obj \<Longrightarrow> KeyOf f obj = Inr k \<longleftrightarrow>
     DeletionHandlingMetaNamespaceKeyFunc (df_keyFunc f) obj = Inr k"
  by (cases obj) (auto simp: not_deltas_def KeyOf_def keyOfPlain_def
      DeletionHandlingMetaNamespaceKeyFunc_def split: sum.split)

lemma stored_and_notified_ok:
  "stored_and_notified n sync s (Inr (None, c)) =
     Inr (None, s\<lparr>indexer := c, processor := distribute n sync (processor s)\<rparr>)"
  by (simp add: stored_and_notified_def)

text \<open>The notification a delta produces, given what the indexer holds.\<close>

definition notification_of :: "'a delta \<Rightarrow> 'a obj option \<Rightarrow> 'a notification" where
  "notification_of d old =
     (if delta_Type d = Deleted then deleteNotification (delta_Object d)
      else (case old of
              None \<Rightarrow> addNotification (delta_Object d)
            | Some o' \<Rightarrow> updateNotification o' (delta_Object d)))"

lemma handleDelta_eq:
  assumes "store_inv (cacheStorage (indexer s))" and "total_indexers (indexers (cacheStorage (indexer s)))"
    and "orders (cacheStorage (indexer s)) ord" and "keyFunc (indexer s) (delta_Object d) = Inr key"
  defines "st \<equiv> (if delta_Type d = Deleted then removed key else stored key (delta_Object d))"
  shows "handleDelta ord d s =
    Inr (None, s\<lparr>indexer := (indexer s)\<lparr>cacheStorage := st (cacheStorage (indexer s))\<rparr>,
      processor := distribute (notification_of d (contents_of s key)) (delta_Type d = Sync) (processor s)\<rparr>)"
proof -
  have ix: "indexable (cacheStorage (indexer s)) (delta_Object d)"
    using assms(2) by (rule total_indexable)
  note writes = cache_write_eq [OF assms(1,3,4)]
  show ?thesis
  proof (cases "delta_Type d = Deleted")
    case True
    then show ?thesis
      using writes(3) by (simp add: handleDelta_def notification_of_def st_def stored_and_notified_ok)
  next
    case False
    have "cache_Get (indexer s) (delta_Object d) = Inr (contents_of s key)"
      using assms(4) by (simp add: cache_Get_def cache_GetByKey_def tsm_Get_def contents_of_def)
    with False writes(1,2) ix show ?thesis
      by (simp add: handleDelta_def notification_of_def st_def stored_and_notified_ok Let_def
          split: option.split)
  qed
qed

lemma contents_handled:
  "contents_of (s\<lparr>indexer := (indexer s)\<lparr>cacheStorage := c\<rparr>, processor := p\<rparr>) = tsm_items c"
  by (simp add: contents_of_def)

lemma HandleDeltas_spec:
  assumes "store_inv (cacheStorage (indexer s))" and "total_indexers (indexers (cacheStorage (indexer s)))"
    and "\<And>k. orders (cacheStorage (indexer s)) (ords k)"
    and "\<And>d. d \<in> set ds \<Longrightarrow> keyFunc (indexer s) (delta_Object d) = Inr key"
  shows "\<exists>s'. HandleDeltas ords ds s = Inr (None, s') \<and> store_inv (cacheStorage (indexer s'))
    \<and> indexers (cacheStorage (indexer s')) = indexers (cacheStorage (indexer s))
    \<and> keyFunc (indexer s') = keyFunc (indexer s) \<and> fifo s' = fifo s
    \<and> contents_of s' = (contents_of s)(key := fold effect ds (contents_of s key))"
  using assms
proof (induction ds arbitrary: ords s)
  case (Cons d ds)
  let ?st = "(if delta_Type d = Deleted then removed key else stored key (delta_Object d))"
  let ?c = "?st (cacheStorage (indexer s))"
  define s1 where "s1 = s\<lparr>indexer := (indexer s)\<lparr>cacheStorage := ?c\<rparr>,
      processor := distribute (notification_of d (contents_of s key)) (delta_Type d = Sync) (processor s)\<rparr>"
  have step: "handleDelta (ords 0) d s = Inr (None, s1)"
    unfolding s1_def using Cons.prems(4) by (intro handleDelta_eq [OF Cons.prems(1-3)]) simp
  have inv: "store_inv ?c"
    using store_inv_removed [OF Cons.prems(1)] store_inv_stored [OF Cons.prems(1)]
      total_indexable [OF Cons.prems(2)] by simp
  have ixs: "indexers ?c = indexers (cacheStorage (indexer s))" by simp
  have items: "tsm_items ?c = (contents_of s)(key := effect d (contents_of s key))"
    by (simp add: contents_of_def effect_def)
  have s1: "cacheStorage (indexer s1) = ?c" "keyFunc (indexer s1) = keyFunc (indexer s)" "fifo s1 = fifo s"
    "contents_of s1 = (contents_of s)(key := effect d (contents_of s key))"
    unfolding items [symmetric] by (simp_all add: s1_def contents_of_def)
  have "\<exists>s'. HandleDeltas (\<lambda>k. ords (k + 1)) ds s1 = Inr (None, s') \<and> store_inv (cacheStorage (indexer s'))
    \<and> indexers (cacheStorage (indexer s')) = indexers (cacheStorage (indexer s1))
    \<and> keyFunc (indexer s') = keyFunc (indexer s1) \<and> fifo s' = fifo s1
    \<and> contents_of s' = (contents_of s1)(key := fold effect ds (contents_of s1 key))"
  proof (rule Cons.IH)
    show "orders (cacheStorage (indexer s1)) (ords (k + 1))" for k
      using Cons.prems(3) [of "k + 1"] ixs by (simp add: orders_def s1(1))
  qed (use inv ixs s1 Cons.prems(2,4) in auto)
  then obtain s' where s': "HandleDeltas (\<lambda>k. ords (k + 1)) ds s1 = Inr (None, s')"
    "store_inv (cacheStorage (indexer s'))"
    "indexers (cacheStorage (indexer s')) = indexers (cacheStorage (indexer s1))"
    "keyFunc (indexer s') = keyFunc (indexer s1)" "fifo s' = fifo s1"
    "contents_of s' = (contents_of s1)(key := fold effect ds (contents_of s1 key))"
    by blast
  have "contents_of s' = (contents_of s)(key := fold effect (d # ds) (contents_of s key))"
    unfolding s'(6) s1(4) by simp
  moreover have "HandleDeltas ords (d # ds) s = Inr (None, s')" using step s'(1) by simp
  ultimately show ?case using s'(2-5) s1(1-3) ixs by metis
qed simp

text \<open>Processing the first key of the queue applies its deltas to the indexer.\<close>

lemma processOne_spec:
  assumes "informer_inv s" and "\<And>k. orders (cacheStorage (indexer s)) (ords k)"
    and "df_queue (fifo s) = key # q"
  shows "\<exists>item s'. processOne ords s = (Popped item None, s') \<and> informer_inv s'
    \<and> fifo s' = popped key (fifo s)
    \<and> indexers (cacheStorage (indexer s')) = indexers (cacheStorage (indexer s))
    \<and> contents_of s' = (contents_of s)(key := pending (fifo s) (contents_of s) key)"
proof -
  note inv = informer_invD [OF assms(1)]
  obtain item where item: "df_items (fifo s) key = Some item"
    by (rule queue_head [OF inv(1) assms(3)])
  have keys: "KeyOf (fifo s) (delta_Object d) = Inr key \<and> not_deltas (delta_Object d)" if "d \<in> set item" for d
    using fifo_invD(4) [OF inv(1) item that] inv(5) [OF item that] by simp
  then have "keyFunc (indexer s) (delta_Object d) = Inr key" if "d \<in> set item" for d
    using that by (simp add: inv(4) flip: KeyOf_keyFunc)
  from HandleDeltas_spec [of s ords item key, OF inv(2,3) assms(2) this] obtain s1 where
    s1: "HandleDeltas ords item s = Inr (None, s1)" "store_inv (cacheStorage (indexer s1))"
    "indexers (cacheStorage (indexer s1)) = indexers (cacheStorage (indexer s))"
    "keyFunc (indexer s1) = keyFunc (indexer s)" "fifo s1 = fifo s"
    "contents_of s1 = (contents_of s)(key := fold effect item (contents_of s key))"
    by auto
  let ?s = "s1\<lparr>fifo := popped key (fifo s)\<rparr>"
  have pop: "processOne ords s = (Popped item None, ?s)"
    using df_Pop_eq [OF assms(3) item, of "informerProcess ords" s] s1(1)
    by (simp add: processOne_def informerProcess_def)
  have KeyOf: "KeyOf (popped key (fifo s)) = KeyOf (fifo s)" by (simp add: popped_def)
  have new: "contents_of ?s = (contents_of s)(key := fold effect item (contents_of s key))"
    using s1(6) by (simp add: contents_of_def)
  have held: "not_deltas obj \<and> KeyOf (fifo s) obj = Inr k" if "contents_of ?s k = Some obj" for k obj
  proof (cases "k = key")
    case True
    have "item \<noteq> []" by (rule fifo_invD(3) [OF inv(1) item])
    with that True new keys [of "last item"] show ?thesis
      by (auto simp: fold_effect_last split: if_splits)
  next
    case False
    with that new inv(6,7) show ?thesis by simp
  qed
  have "informer_inv ?s"
    using popped_inv [OF inv(1) assms(3)] s1(2-4) inv(3,4) held inv(5) KeyOf
    by (auto simp: informer_inv_def popped_def split: if_splits)
  moreover have "pending (fifo s) (contents_of s) key = fold effect item (contents_of s key)"
    using item by (simp add: pending_def deltasOf_def)
  ultimately show ?thesis using pop new s1(3) by auto
qed

section \<open>Changes of the queue\<close>

definition plain_fifo :: "'a DeltaFIFO \<Rightarrow> bool" where
  "plain_fifo f \<longleftrightarrow> (\<forall>k ds d. df_items f k = Some ds \<longrightarrow> d \<in> set ds \<longrightarrow> not_deltas (delta_Object d))"

lemma plain_fifo_simps [simp]:
  "plain_fifo (f\<lparr>populated := b\<rparr>) = plain_fifo f" "plain_fifo (populate n f) = plain_fifo f"
  by (simp_all add: plain_fifo_def populate_def)

lemma not_deltas_tombstone [simp]: "not_deltas (DeletedFinalStateUnknown k old)"
  by (simp add: not_deltas_def)

lemma plain_queued:
  assumes "plain_fifo f" and "not_deltas obj"
  shows "plain_fifo (queued t obj key f)"
proof -
  have old: "d \<in> set (deltasOf f key) \<Longrightarrow> not_deltas (delta_Object d)" for d
    using assms(1) by (cases "df_items f key") (auto simp: deltasOf_def plain_fifo_def)
  have new: "d \<in> set (dedupDeltas (deltasOf f key @ [Delta t obj])) \<Longrightarrow> not_deltas (delta_Object d)" for d
    using old assms(2) set_dedupDeltas [of "deltasOf f key" "Delta t obj"] by auto
  show ?thesis
  proof (cases "t = Sync \<and> willObjectBeDeletedLocked f key")
    case True
    with assms(1) show ?thesis by (simp add: queued_def)
  next
    case False
    then have "df_items (queued t obj key f) =
        (df_items f)(key \<mapsto> dedupDeltas (deltasOf f key @ [Delta t obj]))"
      by (auto simp: queued_def)
    with new assms(1) show ?thesis by (simp add: plain_fifo_def)
  qed
qed

lemma plain_replaceSync:
  "plain_fifo f \<Longrightarrow> \<forall>item \<in> set list. not_deltas item \<Longrightarrow> plain_fifo (snd (replaceSync list keys f))"
  by (induction list arbitrary: keys f)
    (auto simp: queueActionLocked_eq plain_queued split: sum.split)

lemma plain_replaceKnown: "plain_fifo f \<Longrightarrow> plain_fifo (snd (replaceKnown ko ks keys n f))"
  by (induction ks arbitrary: n f) (auto simp: queueActionLocked_eq plain_queued Let_def)

lemma plain_Replace:
  assumes "plain_fifo f" and "\<forall>item \<in> set list. not_deltas item"
  shows "plain_fifo (snd (df_Replace ord (Some ko) list f))"
proof -
  obtain r f' where sync: "replaceSync list {} f = (r, f')" by fastforce
  have "plain_fifo f'" using plain_replaceSync [OF assms, of "{}"] sync by simp
  then show ?thesis
    using plain_replaceKnown [of f'] by (simp add: df_Replace_def sync case_prod_beta split: sum.split)
qed

lemma informer_inv_fifo:
  assumes "informer_inv s" and "fifo_inv f" and "plain_fifo f" and "df_keyFunc f = df_keyFunc (fifo s)"
  shows "informer_inv (s\<lparr>fifo := f\<rparr>)"
proof -
  have "KeyOf f = KeyOf (fifo s)" using assms(4) by (rule KeyOf_cong)
  with assms show ?thesis by (simp add: informer_inv_def plain_fifo_def contents_of_def)
qed

lemma informer_plain: "informer_inv s \<Longrightarrow> plain_fifo (fifo s)"
  by (simp add: informer_inv_def plain_fifo_def)

text \<open>The effect of one event of a watch on the state the queue leads to.\<close>

lemma contents_fifo [simp]: "contents_of (s\<lparr>fifo := f\<rparr>) = contents_of s"
  by (simp add: contents_of_def)

definition event_effect :: "event_type \<Rightarrow> 'a obj \<Rightarrow> string \<Rightarrow> (string \<rightharpoonup> 'a obj) \<Rightarrow> (string \<rightharpoonup> 'a obj)" where
  "event_effect t obj k m =
     (if t = WatchDeleted then m(k := None)
      else if t = WatchAdded \<or> t = WatchModified then m(k \<mapsto> obj)
      else m)"

lemma storeEvent_spec:
  assumes "informer_inv s" and "not_deltas obj" and "KeyOf (fifo s) obj = Inr k"
  shows "informer_inv (storeEvent t obj s)"
    and "pending (fifo (storeEvent t obj s)) (contents_of (storeEvent t obj s)) =
      event_effect t obj k (pending (fifo s) (contents_of s))"
    and "indexer (storeEvent t obj s) = indexer s"
proof -
  let ?f = "(fifo s)\<lparr>populated := True\<rparr>"
  have q: "informer_inv (s\<lparr>fifo := queued u obj k ?f\<rparr>)" for u
    using queued_inv [of ?f obj k u] plain_queued [of ?f obj u k] informer_invD(1) [OF assms(1)]
      informer_plain [OF assms(1)] assms(2,3)
    by (intro informer_inv_fifo [OF assms(1)]) simp_all
  have p: "informer_inv (s\<lparr>fifo := ?f\<rparr>)"
    using informer_invD(1) [OF assms(1)] informer_plain [OF assms(1)]
    by (intro informer_inv_fifo [OF assms(1)]) simp_all
  have none: "pending (fifo s) (contents_of s) k = None"
    if "known_GetByKey (knownOf [] (indexer s)) k = Inr None" "df_items (fifo s) k = None"
    using that pending_empty [of "fifo s" k]
    by (simp add: knownOf_def cache_GetByKey_def tsm_Get_def contents_of_def)
  note defs = storeEvent_def df_Add_def df_Update_def df_Delete_def event_effect_def Let_def
  show "informer_inv (storeEvent t obj s)"
    using q p assms(1,3) by (cases t) (simp_all add: defs queueActionLocked_eq)
  show "indexer (storeEvent t obj s) = indexer s"
    by (cases t) (simp_all add: defs)
  show "pending (fifo (storeEvent t obj s)) (contents_of (storeEvent t obj s)) =
      event_effect t obj k (pending (fifo s) (contents_of s))"
    using assms(3) none
    by (cases t) (auto simp: defs queueActionLocked_eq pending_queued fun_upd_idem_iff)
qed

lemma known_GetByKey_of [simp]: "known_GetByKey (knownOf ord (indexer s)) k = Inr (contents_of s k)"
  by (simp add: knownOf_def cache_GetByKey_def tsm_Get_def contents_of_def)

lemma known_ListKeys_of:
  "range_keys ord (contents_of s) \<Longrightarrow> known_ListKeys (knownOf ord (indexer s)) = ord"
  by (auto simp: knownOf_def cache_ListKeys_def tsm_ListKeys_def contents_of_def range_keys_def filter_id_conv)

text \<open>A resync queues the objects of the indexer, which changes nothing but the queue.\<close>

lemma resyncLoop_spec:
  assumes "informer_inv s" and "fifo_inv f" and "plain_fifo f" and "df_keyFunc f = df_keyFunc (fifo s)"
  shows "\<exists>f'. resyncLoop (knownOf ord (indexer s)) ks f = (None, f') \<and> informer_inv (s\<lparr>fifo := f'\<rparr>)
    \<and> pending f' (contents_of s) = pending f (contents_of s)"
  using assms(2-4)
proof (induction ks arbitrary: f)
  case Nil
  then show ?case using informer_inv_fifo [OF assms(1)] by simp
next
  case (Cons k ks)
  have KeyOf: "KeyOf f = KeyOf (fifo s)" using Cons.prems(3) by (rule KeyOf_cong)
  show ?case
  proof (cases "contents_of s k")
    case None
    with Cons show ?thesis by (simp add: syncKeyLocked_def)
  next
    case (Some obj)
    note obj = informer_invD(6,7) [OF assms(1) Some]
    show ?thesis
    proof (cases "deltasOf f k = []")
      case False
      with Cons Some obj(2) KeyOf show ?thesis by (simp add: syncKeyLocked_def)
    next
      case True
      let ?f = "queued Sync obj k f"
      have sync: "syncKeyLocked (knownOf ord (indexer s)) k f = (None, ?f)"
        using Some obj(2) KeyOf True by (simp add: syncKeyLocked_def queueActionLocked_eq)
      have "fifo_inv ?f" "plain_fifo ?f" "df_keyFunc ?f = df_keyFunc (fifo s)"
        using queued_inv [OF Cons.prems(1)] plain_queued [OF Cons.prems(2) obj(1)] obj(2) KeyOf Cons.prems(3)
        by simp_all
      from Cons.IH [OF this] obtain f' where f': "resyncLoop (knownOf ord (indexer s)) ks ?f = (None, f')"
        "informer_inv (s\<lparr>fifo := f'\<rparr>)" "pending f' (contents_of s) = pending ?f (contents_of s)"
        by blast
      have "pending f (contents_of s) k = Some obj" using True Some by (simp add: pending_def)
      then have "pending ?f (contents_of s) = pending f (contents_of s)"
        by (simp add: pending_queued fun_upd_idem)
      with f' sync show ?thesis by simp
    qed
  qed
qed

lemma informer_Resync_spec:
  assumes "informer_inv s"
  shows "\<exists>s'. informer_Resync ord s = (None, s') \<and> informer_inv s' \<and> indexer s' = indexer s
    \<and> pending (fifo s') (contents_of s') = pending (fifo s) (contents_of s)"
proof -
  from resyncLoop_spec [OF assms informer_invD(1) [OF assms] informer_plain [OF assms] refl]
  obtain f' where f': "resyncLoop (knownOf ord (indexer s)) (known_ListKeys (knownOf ord (indexer s))) (fifo s) = (None, f')"
    "informer_inv (s\<lparr>fifo := f'\<rparr>)" "pending f' (contents_of s) = pending (fifo s) (contents_of s)"
    by blast
  then show ?thesis
    by (intro exI [of _ "s\<lparr>fifo := f'\<rparr>"]) (simp add: informer_Resync_def df_Resync_def)
qed

text \<open>
  A relist that the queue can follow: no listed object has a queued deletion as its last change, and
  every queued key is listed or held by the indexer.
\<close>

definition relist_safe :: "'a obj list \<Rightarrow> 'a sharedIndexInformer \<Rightarrow> bool" where
  "relist_safe list s \<longleftrightarrow>
     (\<forall>k \<in> dom (listed (KeyOf (fifo s)) list). \<not> willObjectBeDeletedLocked (fifo s) k) \<and>
     (\<forall>k \<in> dom (df_items (fifo s)). k \<in> dom (listed (KeyOf (fifo s)) list) \<or> contents_of s k \<noteq> None)"

lemma syncWith_spec:
  assumes "informer_inv s" and "has_keys (fifo s) list" and "\<forall>item \<in> set list. not_deltas item"
    and "range_keys ord (contents_of s)"
  shows "\<exists>s'. syncWith ord list s = (None, s') \<and> informer_inv s' \<and> indexer s' = indexer s
    \<and> (relist_safe list s \<longrightarrow> pending (fifo s') (contents_of s') = listed (KeyOf (fifo s)) list)"
proof -
  let ?ko = "knownOf ord (indexer s)"
  have keys: "set (known_ListKeys ?ko) = dom (contents_of s)"
    using known_ListKeys_of [OF assms(4)] assms(4) by (simp add: range_keys_def)
  note inv = informer_invD(1) [OF assms(1)]
  from df_Replace_eq [OF inv assms(2), of "[]" ?ko] obtain n f where
    r: "df_Replace [] (Some ?ko) list (fifo s) = (None, populate n f)" "fifo_inv f" "same_config (fifo s) f"
    "\<forall>base k. pending f base k =
         (case listed (KeyOf (fifo s)) list k of
            Some obj \<Rightarrow> if willObjectBeDeletedLocked (fifo s) k then None else Some obj
          | None \<Rightarrow> if k \<in> dom (contents_of s) then None else pending (fifo s) base k)"
    unfolding keys by auto
  have "plain_fifo (populate n f)"
    using plain_Replace [OF informer_plain [OF assms(1)] assms(3), of "[]" ?ko] r(1) by simp
  then have "informer_inv (s\<lparr>fifo := populate n f\<rparr>)"
    using r(2,3) by (intro informer_inv_fifo [OF assms(1)]) (simp_all add: populate_def same_config_def)
  moreover have "pending f (contents_of s) k = listed (KeyOf (fifo s)) list k" if safe: "relist_safe list s" for k
  proof (cases "listed (KeyOf (fifo s)) list k")
    case None
    then have "df_items (fifo s) k = None \<or> k \<in> dom (contents_of s)"
      using safe unfolding relist_safe_def by (metis domIff)
    with None r(4) show ?thesis
      using pending_empty [of "fifo s" k "contents_of s"] by (auto simp: domIff)
  next
    case (Some obj)
    with safe have "\<not> willObjectBeDeletedLocked (fifo s) k" unfolding relist_safe_def by blast
    with Some r(4) show ?thesis by simp
  qed
  ultimately show ?thesis
    using r(1) by (intro exI [of _ "s\<lparr>fifo := populate n f\<rparr>"]) (simp add: syncWith_def fun_eq_iff)
qed

section \<open>Histories of an informer\<close>

text \<open>
  The runs of an informer together with the state of the cluster it was told: the empty map at the
  start, changed by every watch event and replaced by every relist.  Resyncs, the processing of
  deltas and new event handlers do not change what the informer was told.
\<close>

inductive informer_run ::
  "('a obj \<Rightarrow> string + string) \<Rightarrow> (string \<rightharpoonup> 'a obj IndexFunc) \<Rightarrow> 'a sharedIndexInformer \<Rightarrow> (string \<rightharpoonup> 'a obj) \<Rightarrow> bool"
  for kf :: "'a obj \<Rightarrow> string + string" and ixers :: "string \<rightharpoonup> 'a obj IndexFunc" where
  start: "informer_run kf ixers (NewSharedIndexInformer kf period ixers) Map.empty"
| event: "informer_run kf ixers s m \<Longrightarrow> not_deltas obj \<Longrightarrow> KeyOf (fifo s) obj = Inr k \<Longrightarrow>
    informer_run kf ixers (storeEvent t obj s) (event_effect t obj k m)"
| relist: "informer_run kf ixers s m \<Longrightarrow> has_keys (fifo s) list \<Longrightarrow> \<forall>item \<in> set list. not_deltas item \<Longrightarrow>
    range_keys ord (contents_of s) \<Longrightarrow> relist_safe list s \<Longrightarrow>
    informer_run kf ixers (snd (syncWith ord list s)) (listed (KeyOf (fifo s)) list)"
| resync: "informer_run kf ixers s m \<Longrightarrow> range_keys ord (contents_of s) \<Longrightarrow>
    informer_run kf ixers (snd (informer_Resync ord s)) m"
| process: "informer_run kf ixers s m \<Longrightarrow> (\<And>k. orders (cacheStorage (indexer s)) (ords k)) \<Longrightarrow>
    informer_run kf ixers (snd (processOne ords s)) m"
| handler: "informer_run kf ixers s m \<Longrightarrow>
    informer_run kf ixers (AddEventHandlerWithResyncPeriod now items desired s) m"
| shouldResync: "informer_run kf ixers s m \<Longrightarrow>
    informer_run kf ixers (s\<lparr>processor := snd (shouldResync now (processor s))\<rparr>) m"

lemma AddEventHandler_fields [simp]:
  "indexer (AddEventHandlerWithResyncPeriod now items period s) = indexer s"
  "fifo (AddEventHandlerWithResyncPeriod now items period s) = fifo s"
  by (simp_all add: AddEventHandlerWithResyncPeriod_def adjustedPeriod_def Let_def split: prod.split)

lemma informer_inv_cong:
  "indexer s' = indexer s \<Longrightarrow> fifo s' = fifo s \<Longrightarrow> informer_inv s' = informer_inv s"
  by (simp add: informer_inv_def contents_of_def)

lemma contents_cong: "indexer s' = indexer s \<Longrightarrow> contents_of s' = contents_of s"
  by (simp add: contents_of_def)

lemma pending_popped:
  assumes "df_queue f = key # q"
  shows "pending (popped key f) (base(key := pending f base key)) = pending f base"
  by (auto simp: pending_def popped_def deltasOf_def fun_eq_iff)

lemma processOne_idle: "df_queue (fifo s) = [] \<Longrightarrow> snd (processOne ords s) = s"
  by (simp add: processOne_def df_Pop_empty)

lemma processOne_pending:
  assumes "informer_inv s" and "\<And>k. orders (cacheStorage (indexer s)) (ords k)"
  shows "informer_inv (snd (processOne ords s))"
    and "pending (fifo (snd (processOne ords s))) (contents_of (snd (processOne ords s))) =
      pending (fifo s) (contents_of s)"
    and "indexers (cacheStorage (indexer (snd (processOne ords s)))) = indexers (cacheStorage (indexer s))"
    and "df_queue (fifo (snd (processOne ords s))) = tl (df_queue (fifo s))"
proof -
  have "informer_inv (snd (processOne ords s))
    \<and> pending (fifo (snd (processOne ords s))) (contents_of (snd (processOne ords s))) =
      pending (fifo s) (contents_of s)
    \<and> indexers (cacheStorage (indexer (snd (processOne ords s)))) = indexers (cacheStorage (indexer s))
    \<and> df_queue (fifo (snd (processOne ords s))) = tl (df_queue (fifo s))"
  proof (cases "df_queue (fifo s)")
    case Nil
    then show ?thesis using assms(1) processOne_idle [OF Nil] by simp
  next
    case (Cons key q)
    from processOne_spec [of s ords, OF assms Cons] obtain item s' where
      "processOne ords s = (Popped item None, s')" "informer_inv s'" "fifo s' = popped key (fifo s)"
      "indexers (cacheStorage (indexer s')) = indexers (cacheStorage (indexer s))"
      "contents_of s' = (contents_of s)(key := pending (fifo s) (contents_of s) key)"
      by blast
    with pending_popped [OF Cons, of "contents_of s"] show ?thesis by (simp add: popped_def)
  qed
  then show "informer_inv (snd (processOne ords s))"
    and "pending (fifo (snd (processOne ords s))) (contents_of (snd (processOne ords s))) =
      pending (fifo s) (contents_of s)"
    and "indexers (cacheStorage (indexer (snd (processOne ords s)))) = indexers (cacheStorage (indexer s))"
    and "df_queue (fifo (snd (processOne ords s))) = tl (df_queue (fifo s))"
    by simp_all
qed

lemma informer_inv_new:
  "total_indexers ixers \<Longrightarrow> informer_inv (NewSharedIndexInformer kf period ixers)"
  by (simp add: informer_inv_def NewSharedIndexInformer_def NewIndexer_def contents_of_def
      new_fifo_inv store_inv_new) (simp add: NewThreadSafeStore_def NewDeltaFIFO_def)

lemma informer_run_inv:
  assumes "informer_run kf ixers s m" and "total_indexers ixers"
  shows "informer_inv s \<and> pending (fifo s) (contents_of s) = m"
  using assms(1)
proof induction
  case (start period)
  have "pending (NewDeltaFIFO kf) Map.empty = Map.empty"
    by (simp add: pending_def deltasOf_def NewDeltaFIFO_def fun_eq_iff)
  then show ?case using informer_inv_new [OF assms(2)]
    by (simp add: NewSharedIndexInformer_def NewIndexer_def NewThreadSafeStore_def contents_of_def)
next
  case (event s m obj k t)
  then show ?case using storeEvent_spec [of s obj k t] by simp
next
  case (relist s m list ord)
  then show ?case using syncWith_spec [of s list ord] by auto
next
  case (resync s m ord)
  then show ?case using informer_Resync_spec [of s ord] by auto
next
  case (process s m ords)
  then show ?case using processOne_pending [of s ords] by simp
next
  case (handler s m now items desired)
  then show ?case
    using informer_inv_cong [of "AddEventHandlerWithResyncPeriod now items desired s" s]
      contents_cong [of "AddEventHandlerWithResyncPeriod now items desired s" s] by simp
next
  case (shouldResync s m now)
  then show ?case
    using informer_inv_cong [of "s\<lparr>processor := snd (shouldResync now (processor s))\<rparr>" s]
      contents_cong [of "s\<lparr>processor := snd (shouldResync now (processor s))\<rparr>" s] by simp
qed

text \<open>Turns of the processing loop, without new events.\<close>

fun processAll :: "(nat \<Rightarrow> nat \<Rightarrow> range_orders) \<Rightarrow> nat \<Rightarrow> 'a sharedIndexInformer \<Rightarrow> 'a sharedIndexInformer" where
  "processAll ords 0 s = s"
| "processAll ords (Suc n) s = processAll ords n (snd (processOne (ords n) s))"

lemma processAll_drains:
  assumes "informer_inv s" and "\<And>n k. orders (cacheStorage (indexer s)) (ords n k)"
    and "length (df_queue (fifo s)) = n"
  shows "df_queue (fifo (processAll ords n s)) = []
    \<and> contents_of (processAll ords n s) = pending (fifo s) (contents_of s)"
  using assms
proof (induction n arbitrary: s)
  case 0
  then have "dom (df_items (fifo s)) = {}"
    using fifo_invD(2) [OF informer_invD(1) [OF 0(1)]] by simp
  then have "df_items (fifo s) = Map.empty" by simp
  then have "pending (fifo s) (contents_of s) = contents_of s"
    by (simp add: fun_eq_iff pending_empty)
  with 0(3) show ?case by simp
next
  case (Suc n)
  note p = processOne_pending [of s "ords n", OF Suc.prems(1,2)]
  have "orders (cacheStorage (indexer (snd (processOne (ords n) s)))) (ords m k)" for m k
    using Suc.prems(2) p(3) by (simp add: orders_def)
  with Suc.IH [OF p(1)] p(2,4) Suc.prems(3) show ?case by simp
qed

section \<open>Properties of the informer\<close>

text \<open>C10. Whatever watch events, resyncs, event handlers and processing turns an informer goes
  through, in any interleaving, and whatever relists it gets that its queue can follow, the queue
  leads to the state of the cluster it was told; and after as many further processing turns as there
  are queued keys the queue is empty and the indexer holds exactly this state.\<close>

theorem informer_converges:
  assumes "informer_run kf ixers s m" and "total_indexers ixers"
    and "\<And>n k. orders (cacheStorage (indexer s)) (ords n k)"
  shows "let s' = processAll ords (length (df_queue (fifo s))) s
    in df_queue (fifo s') = [] \<and> (\<forall>k. cache_GetByKey (indexer s') k = Inr (m k))"
proof -
  note run = informer_run_inv [OF assms(1,2)]
  show ?thesis
    using processAll_drains [of s ords, OF conjunct1 [OF run] assms(3) refl] run
    by (simp add: Let_def cache_GetByKey_def tsm_Get_def contents_of_def)
qed

theorem informer_converges_witness:
  "let s = storeEvent WatchAdded (Plain ''pod'') (NewSharedIndexInformer plain_key 0 Map.empty);
       s' = processAll (\<lambda>n k j. []) (length (df_queue (fifo s))) s
   in df_queue (fifo s') = [] \<and> cache_GetByKey (indexer s') ''p'' = Inr (Some (Plain ''pod''))"
proof -
  let ?s0 = "NewSharedIndexInformer plain_key 0 Map.empty"
  let ?s = "storeEvent WatchAdded (Plain ''pod'') ?s0"
  let ?m = "event_effect WatchAdded (Plain ''pod'') ''p'' Map.empty"
  have run: "informer_run plain_key Map.empty ?s ?m"
    by (rule informer_run.event [OF informer_run.start])
      (simp_all add: not_deltas_def NewSharedIndexInformer_def NewDeltaFIFO_def KeyOf_def keyOfPlain_def
        plain_key_def)
  have ord: "orders (cacheStorage (indexer ?s)) (\<lambda>j. [])"
    by (simp add: orders_def storeEvent_def NewSharedIndexInformer_def NewIndexer_def NewThreadSafeStore_def)
  have total: "total_indexers Map.empty" by (simp add: total_indexers_def)
  from informer_converges [OF run total ord] show ?thesis by (simp add: Let_def event_effect_def)
qed

text \<open>What a listener knows after a sequence of notifications.\<close>

fun noted :: "('a obj \<Rightarrow> string + string) \<Rightarrow> 'a notification \<Rightarrow> (string \<rightharpoonup> 'a obj) \<Rightarrow> (string \<rightharpoonup> 'a obj)" where
  "noted kf (updateNotification old new) m = (case kf new of Inr k \<Rightarrow> m(k \<mapsto> new) | Inl e \<Rightarrow> m)"
| "noted kf (addNotification new) m = (case kf new of Inr k \<Rightarrow> m(k \<mapsto> new) | Inl e \<Rightarrow> m)"
| "noted kf (deleteNotification old) m = (case kf old of Inr k \<Rightarrow> m(k := None) | Inl e \<Rightarrow> m)"

definition view :: "('a obj \<Rightarrow> string + string) \<Rightarrow> 'a processorListener \<Rightarrow> string \<rightharpoonup> 'a obj" where
  "view kf l = fold (noted kf) (addCh l) Map.empty"

lemma addAll_length [simp]: "length (addAll n is ls) = length ls"
  by (induction "is" arbitrary: ls) simp_all

lemma addAll_nth:
  "distinct is \<Longrightarrow> j < length ls \<Longrightarrow> addAll n is ls ! j = (if j \<in> set is then listener_add n (ls ! j) else ls ! j)"
proof (induction "is" arbitrary: ls)
  case (Cons i "is")
  then show ?case by (cases "i = j") auto
qed simp

lemma distribute_nth:
  assumes "distinct (syncingListeners p)" and "j < length (listeners p)"
    and "sync \<longrightarrow> j \<in> set (syncingListeners p)"
  shows "listeners (distribute n sync p) ! j = listener_add n (listeners p ! j)"
  using assms by (simp add: distribute_def addAll_nth)

lemma distribute_fields [simp]:
  "length (listeners (distribute n sync p)) = length (listeners p)"
  "syncingListeners (distribute n sync p) = syncingListeners p"
  by (simp_all add: distribute_def)

lemma view_add: "view kf (listener_add n l) = noted kf n (view kf l)"
  by (simp add: view_def listener_add_def)

lemma noted_notification_of:
  "kf (delta_Object d) = Inr k \<Longrightarrow> noted kf (notification_of d old) m = m(k := effect d old)"
  by (simp add: notification_of_def effect_def split: option.split)

lemma HandleDeltas_views:
  assumes "store_inv (cacheStorage (indexer s))" and "total_indexers (indexers (cacheStorage (indexer s)))"
    and "\<And>k. orders (cacheStorage (indexer s)) (ords k)"
    and "\<And>d. d \<in> set ds \<Longrightarrow> keyFunc (indexer s) (delta_Object d) = Inr key"
    and "distinct (syncingListeners (processor s))" and "j < length (listeners (processor s))"
    and "(\<forall>d \<in> set ds. delta_Type d \<noteq> Sync) \<or> j \<in> set (syncingListeners (processor s))"
    and "view (keyFunc (indexer s)) (listeners (processor s) ! j) = contents_of s"
    and "HandleDeltas ords ds s = Inr (err, s')"
  shows "view (keyFunc (indexer s)) (listeners (processor s') ! j) = contents_of s'"
  using assms
proof (induction ds arbitrary: ords s)
  case (Cons d ds)
  let ?st = "(if delta_Type d = Deleted then removed key else stored key (delta_Object d))"
  let ?c = "?st (cacheStorage (indexer s))"
  define s1 where "s1 = s\<lparr>indexer := (indexer s)\<lparr>cacheStorage := ?c\<rparr>,
      processor := distribute (notification_of d (contents_of s key)) (delta_Type d = Sync) (processor s)\<rparr>"
  have kd: "keyFunc (indexer s) (delta_Object d) = Inr key" using Cons.prems(4) by simp
  have step: "handleDelta (ords 0) d s = Inr (None, s1)"
    unfolding s1_def by (rule handleDelta_eq [OF Cons.prems(1-3) kd])
  have inv: "store_inv ?c"
    using store_inv_removed [OF Cons.prems(1)] store_inv_stored [OF Cons.prems(1)]
      total_indexable [OF Cons.prems(2)] by simp
  have ixs: "indexers ?c = indexers (cacheStorage (indexer s))" by simp
  have "delta_Type d = Sync \<longrightarrow> j \<in> set (syncingListeners (processor s))" using Cons.prems(7) by auto
  then have "listeners (processor s1) ! j = listener_add (notification_of d (contents_of s key)) (listeners (processor s) ! j)"
    using distribute_nth [OF Cons.prems(5,6)] by (simp add: s1_def)
  then have "view (keyFunc (indexer s)) (listeners (processor s1) ! j) = (contents_of s)(key := effect d (contents_of s key))"
    using Cons.prems(8) kd by (simp add: view_add noted_notification_of)
  moreover have "contents_of s1 = (contents_of s)(key := effect d (contents_of s key))"
    by (simp add: s1_def contents_of_def effect_def)
  ultimately have view: "view (keyFunc (indexer s)) (listeners (processor s1) ! j) = contents_of s1" by simp
  have same: "cacheStorage (indexer s1) = ?c" "keyFunc (indexer s1) = keyFunc (indexer s)"
    "syncingListeners (processor s1) = syncingListeners (processor s)"
    "length (listeners (processor s1)) = length (listeners (processor s))"
    by (simp_all add: s1_def)
  have rest: "HandleDeltas (\<lambda>k. ords (k + 1)) ds s1 = Inr (err, s')"
    using Cons.prems(9) step by simp
  have "orders (cacheStorage (indexer s1)) (ords (k + 1))" for k
    using Cons.prems(3) [of "k + 1"] ixs by (simp add: orders_def same(1))
  moreover have "(\<forall>d \<in> set ds. delta_Type d \<noteq> Sync) \<or> j \<in> set (syncingListeners (processor s))"
    using Cons.prems(7) by auto
  ultimately show ?case
    using Cons.IH [OF _ _ _ _ _ _ _ _ rest] inv ixs same view Cons.prems(2,4-6) by simp
qed simp

text \<open>C16. HandleDeltas keeps a listener up to date: a listener whose notifications add up to the
  contents of the indexer, and that is a syncing listener or gets no Sync delta, has notifications
  that add up to the contents of the indexer afterwards.\<close>

theorem HandleDeltas_notifies:
  assumes "informer_inv s" and "\<And>k. orders (cacheStorage (indexer s)) (ords k)"
    and "df_items (fifo s) key = Some ds"
    and "distinct (syncingListeners (processor s))" and "j < length (listeners (processor s))"
    and "(\<forall>d \<in> set ds. delta_Type d \<noteq> Sync) \<or> j \<in> set (syncingListeners (processor s))"
    and "view (keyFunc (indexer s)) (listeners (processor s) ! j) = contents_of s"
  shows "\<exists>s'. HandleDeltas ords ds s = Inr (None, s')
    \<and> view (keyFunc (indexer s)) (listeners (processor s') ! j) = contents_of s'
    \<and> contents_of s' key = pending (fifo s) (contents_of s) key"
proof -
  note inv = informer_invD [OF assms(1)]
  have kd: "keyFunc (indexer s) (delta_Object d) = Inr key" if "d \<in> set ds" for d
    using fifo_invD(4) [OF inv(1) assms(3) that] inv(5) [OF assms(3) that]
    by (simp add: inv(4) flip: KeyOf_keyFunc)
  from HandleDeltas_spec [of s ords ds key, OF inv(2,3) assms(2) kd] obtain s' where
    s': "HandleDeltas ords ds s = Inr (None, s')"
    "contents_of s' = (contents_of s)(key := fold effect ds (contents_of s key))"
    by blast
  have "view (keyFunc (indexer s)) (listeners (processor s') ! j) = contents_of s'"
    using HandleDeltas_views [of s ords ds key j None s', OF inv(2,3) assms(2) kd assms(4-7) s'(1)] .
  with s' assms(3) show ?thesis by (auto simp: pending_def deltasOf_def)
qed

text \<open>An informer with one listener that wants no resync, and an informer with a queued pod.\<close>

definition one_listener :: "string sharedIndexInformer" where
  "one_listener = AddEventHandlerWithResyncPeriod 0 [] 0 (NewSharedIndexInformer plain_key 60000000000 Map.empty)"

theorem HandleDeltas_notifies_witness:
  "\<exists>s'. HandleDeltas (\<lambda>k n. []) [Delta Added (Plain ''pod'')] (storeEvent WatchAdded (Plain ''pod'') one_listener)
      = Inr (None, s') \<and> contents_of s' ''p'' = Some (Plain ''pod'')"
proof -
  let ?s = "storeEvent WatchAdded (Plain ''pod'') one_listener"
  have "informer_inv one_listener"
    using informer_inv_new [of Map.empty plain_key 60000000000]
    unfolding one_listener_def by (subst informer_inv_cong) (simp_all add: total_indexers_def)
  moreover have key: "KeyOf (fifo one_listener) (Plain ''pod'') = Inr ''p''"
    by (simp add: one_listener_def NewSharedIndexInformer_def NewDeltaFIFO_def KeyOf_def keyOfPlain_def plain_key_def)
  ultimately have inv: "informer_inv ?s"
    by (intro storeEvent_spec(1) [where k = "''p''"]) (simp_all add: not_deltas_def)
  have s: "cacheStorage (indexer ?s) = NewThreadSafeStore Map.empty Map.empty"
    "df_items (fifo ?s) = [''p'' \<mapsto> [Delta Added (Plain ''pod'')]]"
    "syncingListeners (processor ?s) = [0]" "length (listeners (processor ?s)) = 1"
    "addCh (listeners (processor ?s) ! 0) = []"
    by (simp_all add: storeEvent_def one_listener_def NewSharedIndexInformer_def NewIndexer_def
        df_Add_def queueActionLocked_def KeyOf_def keyOfPlain_def plain_key_def NewDeltaFIFO_def deltasOf_def
        AddEventHandlerWithResyncPeriod_def adjustedPeriod_def addListener_def newProcessListener_def
        determineNextResync_def Let_def)
  have "orders (cacheStorage (indexer ?s)) (\<lambda>n. [])"
    by (simp add: s(1) orders_def NewThreadSafeStore_def)
  moreover have "contents_of ?s = Map.empty"
    by (simp add: contents_of_def s(1) NewThreadSafeStore_def)
  ultimately show ?thesis
    using HandleDeltas_notifies [OF inv, of "\<lambda>k n. []" "''p''" "[Delta Added (Plain ''pod'')]" 0] s
    by (auto simp: view_def pending_def deltasOf_def effect_def)
qed

lemma card_listed:
  assumes "distinct (map kf list)" and "\<forall>item \<in> set list. \<exists>k. kf item = Inr k"
  shows "card (dom (listed kf list)) = length list"
proof -
  have "dom (listed kf list) = projr ` set (map kf list)"
    using assms(2) unfolding listed_dom by force
  moreover have "inj_on projr (set (map kf list))"
    using assms(2) by (auto intro!: inj_onI) (metis Inr_inject sum.sel(2))
  ultimately show ?thesis
    using distinct_card [OF assms(1)] by (simp add: card_image)
qed

lemma card_listed_le: "card (dom (listed kf list)) \<le> length list"
proof -
  have "dom (listed kf list) \<subseteq> projr ` set (map kf list)"
    unfolding listed_dom by (auto simp: image_iff) (metis sum.sel(2))
  then have "card (dom (listed kf list)) \<le> card (set (map kf list))"
    by (meson List.finite_set card_image_le card_mono finite_imageI le_trans)
  with card_length [of "map kf list"] show ?thesis by simp
qed

section \<open>The first list\<close>

text \<open>
  The runs of an informer after its first list, together with the keys the controller has popped and
  handled, in order: event handlers may be there before the list, and watch events, further lists,
  resyncs, processing turns and new handlers follow in any order.
\<close>

inductive synced_run ::
  "('a obj \<Rightarrow> string + string) \<Rightarrow> (string \<rightharpoonup> 'a obj IndexFunc) \<Rightarrow> 'a obj list
     \<Rightarrow> 'a sharedIndexInformer \<Rightarrow> string list \<Rightarrow> bool"
  for kf :: "'a obj \<Rightarrow> string + string" and ixers :: "string \<rightharpoonup> 'a obj IndexFunc" and list :: "'a obj list" where
  first_list: "fifo s = NewDeltaFIFO kf \<Longrightarrow>
    indexer s = NewIndexer (DeletionHandlingMetaNamespaceKeyFunc kf) ixers \<Longrightarrow>
    synced_run kf ixers list (snd (syncWith [] list s)) []"
| event: "synced_run kf ixers list s ks \<Longrightarrow> not_deltas obj \<Longrightarrow> KeyOf (fifo s) obj = Inr k \<Longrightarrow>
    synced_run kf ixers list (storeEvent t obj s) ks"
| relist: "synced_run kf ixers list s ks \<Longrightarrow> has_keys (fifo s) items \<Longrightarrow> \<forall>item \<in> set items. not_deltas item \<Longrightarrow>
    range_keys ord (contents_of s) \<Longrightarrow> synced_run kf ixers list (snd (syncWith ord items s)) ks"
| resync: "synced_run kf ixers list s ks \<Longrightarrow> range_keys ord (contents_of s) \<Longrightarrow>
    synced_run kf ixers list (snd (informer_Resync ord s)) ks"
| process: "synced_run kf ixers list s ks \<Longrightarrow> (\<And>k. orders (cacheStorage (indexer s)) (ords k)) \<Longrightarrow>
    synced_run kf ixers list (snd (processOne ords s)) (ks @ take 1 (df_queue (fifo s)))"
| handler: "synced_run kf ixers list s ks \<Longrightarrow>
    synced_run kf ixers list (AddEventHandlerWithResyncPeriod now items desired s) ks"
| shouldResync: "synced_run kf ixers list s ks \<Longrightarrow>
    synced_run kf ixers list (s\<lparr>processor := snd (shouldResync now (processor s))\<rparr>) ks"

text \<open>The keys of the first list that still wait are the first keys of the queue, and their number is kept.\<close>

definition waiting_first :: "string list \<Rightarrow> nat \<Rightarrow> 'a sharedIndexInformer \<Rightarrow> string list \<Rightarrow> bool" where
  "waiting_first first n s ks \<longleftrightarrow> informer_inv s \<and> populated (fifo s)
     \<and> initialPopulationCount (fifo s) = n - length ks \<and> prefix first (ks @ df_queue (fifo s))"

lemma waiting_first_grows:
  assumes "waiting_first first n s ks" and "informer_inv s'" and "grows (fifo s) (fifo s')"
  shows "waiting_first first n s' ks"
proof -
  have "prefix (ks @ df_queue (fifo s)) (ks @ df_queue (fifo s'))"
    using assms(3) by (simp add: grows_def)
  with assms show ?thesis
    unfolding waiting_first_def grows_def by (metis prefix_order.trans)
qed

lemma storeEvent_grows: "grows (fifo s) (fifo (storeEvent t obj s))"
  by (cases t) (simp_all add: storeEvent_def grows_Add grows_Delete)

lemma syncWith_grows: "grows (fifo s) (fifo (snd (syncWith ord list s)))"
  using grows_Replace [of "fifo s"] by (simp add: syncWith_def case_prod_beta)

lemma informer_Resync_grows: "grows (fifo s) (fifo (snd (informer_Resync ord s)))"
  using grows_Resync [of "fifo s"] by (simp add: informer_Resync_def case_prod_beta)

lemma waiting_first_process:
  assumes "waiting_first first n s ks" and "\<And>k. orders (cacheStorage (indexer s)) (ords k)"
  shows "waiting_first first n (snd (processOne ords s)) (ks @ take 1 (df_queue (fifo s)))"
proof (cases "df_queue (fifo s)")
  case Nil
  with assms(1) processOne_idle [OF Nil] show ?thesis by simp
next
  case (Cons key q)
  have inv: "informer_inv s" using assms(1) by (simp add: waiting_first_def)
  from processOne_spec [of s ords, OF inv assms(2) Cons] obtain item s' where
    "processOne ords s = (Popped item None, s')" "informer_inv s'" "fifo s' = popped key (fifo s)"
    by blast
  with assms(1) Cons show ?thesis by (auto simp: waiting_first_def popped_def)
qed

lemma first_list_keys:
  assumes "has_keys (NewDeltaFIFO kf) list" and "known_ListKeys ko = []"
  shows "\<exists>f. df_Replace [] (Some ko) list (NewDeltaFIFO kf) = (None, f) \<and> populated f
    \<and> initialPopulationCount f = length list \<and> distinct (df_queue f)
    \<and> set (df_queue f) = dom (listed (KeyOf (NewDeltaFIFO kf)) list)"
proof -
  from df_Replace_eq [OF new_fifo_inv assms(1), of "[]" ko] assms(2) obtain f where
    f: "df_Replace [] (Some ko) list (NewDeltaFIFO kf) = (None, populate (length list) f)"
    "fifo_inv f" "same_config (NewDeltaFIFO kf) f" "dom (df_items f) = dom (listed (KeyOf (NewDeltaFIFO kf)) list)"
    by (auto simp: NewDeltaFIFO_def)
  then show ?thesis
    using fifo_invD(1,2) [OF f(2)]
    by (intro exI [of _ "populate (length list) f"]) (simp add: populate_def same_config_def NewDeltaFIFO_def)
qed

lemma synced_run_waiting:
  assumes "synced_run kf ixers list s ks" and "total_indexers ixers" and "has_keys (NewDeltaFIFO kf) list"
    and "\<forall>item \<in> set list. not_deltas item"
  shows "\<exists>first. distinct first \<and> set first = dom (listed (KeyOf (NewDeltaFIFO kf)) list)
    \<and> waiting_first first (length list) s ks"
  using assms(1)
proof induction
  case (first_list s)
  have c: "contents_of s = Map.empty"
    by (simp add: contents_of_def first_list(2) NewIndexer_def NewThreadSafeStore_def)
  have inv: "informer_inv s"
    using informer_inv_new [OF assms(2), of kf 0] informer_inv_cong [of s "NewSharedIndexInformer kf 0 ixers"]
      first_list by (simp add: NewSharedIndexInformer_def)
  have keys: "has_keys (fifo s) list" using assms(3) by (simp add: first_list(1))
  have "known_ListKeys (knownOf [] (indexer s)) = []"
    by (simp add: knownOf_def cache_ListKeys_def tsm_ListKeys_def)
  from first_list_keys [OF assms(3) this] obtain f where
    f: "df_Replace [] (Some (knownOf [] (indexer s))) list (NewDeltaFIFO kf) = (None, f)" "populated f"
    "initialPopulationCount f = length list" "distinct (df_queue f)"
    "set (df_queue f) = dom (listed (KeyOf (NewDeltaFIFO kf)) list)" by blast
  have "fifo (snd (syncWith [] list s)) = f" by (simp add: syncWith_def first_list(1) f(1))
  with syncWith_spec [OF inv keys assms(4), of "[]"] f c show ?case
    by (intro exI [of _ "df_queue f"]) (auto simp: waiting_first_def)
next
  case (event s ks obj k t)
  then show ?case using storeEvent_spec(1) [of s obj k t] waiting_first_grows storeEvent_grows
    unfolding waiting_first_def by metis
next
  case (relist s ks items ord)
  then have "informer_inv (snd (syncWith ord items s))"
    using syncWith_spec [of s items ord] by (auto simp: waiting_first_def)
  with relist.IH show ?case using waiting_first_grows [OF _ _ syncWith_grows] by blast
next
  case (resync s ks ord)
  then have "informer_inv (snd (informer_Resync ord s))"
    using informer_Resync_spec [of s ord] by (auto simp: waiting_first_def)
  with resync.IH show ?case using waiting_first_grows [OF _ _ informer_Resync_grows] by blast
next
  case (process s ks ords)
  then show ?case using waiting_first_process [of _ _ s ks ords] by blast
next
  case (handler s ks now items desired)
  then show ?case
    using informer_inv_cong [of "AddEventHandlerWithResyncPeriod now items desired s" s]
    by (simp add: waiting_first_def)
next
  case (shouldResync s ks now)
  then show ?case
    using informer_inv_cong [of "s\<lparr>processor := snd (shouldResync now (processor s))\<rparr>" s]
    by (simp add: waiting_first_def)
qed

text \<open>C18. An informer has synced when the objects of its first list are processed: whatever watch
  events, further lists, resyncs, handlers and processing turns follow the first list, in any order,
  HasSynced says that the controller has handled as many keys as the first list has objects, and then
  every object of the first list was handled; when these have different keys, HasSynced says exactly that
  all of them were handled, and with a repeated key it is late, as the count is that of the objects.\<close>

theorem HasSynced_correct:
  assumes "synced_run kf ixers list s ks" and "total_indexers ixers" and "has_keys (NewDeltaFIFO kf) list"
    and "\<forall>item \<in> set list. not_deltas item"
  shows "(HasSynced (fifo s) \<longleftrightarrow> length list \<le> length ks)
    \<and> (HasSynced (fifo s) \<longrightarrow> dom (listed (KeyOf (NewDeltaFIFO kf)) list) \<subseteq> set ks)
    \<and> (distinct (map (KeyOf (NewDeltaFIFO kf)) list) \<longrightarrow>
        (HasSynced (fifo s) \<longleftrightarrow> dom (listed (KeyOf (NewDeltaFIFO kf)) list) \<subseteq> set ks))"
proof -
  let ?K = "dom (listed (KeyOf (NewDeltaFIFO kf)) list)"
  from synced_run_waiting [OF assms] obtain first where
    first: "distinct first" "set first = ?K" "waiting_first first (length list) s ks" by blast
  have synced: "HasSynced (fifo s) \<longleftrightarrow> length list \<le> length ks"
    using first(3) by (auto simp: waiting_first_def HasSynced_def)
  have "length first \<le> length list"
    using distinct_card [OF first(1)] card_listed_le [of "KeyOf (NewDeltaFIFO kf)" list] first(2) by simp
  then have handled: "?K \<subseteq> set ks" if "length list \<le> length ks"
    using that first(2,3) prefix_length_prefix [of first "ks @ df_queue (fifo s)" ks] set_mono_prefix [of first ks]
    by (simp add: waiting_first_def)
  have "length list \<le> length ks" if "?K \<subseteq> set ks" "distinct (map (KeyOf (NewDeltaFIFO kf)) list)"
  proof -
    have "length list = card ?K"
      using card_listed [OF that(2)] assms(3) by (simp add: has_keys_def)
    also have "\<dots> \<le> length ks" using that(1) card_length [of ks] card_mono [of "set ks" ?K] by simp
    finally show ?thesis .
  qed
  with synced handled show ?thesis by blast
qed

theorem HasSynced_correct_witness:
  "let s = snd (processOne (\<lambda>k j. []) (snd (syncWith [] [Plain ''pod'', Plain ''pv''] one_listener)))
   in df_queue (fifo s) = [] \<and> \<not> HasSynced (fifo s)"
proof -
  let ?list = "[Plain ''pod'', Plain ''pv'']"
  let ?s = "snd (syncWith [] ?list one_listener)"
  have "synced_run plain_key Map.empty ?list ?s []"
    by (rule synced_run.first_list) (simp_all add: one_listener_def NewSharedIndexInformer_def)
  moreover have "orders (cacheStorage (indexer ?s)) (\<lambda>j. [])"
    by (simp add: orders_def syncWith_def one_listener_def NewSharedIndexInformer_def NewIndexer_def
        NewThreadSafeStore_def split: prod.split)
  moreover have q: "df_queue (fifo ?s) = [''p'']" by code_simp
  ultimately have "synced_run plain_key Map.empty ?list (snd (processOne (\<lambda>k j. []) ?s)) [''p'']"
    using synced_run.process [of plain_key Map.empty ?list ?s "[]" "\<lambda>k j. []"] by simp
  from HasSynced_correct [OF this] have "\<not> HasSynced (fifo (snd (processOne (\<lambda>k j. []) ?s)))"
    by (simp add: total_indexers_def has_keys_def not_deltas_def NewDeltaFIFO_def KeyOf_def keyOfPlain_def
        plain_key_def)
  moreover have "df_queue (fifo (snd (processOne (\<lambda>k j. []) ?s))) = []" by code_simp
  ultimately show ?thesis by (simp add: Let_def)
qed

section \<open>Listeners without a resync period\<close>

lemma resyncScan_idle:
  assumes "resyncScan now i ls = (needed, syncing, ls')"
  shows "length ls' = length ls \<and> (\<forall>x \<in> set syncing. i \<le> x)
    \<and> (\<forall>j < length ls. resyncPeriod (ls ! j) = 0 \<longrightarrow> i + j \<notin> set syncing \<and> ls' ! j = ls ! j)"
  using assms
proof (induction ls arbitrary: i needed syncing ls')
  case (Cons l ls)
  obtain n sy l' where scan: "resyncScan now (i + 1) ls = (n, sy, l')" by (metis prod_cases3)
  note IH = Cons.IH [OF scan]
  have tail: "i + Suc j \<notin> set sy \<and> l' ! j = ls ! j" if "j < length ls" "resyncPeriod (ls ! j) = 0" for j
    using IH that by simp
  have low: "Suc i \<le> x \<and> i \<le> x" if "x \<in> set sy" for x using IH that by (simp add: Suc_le_eq less_imp_le)
  have head: "i \<notin> set sy" using low [of i] by auto
  show ?case
  proof (cases "listener_shouldResync now l")
    case True
    then have "resyncPeriod l \<noteq> 0" by (simp add: listener_shouldResync_def split: if_splits)
    with True Cons.prems scan IH tail low show ?thesis
      by (auto simp: nth_Cons' gr0_conv_Suc)
  next
    case False
    with Cons.prems scan IH tail low head show ?thesis
      by (auto simp: nth_Cons' gr0_conv_Suc)
  qed
qed simp

text \<open>What happens to the j-th listener when it hears of nothing but deletions.\<close>

definition only_deletes :: "nat \<Rightarrow> 'a sharedProcessor \<Rightarrow> 'a sharedProcessor \<Rightarrow> bool" where
  "only_deletes j p p' \<longleftrightarrow> syncingListeners p' = syncingListeners p
     \<and> length (listeners p') = length (listeners p)
     \<and> (\<exists>objs. addCh (listeners p' ! j) = addCh (listeners p ! j) @ map deleteNotification objs)"

lemma only_deletes_refl [simp]: "only_deletes j p p"
  by (auto simp: only_deletes_def intro: exI [of _ "[]"])

lemma only_deletes_trans: "only_deletes j p q \<Longrightarrow> only_deletes j q r \<Longrightarrow> only_deletes j p r"
  unfolding only_deletes_def by (metis append.assoc map_append)

lemma addAll_other: "j \<notin> set is \<Longrightarrow> addAll n is ls ! j = ls ! j"
  by (induction "is" arbitrary: ls) simp_all

lemma distribute_only_deletes:
  assumes "j < length (listeners p)" and "j \<notin> set (syncingListeners p)"
    and "sync \<or> n = deleteNotification obj"
  shows "only_deletes j p (distribute n sync p)"
proof (cases sync)
  case True
  with assms(2) show ?thesis
    by (auto simp: only_deletes_def distribute_def addAll_other intro: exI [of _ "[]"])
next
  case False
  with assms(1,3) show ?thesis
    by (auto simp: only_deletes_def distribute_def listener_add_def intro: exI [of _ "[obj]"])
qed

definition sync_or_delete :: "'a delta \<Rightarrow> bool" where
  "sync_or_delete d \<longleftrightarrow> delta_Type d = Sync \<or> delta_Type d = Deleted"

lemma handleDelta_only_deletes:
  assumes "j < length (listeners (processor s))" and "j \<notin> set (syncingListeners (processor s))"
    and "sync_or_delete d" and "handleDelta ord d s = Inr (err, s')"
  shows "only_deletes j (processor s) (processor s')"
proof -
  have st: "only_deletes j (processor s) (processor s')"
    if "stored_and_notified n sync s r = Inr (err, s')" "sync \<or> n = deleteNotification obj" for n sync r obj
    using that distribute_only_deletes [OF assms(1,2), of sync n obj]
    by (auto simp: stored_and_notified_def split: sum.splits option.splits prod.splits)
  show ?thesis
    using assms(3,4) st unfolding handleDelta_def Let_def sync_or_delete_def
    by (auto split: if_splits sum.splits option.splits)
qed

lemma HandleDeltas_only_deletes:
  assumes "j < length (listeners (processor s))" and "j \<notin> set (syncingListeners (processor s))"
    and "\<forall>d \<in> set ds. sync_or_delete d" and "HandleDeltas ords ds s = Inr (err, s')"
  shows "only_deletes j (processor s) (processor s')"
  using assms
proof (induction ds arbitrary: ords s)
  case (Cons d ds)
  obtain e s1 where step: "handleDelta (ords 0) d s = Inr (e, s1)"
    using Cons.prems(4) by (cases "handleDelta (ords 0) d s") auto
  have one: "only_deletes j (processor s) (processor s1)"
    using handleDelta_only_deletes [OF Cons.prems(1,2) _ step] Cons.prems(3) by simp
  show ?case
  proof (cases e)
    case None
    have "only_deletes j (processor s1) (processor s')"
      using Cons.prems one step None
      by (intro Cons.IH [where ords = "\<lambda>k. ords (k + 1)"]) (simp_all add: only_deletes_def)
    with one show ?thesis by (rule only_deletes_trans)
  next
    case (Some x)
    with Cons.prems(4) step one show ?thesis by simp
  qed
qed simp

definition sync_fifo :: "'a DeltaFIFO \<Rightarrow> bool" where
  "sync_fifo f \<longleftrightarrow> (\<forall>k ds. df_items f k = Some ds \<longrightarrow> (\<forall>d \<in> set ds. sync_or_delete d))"

lemma sync_queued:
  assumes "sync_fifo f" and "t = Sync \<or> t = Deleted"
  shows "sync_fifo (queued t obj key f)"
proof -
  have old: "d \<in> set (deltasOf f key) \<Longrightarrow> sync_or_delete d" for d
    using assms(1) by (cases "df_items f key") (auto simp: deltasOf_def sync_fifo_def)
  have new: "d \<in> set (dedupDeltas (deltasOf f key @ [Delta t obj])) \<Longrightarrow> sync_or_delete d" for d
  proof -
    assume "d \<in> set (dedupDeltas (deltasOf f key @ [Delta t obj]))"
    then have "d = Delta t obj \<or> d \<in> set (deltasOf f key)"
      using set_dedupDeltas [of "deltasOf f key" "Delta t obj"] by auto
    then show "sync_or_delete d" using old assms(2) by (auto simp: sync_or_delete_def)
  qed
  show ?thesis
  proof (cases "t = Sync \<and> willObjectBeDeletedLocked f key")
    case True
    with assms(1) show ?thesis by (simp add: queued_def)
  next
    case False
    then have "df_items (queued t obj key f) =
        (df_items f)(key \<mapsto> dedupDeltas (deltasOf f key @ [Delta t obj]))"
      by (auto simp: queued_def)
    with new assms(1) show ?thesis by (simp add: sync_fifo_def)
  qed
qed

lemma sync_Replace:
  assumes "sync_fifo f"
  shows "sync_fifo (snd (df_Replace ord (Some ko) list f))"
proof -
  have listed: "sync_fifo g \<Longrightarrow> sync_fifo (snd (replaceSync list keys g))" for g keys
    by (induction list arbitrary: keys g) (auto simp: queueActionLocked_eq sync_queued split: sum.split)
  have known: "sync_fifo g \<Longrightarrow> sync_fifo (snd (replaceKnown ko ks keys n g))" for ks keys n g
    by (induction ks arbitrary: n g) (auto simp: queueActionLocked_eq sync_queued Let_def)
  have pop: "sync_fifo (populate n g) = sync_fifo g" for n g by (simp add: sync_fifo_def populate_def)
  obtain r f' where sync: "replaceSync list {} f = (r, f')" by fastforce
  have "sync_fifo f'" using listed [OF assms, of "{}"] sync by simp
  then show ?thesis
    using known [of f'] by (simp add: df_Replace_def sync pop case_prod_beta split: sum.split)
qed

lemma processOne_only_deletes:
  assumes "informer_inv s" and "\<And>k. orders (cacheStorage (indexer s)) (ords k)"
    and "sync_fifo (fifo s)"
    and "j < length (listeners (processor s))" and "j \<notin> set (syncingListeners (processor s))"
  shows "only_deletes j (processor s) (processor (snd (processOne ords s)))
    \<and> sync_fifo (fifo (snd (processOne ords s)))"
proof (cases "df_queue (fifo s)")
  case Nil
  with assms(3) processOne_idle [OF Nil] show ?thesis by simp
next
  case (Cons key q)
  obtain item where item: "df_items (fifo s) key = Some item"
    by (rule queue_head [OF informer_invD(1) [OF assms(1)] Cons])
  have "\<forall>d \<in> set item. sync_or_delete d" using assms(3) item by (simp add: sync_fifo_def)
  then have "only_deletes j (processor s) (processor (snd (informerProcess ords item s)))"
    using HandleDeltas_only_deletes [OF assms(4,5), of item ords]
    by (auto simp: informerProcess_def split: sum.split)
  moreover have "processor (snd (processOne ords s)) = processor (snd (informerProcess ords item s))"
    using df_Pop_eq [OF Cons item, of "informerProcess ords" s]
    by (auto simp: processOne_def informerProcess_def split: sum.splits prod.splits)
  moreover from processOne_spec [of s ords, OF assms(1,2) Cons] have
    "fifo (snd (processOne ords s)) = popped key (fifo s)" by auto
  ultimately show ?thesis using assms(3) by (simp add: sync_fifo_def popped_def)
qed

lemma processAll_only_deletes:
  assumes "informer_inv s" and "\<And>n k. orders (cacheStorage (indexer s)) (ords n k)"
    and "sync_fifo (fifo s)"
    and "j < length (listeners (processor s))" and "j \<notin> set (syncingListeners (processor s))"
  shows "only_deletes j (processor s) (processor (processAll ords n s))"
  using assms
proof (induction n arbitrary: s)
  case (Suc n)
  note one = processOne_only_deletes [of s "ords n", OF Suc.prems(1,2,3,4,5)]
  note p = processOne_pending [of s "ords n", OF Suc.prems(1,2)]
  have "orders (cacheStorage (indexer (snd (processOne (ords n) s)))) (ords m k)" for m k
    using Suc.prems(2) p(3) by (simp add: orders_def)
  then have "only_deletes j (processor (snd (processOne (ords n) s))) (processor (processAll ords (Suc n) s))"
    using Suc.IH [OF p(1)] one Suc.prems(4,5) by (simp add: only_deletes_def)
  with one show ?case using only_deletes_trans by blast
qed simp

lemma idle_relist_safe:
  assumes "fifo_inv (fifo s)" and "df_queue (fifo s) = []"
  shows "df_items (fifo s) = Map.empty" and "relist_safe list s"
proof -
  show items: "df_items (fifo s) = Map.empty" 
    using fifo_invD(2) [OF assms(1)] assms(2) by (metis dom_eq_empty_conv list.set(1))
  then show "relist_safe list s"
    by (simp add: relist_safe_def willObjectBeDeletedLocked_def deltasOf_def)
qed

text \<open>C19. A listener that asked for no resync misses the changes a relist discovers: when an informer
  whose queue is empty has computed the listeners that need a resync, and a relist follows, then the
  processing of the relist brings every listed object into the indexer, new or changed, but the only
  notifications that go to this listener are deletions.\<close>

theorem relist_not_notified:
  assumes "informer_run kf ixers s m" and "total_indexers ixers" and "df_queue (fifo s) = []"
    and "has_keys (fifo s) list" and "\<forall>item \<in> set list. not_deltas item"
    and "range_keys ord (contents_of s)" and "\<And>n k. orders (cacheStorage (indexer s)) (ords n k)"
    and "j < length (listeners (processor s))" and "resyncPeriod (listeners (processor s) ! j) = 0"
  shows "let s1 = snd (syncWith ord list (s\<lparr>processor := snd (shouldResync now (processor s))\<rparr>));
             s' = processAll ords (length (df_queue (fifo s1))) s1
    in (\<forall>k. cache_GetByKey (indexer s') k = Inr (listed (KeyOf (fifo s)) list k)) \<and>
       (\<exists>objs. addCh (listeners (processor s') ! j) =
          addCh (listeners (processor s) ! j) @ map deleteNotification objs)"
proof -
  define s0 where "s0 = s\<lparr>processor := snd (shouldResync now (processor s))\<rparr>"
  define s1 where "s1 = snd (syncWith ord list s0)"
  have run0: "informer_run kf ixers s0 m" unfolding s0_def by (rule informer_run.shouldResync [OF assms(1)])
  have same: "fifo s0 = fifo s" "contents_of s0 = contents_of s" by (simp_all add: s0_def contents_of_def)
  have inv: "fifo_inv (fifo s0)" using informer_run_inv [OF run0 assms(2)] informer_invD(1) by blast
  note idle = idle_relist_safe [OF inv, unfolded same(1), OF assms(3)]
  have run1: "informer_run kf ixers s1 (listed (KeyOf (fifo s)) list)"
    using informer_run.relist [OF run0, of list ord] assms(4-6) idle_relist_safe(2) [OF inv] assms(3)
    by (simp add: same s1_def)
  note inv1 = informer_run_inv [OF run1 assms(2)]
  have fields: "indexer s1 = indexer s" "processor s1 = processor s0"
    by (simp_all add: s1_def s0_def syncWith_def case_prod_beta)
  have ords: "orders (cacheStorage (indexer s1)) (ords n k)" for n k using assms(7) fields(1) by simp
  have "sync_fifo (fifo s0)" using idle(1) same(1) by (simp add: sync_fifo_def)
  then have sync: "sync_fifo (fifo s1)"
    using sync_Replace by (simp add: s1_def syncWith_def case_prod_beta)
  obtain needed syncing ls' where scan: "resyncScan now 0 (listeners (processor s)) = (needed, syncing, ls')"
    by (metis prod_cases3)
  have p0: "syncingListeners (processor s0) = syncing" "listeners (processor s0) = ls'"
    by (simp_all add: s0_def shouldResync_def scan)
  have j: "j < length ls'" "j \<notin> set syncing" "ls' ! j = listeners (processor s) ! j"
    using resyncScan_idle [OF scan] assms(8,9) by auto
  have "only_deletes j (processor s0) (processor (processAll ords (length (df_queue (fifo s1))) s1))"
    using processAll_only_deletes [of s1 ords j, OF conjunct1 [OF inv1] ords sync] j p0 fields(2) by simp
  moreover have "contents_of (processAll ords (length (df_queue (fifo s1))) s1) = listed (KeyOf (fifo s)) list"
    using processAll_drains [of s1 ords, OF conjunct1 [OF inv1] ords refl] inv1 by simp
  ultimately show ?thesis
    unfolding Let_def s0_def [symmetric] s1_def [symmetric]
    using j(3) p0(2) by (simp add: only_deletes_def cache_GetByKey_def tsm_Get_def contents_of_def)
qed

theorem relist_not_notified_witness:
  "let s1 = snd (syncWith [] [Plain ''pod''] (one_listener\<lparr>processor := snd (shouldResync 1 (processor one_listener))\<rparr>));
       s' = processAll (\<lambda>n k j. []) (length (df_queue (fifo s1))) s1
   in cache_GetByKey (indexer s') ''p'' = Inr (Some (Plain ''pod'')) \<and>
      (\<exists>objs. addCh (listeners (processor s') ! 0) = map deleteNotification objs)"
proof -
  have run: "informer_run plain_key Map.empty one_listener Map.empty"
    unfolding one_listener_def by (intro informer_run.handler informer_run.start)
  have f: "fifo one_listener = NewDeltaFIFO plain_key" "contents_of one_listener = Map.empty"
    "indexers (cacheStorage (indexer one_listener)) = Map.empty"
    by (simp_all add: one_listener_def NewSharedIndexInformer_def contents_of_def NewIndexer_def NewThreadSafeStore_def)
  have l: "length (listeners (processor one_listener)) = 1" "resyncPeriod (listeners (processor one_listener) ! 0) = 0"
    "addCh (listeners (processor one_listener) ! 0) = []"
    by (simp_all add: one_listener_def NewSharedIndexInformer_def AddEventHandlerWithResyncPeriod_def
        adjustedPeriod_def addListener_def newProcessListener_def determineNextResync_def
        determineResyncPeriod_def Let_def)
  have key: "KeyOf (NewDeltaFIFO plain_key) (Plain ''pod'') = Inr ''p''"
    by (simp add: NewDeltaFIFO_def KeyOf_def keyOfPlain_def plain_key_def)
  have "total_indexers (Map.empty :: string \<rightharpoonup> string obj IndexFunc)" by (simp add: total_indexers_def)
  from relist_not_notified [OF run this, of "[Plain ''pod'']" "[]" "\<lambda>n k j. []" 0 1] key l f show ?thesis
    by (simp add: Let_def has_keys_def not_deltas_def orders_def NewDeltaFIFO_def)
qed

end
