(* ===== verification/Go_Heap.thy ===== *)
theory Go_Heap
  imports "HOL-Library.Multiset" K8s_Prelude
begin

text \<open>
  The binary heap of Go's standard package \<open>container/heap\<close>, which the delaying work queue, the cache
  heap of client-go and the scheduling queue build on.  The package works on anything that offers
  Len, Less, Swap, Push and Pop; here these operations are arguments of the algorithms, and their
  laws are the locale below, which every client interprets on its own data structure.
\<close>

section \<open>The algorithms\<close>

text \<open>In Go \<open>(j - 1) / 2\<close> is 0 for \<open>j = 0\<close>, as for natural numbers here.\<close>

function heap_up ::
  "('h \<Rightarrow> nat \<Rightarrow> nat \<Rightarrow> bool) \<Rightarrow> ('h \<Rightarrow> nat \<Rightarrow> nat \<Rightarrow> 'h) \<Rightarrow> nat \<Rightarrow> 'h \<Rightarrow> 'h" where
  "heap_up Less Swap j h =
     (let i = (j - 1) div 2
      in if i = j \<or> \<not> Less h j i then h
         else heap_up Less Swap i (Swap h i j))"
  by pat_completeness auto
termination by (relation "measure (\<lambda>(Less, Swap, j, h). j)") auto

text \<open>The result of the sift-down holds the position the element ended at.\<close>

function heap_down ::
  "('h \<Rightarrow> nat \<Rightarrow> nat \<Rightarrow> bool) \<Rightarrow> ('h \<Rightarrow> nat \<Rightarrow> nat \<Rightarrow> 'h) \<Rightarrow> nat \<Rightarrow> nat \<Rightarrow> 'h \<Rightarrow> nat \<times> 'h" where
  "heap_down Less Swap i n h =
     (let j1 = 2 * i + 1
      in if j1 \<ge> n then (i, h)
         else let j = (if j1 + 1 < n \<and> Less h (j1 + 1) j1 then j1 + 1 else j1)
              in if \<not> Less h j i then (i, h)
                 else heap_down Less Swap j n (Swap h i j))"
  by pat_completeness auto
termination by (relation "measure (\<lambda>(Less, Swap, i, n, h). n - i)") (auto split: if_splits)

declare heap_up.simps [simp del] heap_down.simps [simp del]

definition heap_Push ::
  "('h \<Rightarrow> nat) \<Rightarrow> ('h \<Rightarrow> nat \<Rightarrow> nat \<Rightarrow> bool) \<Rightarrow> ('h \<Rightarrow> nat \<Rightarrow> nat \<Rightarrow> 'h) \<Rightarrow> ('x \<Rightarrow> 'h \<Rightarrow> 'h)
     \<Rightarrow> 'x \<Rightarrow> 'h \<Rightarrow> 'h" where
  "heap_Push Len Less Swap Push x h = (let h' = Push x h in heap_up Less Swap (Len h' - 1) h')"

definition heap_Pop ::
  "('h \<Rightarrow> nat) \<Rightarrow> ('h \<Rightarrow> nat \<Rightarrow> nat \<Rightarrow> bool) \<Rightarrow> ('h \<Rightarrow> nat \<Rightarrow> nat \<Rightarrow> 'h) \<Rightarrow> ('h \<Rightarrow> 'r) \<Rightarrow> 'h \<Rightarrow> 'r" where
  "heap_Pop Len Less Swap Pop h =
     (let n = Len h - 1 in Pop (snd (heap_down Less Swap 0 n (Swap h 0 n))))"

definition heap_Fix ::
  "('h \<Rightarrow> nat) \<Rightarrow> ('h \<Rightarrow> nat \<Rightarrow> nat \<Rightarrow> bool) \<Rightarrow> ('h \<Rightarrow> nat \<Rightarrow> nat \<Rightarrow> 'h) \<Rightarrow> nat \<Rightarrow> 'h \<Rightarrow> 'h" where
  "heap_Fix Len Less Swap i h =
     (case heap_down Less Swap i (Len h) h of
        (j, h') \<Rightarrow> if j > i then h' else heap_up Less Swap i h')"

definition heap_Remove ::
  "('h \<Rightarrow> nat) \<Rightarrow> ('h \<Rightarrow> nat \<Rightarrow> nat \<Rightarrow> bool) \<Rightarrow> ('h \<Rightarrow> nat \<Rightarrow> nat \<Rightarrow> 'h) \<Rightarrow> ('h \<Rightarrow> 'r) \<Rightarrow> nat \<Rightarrow> 'h \<Rightarrow> 'r" where
  "heap_Remove Len Less Swap Pop i h =
     (let n = Len h - 1
      in if n \<noteq> i
         then (case heap_down Less Swap i n (Swap h i n) of
                 (j, h') \<Rightarrow> Pop (if j > i then h' else heap_up Less Swap i h'))
         else Pop h)"

text \<open>What no swap changes, no sift changes.\<close>

lemma heap_up_keeps:
  assumes "\<And>h i j. g (Swap h i j) = g h"
  shows "g (heap_up Less Swap j h) = g h"
proof (induction j arbitrary: h rule: less_induct)
  case (less j)
  then show ?case by (subst heap_up.simps) (auto simp: Let_def assms)
qed

lemma heap_down_keeps:
  assumes "\<And>h i j. g (Swap h i j) = g h"
  shows "g (snd (heap_down Less Swap i n h)) = g h"
proof (induction "n - i" arbitrary: i h rule: less_induct)
  case less
  then show ?case by (subst heap_down.simps) (auto simp: Let_def assms)
qed

lemma heap_Fix_keeps: "(\<And>h i j. g (Swap h i j) = g h) \<Longrightarrow> g (heap_Fix Len Less Swap i h) = g h"
  using heap_down_keeps [of g Swap Less i "Len h" h] heap_up_keeps [of g Swap Less i]
  by (simp add: heap_Fix_def case_prod_beta)

section \<open>The heap order on lists\<close>

definition swapped :: "'e list \<Rightarrow> nat \<Rightarrow> nat \<Rightarrow> 'e list" where
  "swapped xs i j = xs[i := xs ! j, j := xs ! i]"

lemma length_swapped [simp]: "length (swapped xs i j) = length xs"
  by (simp add: swapped_def)

lemma swapped_nth:
  "i < length xs \<Longrightarrow> j < length xs \<Longrightarrow> k < length xs \<Longrightarrow>
     swapped xs i j ! k = (if k = i then xs ! j else if k = j then xs ! i else xs ! k)"
  by (auto simp: swapped_def nth_list_update)

lemma mset_swapped: "i < length xs \<Longrightarrow> j < length xs \<Longrightarrow> mset (swapped xs i j) = mset xs"
  unfolding swapped_def by (cases "i = j") (simp_all add: mset_swap)

definition parent :: "nat \<Rightarrow> nat" where
  "parent k = (k - 1) div 2"

lemma parent_less: "0 < k \<Longrightarrow> parent k < k"
  by (simp add: parent_def)

lemma parent_le: "parent k \<le> k"
  by (simp add: parent_def)

lemma parent_iff: "0 < k \<Longrightarrow> parent k = i \<longleftrightarrow> k = 2 * i + 1 \<or> k = 2 * i + 2"
  by (auto simp: parent_def)

text \<open>A strict weak order: the elements that are not less than one another count as equal.\<close>

locale weak_order =
  fixes lt :: "'e \<Rightarrow> 'e \<Rightarrow> bool"
  assumes asym: "lt a b \<Longrightarrow> \<not> lt b a"
    and neg_trans: "\<not> lt a b \<Longrightarrow> \<not> lt b c \<Longrightarrow> \<not> lt a c"
begin

text \<open>The heap order on the first \<open>n\<close> positions, at one edge and everywhere.\<close>

definition edge :: "'e list \<Rightarrow> nat \<Rightarrow> bool" where
  "edge xs k \<longleftrightarrow> \<not> lt (xs ! k) (xs ! parent k)"

definition heap_to :: "nat \<Rightarrow> 'e list \<Rightarrow> bool" where
  "heap_to n xs \<longleftrightarrow> (\<forall>k. 0 < k \<longrightarrow> k < n \<longrightarrow> edge xs k)"

text \<open>Around a position: the children are not less than the parent of the position.\<close>

definition bridged :: "nat \<Rightarrow> 'e list \<Rightarrow> nat \<Rightarrow> bool" where
  "bridged n xs i \<longleftrightarrow> (\<forall>k. 0 < k \<longrightarrow> k < n \<longrightarrow> parent k = i \<longrightarrow> 0 < i \<longrightarrow> \<not> lt (xs ! k) (xs ! parent i))"

definition up_inv :: "nat \<Rightarrow> 'e list \<Rightarrow> nat \<Rightarrow> bool" where
  "up_inv n xs j \<longleftrightarrow> (\<forall>k. 0 < k \<longrightarrow> k < n \<longrightarrow> k \<noteq> j \<longrightarrow> edge xs k) \<and> bridged n xs j"

definition down_inv :: "nat \<Rightarrow> 'e list \<Rightarrow> nat \<Rightarrow> bool" where
  "down_inv n xs i \<longleftrightarrow> (\<forall>k. 0 < k \<longrightarrow> k < n \<longrightarrow> parent k \<noteq> i \<longrightarrow> edge xs k) \<and> bridged n xs i"

text \<open>Both edges at the position may be broken.\<close>

definition fix_inv :: "nat \<Rightarrow> 'e list \<Rightarrow> nat \<Rightarrow> bool" where
  "fix_inv n xs i \<longleftrightarrow> (\<forall>k. 0 < k \<longrightarrow> k < n \<longrightarrow> parent k \<noteq> i \<longrightarrow> k \<noteq> i \<longrightarrow> edge xs k) \<and> bridged n xs i"

lemma irrefl: "\<not> lt a a"
  using asym by blast

lemma less_neg: "lt a b \<Longrightarrow> \<not> lt c b \<Longrightarrow> \<not> lt c a"
  using asym neg_trans by blast

lemma up_step:
  assumes "up_inv n xs j" and "0 < j" and "j < n" and "n \<le> length xs" and "lt (xs ! j) (xs ! parent j)"
  shows "up_inv n (swapped xs (parent j) j) (parent j)"
proof -
  define i where "i = parent j"
  have ij: "i < j" using assms(2) by (simp add: i_def parent_less)
  note nth = swapped_nth [of i xs j]
  have other: "edge xs k" if "0 < k" "k < n" "k \<noteq> j" for k
    using assms(1) that by (simp add: up_inv_def)
  have lt_j: "lt (xs ! j) (xs ! i)" using assms(5) by (simp add: i_def)
  have "edge (swapped xs i j) k" if k: "0 < k" "k < n" "k \<noteq> i" for k
  proof -
    have p: "parent k < length xs" "k < length xs" using k assms(4) parent_le [of k] by linarith+
    show ?thesis
    proof (cases "k = j")
      case True
      then show ?thesis
        using p ij lt_j asym assms(3,4) by (simp add: edge_def nth flip: i_def)
    next
      case False
      consider "parent k = j" | "parent k = i" | "parent k \<noteq> i" "parent k \<noteq> j" by blast
      then show ?thesis
      proof cases
        case 1
        then have "\<not> lt (xs ! k) (xs ! i)"
          using assms(1,2) k by (simp add: up_inv_def bridged_def i_def)
        with 1 False k p ij assms(3,4) show ?thesis by (simp add: edge_def nth)
      next
        case 2
        have "\<not> lt (xs ! k) (xs ! i)" using other [OF k(1,2) False] 2 by (simp add: edge_def)
        then have "\<not> lt (xs ! k) (xs ! j)" using lt_j less_neg by blast
        with 2 False k p ij assms(3,4) show ?thesis by (simp add: edge_def nth)
      next
        case 3
        with other [OF k(1,2) False] False k p ij assms(3,4) show ?thesis by (simp add: edge_def nth)
      qed
    qed
  qed
  moreover have "\<not> lt (swapped xs i j ! k) (swapped xs i j ! parent i)"
    if k: "0 < k" "k < n" "parent k = i" "0 < i" for k
  proof -
    have i': "\<not> lt (xs ! i) (xs ! parent i)"
      using other [of i] k ij assms(3) by (simp add: edge_def)
    have p: "parent i < i" using k(4) by (rule parent_less)
    show ?thesis
    proof (cases "k = j")
      case True
      with i' p k ij assms(3,4) show ?thesis by (simp add: nth)
    next
      case False
      have "\<not> lt (xs ! k) (xs ! i)" using other [OF k(1,2) False] k(3) by (simp add: edge_def)
      with i' have "\<not> lt (xs ! k) (xs ! parent i)" using neg_trans by blast
      moreover have "k \<noteq> i" using parent_less [OF k(1)] k(3) by simp
      ultimately show ?thesis using p k ij assms(3,4) False by (simp add: nth)
    qed
  qed
  ultimately show ?thesis by (simp add: up_inv_def bridged_def i_def)
qed

lemma down_inv_fix: "down_inv n xs i \<Longrightarrow> fix_inv n xs i"
  by (simp add: down_inv_def fix_inv_def)

lemma down_step:
  assumes "fix_inv n xs i" and "parent j = i" and "0 < j" and "j < n" and "n \<le> length xs"
    and "lt (xs ! j) (xs ! i)" and "\<And>k. 0 < k \<Longrightarrow> k < n \<Longrightarrow> parent k = i \<Longrightarrow> \<not> lt (xs ! k) (xs ! j)"
  shows "down_inv n (swapped xs i j) j"
proof -
  have ij: "i < j" using assms(2,3) parent_less by blast
  note nth = swapped_nth [of i xs j]
  have other: "edge xs k" if "0 < k" "k < n" "parent k \<noteq> i" "k \<noteq> i" for k
    using assms(1) that by (simp add: fix_inv_def)
  have "edge (swapped xs i j) k" if k: "0 < k" "k < n" "parent k \<noteq> j" for k
  proof -
    have p: "parent k < length xs" "k < length xs" "parent k \<noteq> k"
      using k assms(5) parent_less [of k] by linarith+
    show ?thesis
    proof (cases "parent k = i")
      case True
      have "k \<noteq> i" using True p(3) by blast
      moreover have "\<not> lt (xs ! k) (xs ! j)" using assms(7) k True by blast
      moreover have "\<not> lt (xs ! i) (xs ! j)" using assms(6) by (rule asym)
      ultimately show ?thesis using True p ij assms(4,5) by (simp add: edge_def nth)
    next
      case False
      show ?thesis
      proof (cases "k = i")
        case True
        then have "\<not> lt (xs ! j) (xs ! parent i)"
          using assms(1-4) k(1) by (simp add: fix_inv_def bridged_def)
        with True False p k(3) ij assms(4,5) show ?thesis by (simp add: edge_def nth)
      next
        case ki: False
        have "k \<noteq> j" using False assms(2) by blast
        with other [OF k(1,2) False ki] ki False k p ij assms(4,5) show ?thesis
          by (simp add: edge_def nth)
      qed
    qed
  qed
  moreover have "\<not> lt (swapped xs i j ! k) (swapped xs i j ! parent j)"
    if k: "0 < k" "k < n" "parent k = j" for k
  proof -
    have kj: "j < k" using k(1,3) parent_less by blast
    have "edge xs k" using other [of k] k ij kj by simp
    with k kj ij assms(2,4,5) show ?thesis by (simp add: edge_def nth)
  qed
  ultimately show ?thesis by (simp add: down_inv_def bridged_def)
qed

lemma down_stop:
  assumes "\<And>k. 0 < k \<Longrightarrow> k < n \<Longrightarrow> parent k = i \<Longrightarrow> edge xs k"
  shows "fix_inv n xs i \<Longrightarrow> up_inv n xs i" and "down_inv n xs i \<Longrightarrow> heap_to n xs"
  using assms by (auto simp: fix_inv_def up_inv_def down_inv_def heap_to_def)

lemma up_stop: "up_inv n xs j \<Longrightarrow> j = 0 \<or> edge xs j \<Longrightarrow> heap_to n xs"
  by (auto simp: up_inv_def heap_to_def)

lemma heap_root: "heap_to n xs \<Longrightarrow> k < n \<Longrightarrow> \<not> lt (xs ! k) (xs ! 0)"
proof (induction k rule: less_induct)
  case (less k)
  show ?case
  proof (cases "k = 0")
    case False
    then have "parent k < k" by (simp add: parent_less)
    then have "\<not> lt (xs ! parent k) (xs ! 0)" using less.prems by (intro less.IH) auto
    moreover have "\<not> lt (xs ! k) (xs ! parent k)"
      using less.prems False by (simp add: heap_to_def edge_def)
    ultimately show ?thesis using neg_trans [of "xs ! k" "xs ! parent k" "xs ! 0"] by blast
  qed (simp add: irrefl)
qed

lemma heap_to_bridged: "heap_to n xs \<Longrightarrow> i < n \<Longrightarrow> bridged n xs i"
proof -
  assume h: "heap_to n xs" and i: "i < n"
  have "\<not> lt (xs ! k) (xs ! parent i)" if "0 < k" "k < n" "parent k = i" "0 < i" for k
    using h i that neg_trans [of "xs ! k" "xs ! i" "xs ! parent i"] by (auto simp: heap_to_def edge_def)
  then show ?thesis by (simp add: bridged_def)
qed

lemma heap_to_cong:
  "heap_to n xs \<Longrightarrow> (\<And>k. k < n \<Longrightarrow> ys ! k = xs ! k) \<Longrightarrow> heap_to n ys"
proof -
  assume h: "heap_to n xs" and eq: "\<And>k. k < n \<Longrightarrow> ys ! k = xs ! k"
  have "edge ys k" if "0 < k" "k < n" for k
    using h that eq [of k] eq [of "parent k"] parent_less [of k] by (simp add: heap_to_def edge_def)
  then show ?thesis by (simp add: heap_to_def)
qed

text \<open>Changing one element, and appending one.\<close>

lemma fix_inv_update:
  assumes "heap_to n xs" and "i < n" and "n \<le> length xs" and "\<And>k. k < n \<Longrightarrow> k \<noteq> i \<Longrightarrow> ys ! k = xs ! k"
  shows "fix_inv n ys i"
proof -
  have "\<not> lt (ys ! k) (ys ! parent i)" if "0 < k" "k < n" "parent k = i" "0 < i" for k
  proof -
    have "k \<noteq> i" "parent i \<noteq> i" "parent i < n" using that parent_less [of k] parent_less [of i] by auto
    then show ?thesis
      using heap_to_bridged [OF assms(1,2)] that assms(4) by (simp add: bridged_def)
  qed
  moreover have "edge ys k" if "0 < k" "k < n" "parent k \<noteq> i" "k \<noteq> i" for k
    using that assms(1,4) parent_less [of k] by (simp add: heap_to_def edge_def)
  ultimately show ?thesis by (simp add: fix_inv_def bridged_def)
qed

lemma up_inv_snoc:
  assumes "heap_to (length xs) xs"
  shows "up_inv (Suc (length xs)) (xs @ [x]) (length xs)"
proof -
  have "edge (xs @ [x]) k" if "0 < k" "k < Suc (length xs)" "k \<noteq> length xs" for k
    using assms that parent_less [of k] by (simp add: heap_to_def edge_def nth_append)
  moreover have "parent k \<noteq> length xs" if "0 < k" "k < Suc (length xs)" for k
    using that parent_less [of k] by linarith
  ultimately show ?thesis by (simp add: up_inv_def bridged_def)
qed

end

section \<open>The interface and the correctness of the algorithms\<close>

text \<open>
  A heap structure holds a list of elements; Less compares and Swap exchanges the elements at two
  positions.
\<close>

locale heap_interface = weak_order lt for lt :: "'e \<Rightarrow> 'e \<Rightarrow> bool" +
  fixes ok :: "'h \<Rightarrow> bool" and content :: "'h \<Rightarrow> 'e list"
    and Less :: "'h \<Rightarrow> nat \<Rightarrow> nat \<Rightarrow> bool" and Swap :: "'h \<Rightarrow> nat \<Rightarrow> nat \<Rightarrow> 'h"
  assumes Less_eq: "ok h \<Longrightarrow> i < length (content h) \<Longrightarrow> j < length (content h) \<Longrightarrow>
      Less h i j \<longleftrightarrow> lt (content h ! i) (content h ! j)"
    and Swap_ok: "ok h \<Longrightarrow> i < length (content h) \<Longrightarrow> j < length (content h) \<Longrightarrow> ok (Swap h i j)"
    and Swap_content: "ok h \<Longrightarrow> i < length (content h) \<Longrightarrow> j < length (content h) \<Longrightarrow>
      content (Swap h i j) = swapped (content h) i j"
begin

definition is_heap :: "'h \<Rightarrow> bool" where
  "is_heap h \<longleftrightarrow> heap_to (length (content h)) (content h)"

text \<open>The elements of two structures are the same up to their order, and equal from a position on.\<close>

definition rearranged :: "nat \<Rightarrow> 'h \<Rightarrow> 'h \<Rightarrow> bool" where
  "rearranged n h h' \<longleftrightarrow> ok h' \<and> mset (content h') = mset (content h) \<and>
     (\<forall>k. n \<le> k \<longrightarrow> k < length (content h) \<longrightarrow> content h' ! k = content h ! k)"

lemma rearranged_length: "rearranged n h h' \<Longrightarrow> length (content h') = length (content h)"
  unfolding rearranged_def using mset_eq_length by blast

lemma rearranged_trans: "rearranged n h h' \<Longrightarrow> rearranged n h' h'' \<Longrightarrow> rearranged n h h''"
  using rearranged_length [of n h h'] by (simp add: rearranged_def)

lemma rearranged_Swap:
  "ok h \<Longrightarrow> n \<le> length (content h) \<Longrightarrow> i < n \<Longrightarrow> j < n \<Longrightarrow> rearranged n h (Swap h i j)"
  by (simp add: rearranged_def Swap_ok Swap_content mset_swapped swapped_nth)

lemma up_correct:
  assumes "ok h" and "up_inv n (content h) j" and "n \<le> length (content h)" and "j < n"
  shows "heap_to n (content (heap_up Less Swap j h)) \<and> rearranged n h (heap_up Less Swap j h)"
  using assms
proof (induction j arbitrary: h rule: less_induct)
  case (less j)
  let ?i = "parent j"
  have i: "?i < n" using parent_le [of j] less.prems(4) by simp
  note unf = heap_up.simps [of Less Swap j h, folded parent_def]
  show ?case
  proof (cases "?i = j \<or> \<not> Less h j ?i")
    case True
    have "j = 0 \<or> edge (content h) j"
      using True less.prems i Less_eq [OF less.prems(1), of j ?i] parent_less [of j]
      by (auto simp: edge_def)
    with True less.prems show ?thesis
      unfolding unf by (auto simp: up_stop rearranged_def)
  next
    case False
    then have j: "0 < j" "?i < j" using parent_less [of j] by (auto simp: parent_def)
    let ?h = "Swap h ?i j"
    have c: "content ?h = swapped (content h) ?i j" "ok ?h"
      using less.prems i by (simp_all add: Swap_content Swap_ok)
    have "lt (content h ! j) (content h ! ?i)"
      using False less.prems i Less_eq [OF less.prems(1), of j ?i] by simp
    then have "up_inv n (content ?h) ?i"
      unfolding c(1) by (rule up_step [OF less.prems(2) j(1) less.prems(4,3)])
    then have ih: "heap_to n (content (heap_up Less Swap ?i ?h)) \<and> rearranged n ?h (heap_up Less Swap ?i ?h)"
      using less.prems(3) c i by (intro less.IH [OF j(2)]) simp_all
    have "rearranged n h ?h" by (rule rearranged_Swap [OF less.prems(1,3) i less.prems(4)])
    with ih have "rearranged n h (heap_up Less Swap ?i ?h)" using rearranged_trans by blast
    with ih False show ?thesis unfolding unf by (simp add: Let_def)
  qed
qed

text \<open>The smaller child, when there is one.\<close>

definition child :: "'h \<Rightarrow> nat \<Rightarrow> nat \<Rightarrow> nat" where
  "child h i n = (if 2 * i + 2 < n \<and> Less h (2 * i + 2) (2 * i + 1) then 2 * i + 2 else 2 * i + 1)"

lemma child_spec:
  assumes "ok h" and "2 * i + 1 < n" and "n \<le> length (content h)"
  shows "parent (child h i n) = i" and "child h i n < n" and "0 < child h i n"
    and "\<And>k. 0 < k \<Longrightarrow> k < n \<Longrightarrow> parent k = i \<Longrightarrow> \<not> lt (content h ! k) (content h ! child h i n)"
proof -
  show "parent (child h i n) = i" and "child h i n < n" and "0 < child h i n"
    using assms(2) by (auto simp: child_def parent_def)
  fix k
  assume "0 < k" "k < n" "parent k = i"
  then have "k = 2 * i + 1 \<or> k = 2 * i + 2" by (simp add: parent_iff)
  then show "\<not> lt (content h ! k) (content h ! child h i n)"
    using assms Less_eq [OF assms(1), of "2 * i + 2" "2 * i + 1"] irrefl asym \<open>k < n\<close>
    by (auto simp: child_def)
qed

lemma heap_down_unfold:
  "heap_down Less Swap i n h =
     (if 2 * i + 1 \<ge> n then (i, h)
      else if \<not> Less h (child h i n) i then (i, h)
      else heap_down Less Swap (child h i n) n (Swap h i (child h i n)))"
  by (subst heap_down.simps) (simp add: Let_def child_def)

lemma down_moves:
  assumes "ok h" and "fix_inv n (content h) i" and "n \<le> length (content h)" and "i < n"
    and "\<not> 2 * i + 1 \<ge> n" and "Less h (child h i n) i"
  shows "down_inv n (content (Swap h i (child h i n))) (child h i n)"
    and "rearranged n h (Swap h i (child h i n))"
proof -
  let ?j = "child h i n"
  note j = child_spec [OF assms(1) _ assms(3), of i]
  have jn: "?j < n" "parent ?j = i" "0 < ?j" using j assms(5) by simp_all
  have "lt (content h ! ?j) (content h ! i)"
    using assms(3,4,6) jn Less_eq [OF assms(1), of ?j i] by simp
  then show "down_inv n (content (Swap h i ?j)) ?j"
    using down_step [OF assms(2) jn(2,3,1) assms(3)] j(4) assms(1,3-5) jn
    by (simp add: Swap_content)
  show "rearranged n h (Swap h i ?j)"
    by (rule rearranged_Swap [OF assms(1,3,4) jn(1)])
qed

lemma down_ends:
  assumes "ok h" and "n \<le> length (content h)" and "i < n"
    and "2 * i + 1 \<ge> n \<or> \<not> Less h (child h i n) i" and "0 < k" and "k < n" and "parent k = i"
  shows "edge (content h) k"
proof -
  have k: "k = 2 * i + 1 \<or> k = 2 * i + 2" using assms(5,7) by (simp add: parent_iff)
  then have n: "2 * i + 1 < n" using assms(6) by auto
  note j = child_spec [OF assms(1) n assms(2)]
  have "\<not> lt (content h ! child h i n) (content h ! i)"
    using assms(2-4) n j(2) Less_eq [OF assms(1), of "child h i n" i] by simp
  with j(4) [OF assms(5-7)] have "\<not> lt (content h ! k) (content h ! i)" using neg_trans by blast
  then show ?thesis using assms(7) by (simp add: edge_def)
qed

lemma down_correct:
  assumes "ok h" and "down_inv n (content h) i" and "n \<le> length (content h)" and "i < n"
  shows "heap_to n (content (snd (heap_down Less Swap i n h)))
    \<and> rearranged n h (snd (heap_down Less Swap i n h)) \<and> i \<le> fst (heap_down Less Swap i n h)"
  using assms
proof (induction "n - i" arbitrary: h i rule: less_induct)
  case less
  show ?case
  proof (cases "2 * i + 1 \<ge> n \<or> \<not> Less h (child h i n) i")
    case True
    then have "heap_down Less Swap i n h = (i, h)" by (subst heap_down_unfold) auto
    moreover have "heap_to n (content h)"
      using down_ends [OF less.prems(1,3,4) True] by (rule down_stop(2) [OF _ less.prems(2)])
    ultimately show ?thesis using less.prems(1) by (simp add: rearranged_def)
  next
    case False
    let ?j = "child h i n" and ?h = "Swap h i (child h i n)"
    have m: "down_inv n (content ?h) ?j" "rearranged n h ?h"
      using down_moves [OF less.prems(1) down_inv_fix [OF less.prems(2)] less.prems(3,4)] False by simp_all
    have j: "?j < n" "i < ?j"
      using child_spec [OF less.prems(1) _ less.prems(3), of i] False parent_less [of ?j] by simp_all
    have ih: "heap_to n (content (snd (heap_down Less Swap ?j n ?h)))
      \<and> rearranged n ?h (snd (heap_down Less Swap ?j n ?h)) \<and> ?j \<le> fst (heap_down Less Swap ?j n ?h)"
      using m j rearranged_length [OF m(2)] less.prems(3)
      by (intro less.hyps) (auto simp: rearranged_def)
    have "heap_down Less Swap i n h = heap_down Less Swap ?j n ?h"
      using False by (subst heap_down_unfold) simp
    with ih m(2) j(2) show ?thesis using rearranged_trans by simp
  qed
qed

text \<open>Sift-down after both edges of a position may be broken.\<close>

lemma down_fixes:
  assumes "ok h" and "fix_inv n (content h) i" and "n \<le> length (content h)" and "i < n"
  obtains j h' where "heap_down Less Swap i n h = (j, h')" and "rearranged n h h'"
    and "j > i \<Longrightarrow> heap_to n (content h')" and "\<not> j > i \<Longrightarrow> up_inv n (content h') i"
proof (cases "2 * i + 1 \<ge> n \<or> \<not> Less h (child h i n) i")
  case True
  then have "heap_down Less Swap i n h = (i, h)" by (subst heap_down_unfold) auto
  moreover have "up_inv n (content h) i"
    using down_ends [OF assms(1,3,4) True] by (rule down_stop(1) [OF _ assms(2)])
  ultimately show ?thesis using that [of i h] assms(1) by (simp add: rearranged_def)
next
  case False
  let ?j = "child h i n" and ?h = "Swap h i (child h i n)"
  have m: "down_inv n (content ?h) ?j" "rearranged n h ?h"
    using down_moves [OF assms(1-4)] False by simp_all
  have j: "?j < n" "i < ?j"
    using child_spec [OF assms(1) _ assms(3), of i] False parent_less [of ?j] by simp_all
  have down: "heap_to n (content (snd (heap_down Less Swap ?j n ?h)))
      \<and> rearranged n ?h (snd (heap_down Less Swap ?j n ?h)) \<and> ?j \<le> fst (heap_down Less Swap ?j n ?h)"
    using m j rearranged_length [OF m(2)] assms(3) by (intro down_correct) (auto simp: rearranged_def)
  have "heap_down Less Swap i n h = heap_down Less Swap ?j n ?h"
    using False by (subst heap_down_unfold) simp
  then show ?thesis
    using that [of "fst (heap_down Less Swap ?j n ?h)" "snd (heap_down Less Swap ?j n ?h)"]
      down m(2) j(2) rearranged_trans by auto
qed

lemma fix_correct_to:
  assumes "ok h" and "fix_inv n (content h) i" and "n \<le> length (content h)" and "i < n"
  shows "case heap_down Less Swap i n h of (j, h') \<Rightarrow>
    heap_to n (content (if j > i then h' else heap_up Less Swap i h'))
    \<and> rearranged n h (if j > i then h' else heap_up Less Swap i h')"
proof -
  obtain j h' where d: "heap_down Less Swap i n h = (j, h')" "rearranged n h h'"
    "j > i \<Longrightarrow> heap_to n (content h')" "\<not> j > i \<Longrightarrow> up_inv n (content h') i"
    using down_fixes [OF assms] by blast
  have h': "ok h'" "n \<le> length (content h')"
    using d(2) assms(3) rearranged_length [OF d(2)] by (simp_all add: rearranged_def)
  show ?thesis
  proof (cases "j > i")
    case True
    with d show ?thesis by simp
  next
    case False
    with up_correct [OF h'(1) d(4) h'(2) assms(4)] d show ?thesis using rearranged_trans by simp
  qed
qed

text \<open>Fix after one element changed, Push after one was appended.\<close>

lemma Fix_correct:
  assumes "ok h" and "fix_inv (length (content h)) (content h) i" and "i < length (content h)"
    and "Len h = length (content h)"
  shows "ok (heap_Fix Len Less Swap i h)" and "is_heap (heap_Fix Len Less Swap i h)"
    and "mset (content (heap_Fix Len Less Swap i h)) = mset (content h)"
proof -
  obtain j h' where "heap_down Less Swap i (length (content h)) h = (j, h')" by fastforce
  then have "heap_to (length (content h)) (content (heap_Fix Len Less Swap i h))
    \<and> rearranged (length (content h)) h (heap_Fix Len Less Swap i h)"
    using fix_correct_to [OF assms(1,2) order_refl assms(3)] by (simp add: heap_Fix_def assms(4))
  then show "ok (heap_Fix Len Less Swap i h)" and "is_heap (heap_Fix Len Less Swap i h)"
    and "mset (content (heap_Fix Len Less Swap i h)) = mset (content h)"
    using rearranged_length [of "length (content h)" h "heap_Fix Len Less Swap i h"]
    by (auto simp: rearranged_def is_heap_def)
qed

lemma Push_correct:
  assumes "ok (Push x h)" and "content (Push x h) = content h @ [y]" and "is_heap h"
    and "Len (Push x h) = length (content (Push x h))"
  shows "ok (heap_Push Len Less Swap Push x h)" and "is_heap (heap_Push Len Less Swap Push x h)"
    and "mset (content (heap_Push Len Less Swap Push x h)) = add_mset y (mset (content h))"
proof -
  let ?h = "Push x h" and ?n = "Suc (length (content h))"
  have "up_inv ?n (content ?h) (length (content h))"
    using up_inv_snoc [of "content h" y] assms(2,3) by (simp add: is_heap_def)
  from up_correct [OF assms(1) this] assms(2,4)
  have "heap_to ?n (content (heap_Push Len Less Swap Push x h))
    \<and> rearranged ?n ?h (heap_Push Len Less Swap Push x h)"
    by (simp add: heap_Push_def Let_def)
  then show "ok (heap_Push Len Less Swap Push x h)" and "is_heap (heap_Push Len Less Swap Push x h)"
    and "mset (content (heap_Push Len Less Swap Push x h)) = add_mset y (mset (content h))"
    using rearranged_length [of ?n ?h "heap_Push Len Less Swap Push x h"] assms(2)
    by (auto simp: rearranged_def is_heap_def)
qed

text \<open>What Pop and Remove hand to the Pop of the structure: the removed element is the last one.\<close>

lemma removed_last:
  assumes "rearranged n h h'" and "length (content h) = Suc n" and "heap_to n (content h')"
  obtains ys where "content h' = ys @ [content h ! n]" and "heap_to (length ys) ys"
    and "mset ys = mset (content h) - {#content h ! n#}"
proof -
  have len: "length (content h') = Suc n" using rearranged_length [OF assms(1)] assms(2) by simp
  have last: "content h' ! n = content h ! n" using assms(1,2) by (simp add: rearranged_def)
  define ys where "ys = take n (content h')"
  have "take (Suc n) (content h') = ys @ [content h' ! n]"
    unfolding ys_def by (rule take_Suc_conv_app_nth) (simp add: len)
  then have c: "content h' = ys @ [content h ! n]" using len last by simp
  have "length ys = n" using len by (simp add: ys_def)
  then have "heap_to (length ys) ys"
    using heap_to_cong [OF assms(3), of ys] by (simp add: ys_def)
  moreover have "mset ys = mset (content h) - {#content h ! n#}"
    using assms(1) c unfolding rearranged_def by (metis add_mset_remove_trivial mset.simps mset_append
        add_mset_add_single)
  ultimately show ?thesis using that c by blast
qed

lemma Pop_prepares:
  assumes "ok h" and "is_heap h" and "length (content h) = Suc n"
  obtains ys where "ok (snd (heap_down Less Swap 0 n (Swap h 0 n)))"
    and "content (snd (heap_down Less Swap 0 n (Swap h 0 n))) = ys @ [content h ! 0]"
    and "heap_to (length ys) ys" and "mset ys = mset (content h) - {#content h ! 0#}"
proof -
  let ?h = "Swap h 0 n"
  have sw: "content ?h = swapped (content h) 0 n" "ok ?h"
    using assms(1,3) by (simp_all add: Swap_content Swap_ok)
  then have c: "length (content ?h) = Suc n" "content ?h ! n = content h ! 0" "mset (content ?h) = mset (content h)"
    using assms(3) by (simp_all add: swapped_nth mset_swapped)
  have "heap_to n (content (snd (heap_down Less Swap 0 n ?h))) \<and> rearranged n ?h (snd (heap_down Less Swap 0 n ?h))"
  proof (cases "n = 0")
    case True
    then show ?thesis
      using sw(2) by (subst (1 2) heap_down_unfold) (simp add: heap_to_def rearranged_def)
  next
    case False
    have "edge (content ?h) k" if "0 < k" "k < n" "parent k \<noteq> 0" for k
      using that assms(2,3) parent_less [of k] by (simp add: sw(1) edge_def swapped_nth is_heap_def heap_to_def)
    then have "down_inv n (content ?h) 0" by (simp add: down_inv_def bridged_def)
    with down_correct [OF sw(2), of n 0] c(1) False show ?thesis by simp
  qed
  then show ?thesis
    using removed_last [of n ?h "snd (heap_down Less Swap 0 n ?h)"] c that by (auto simp: rearranged_def)
qed

lemma Remove_prepares:
  assumes "ok h" and "is_heap h" and "length (content h) = Suc n" and "i \<noteq> n" and "i < Suc n"
  obtains ys h' where "(case heap_down Less Swap i n (Swap h i n) of
      (j, g) \<Rightarrow> if j > i then g else heap_up Less Swap i g) = h'"
    and "ok h'" and "content h' = ys @ [content h ! i]"
    and "heap_to (length ys) ys" and "mset ys = mset (content h) - {#content h ! i#}"
proof -
  let ?h = "Swap h i n"
  have i: "i < n" using assms(4,5) by simp
  have sw: "content ?h = swapped (content h) i n" "ok ?h"
    using assms(1,3) i by (simp_all add: Swap_content Swap_ok)
  then have c: "length (content ?h) = Suc n" "content ?h ! n = content h ! i" "mset (content ?h) = mset (content h)"
    using assms(3) i by (simp_all add: swapped_nth mset_swapped)
  have "heap_to n (content h)" using assms(2,3) by (simp add: is_heap_def heap_to_def)
  then have fi: "fix_inv n (content ?h) i"
    using assms(3) i by (intro fix_inv_update [of n "content h"]) (simp_all add: sw(1) swapped_nth)
  obtain j g where d: "heap_down Less Swap i n ?h = (j, g)" by fastforce
  let ?g = "if j > i then g else heap_up Less Swap i g"
  have r: "heap_to n (content ?g)" "rearranged n ?h ?g"
    using fix_correct_to [OF sw(2) fi _ i] c(1) d by simp_all
  from removed_last [OF r(2) c(1) r(1)] obtain ys where "content ?g = ys @ [content ?h ! n]"
    "heap_to (length ys) ys" "mset ys = mset (content ?h) - {#content ?h ! n#}" by blast
  with that [of ?g ys] d c r(2) show ?thesis by (simp add: rearranged_def)
qed

lemma is_heap_least: "is_heap h \<Longrightarrow> x \<in> set (content h) \<Longrightarrow> \<not> lt x (content h ! 0)"
  using heap_root by (metis in_set_conv_nth is_heap_def)

end

end
