(* ===== verification/Scheduling_Heap.thy ===== *)
theory Scheduling_Heap
  imports Go_Heap Thread_Safe_Store
begin

text \<open>
  The keyed heap of the scheduler, \<open>heapData\<close> and \<open>Heap\<close> of
  \<open>pkg/scheduler/internal/queue/scheduling_queue.go\<close>: an array of keys in heap order and a map from
  keys to objects and their positions in the array.  The map holds pointers to items that Swap
  changes in place; an item is reachable through its key only, so the map holds the items.
\<close>

section \<open>The data and the heap interface\<close>

type_synonym 'o LessFunc = "'o \<Rightarrow> 'o \<Rightarrow> bool"

record 'o heapItem =
  item_obj :: 'o
  item_index :: nat

record 'o heapData =
  hd_items :: "string \<rightharpoonup> 'o heapItem"
  hd_queue :: "string list"
  hd_keyFunc :: "'o \<Rightarrow> string + string"
  hd_lessFunc :: "'o LessFunc"

definition newHeap :: "('o \<Rightarrow> string + string) \<Rightarrow> 'o LessFunc \<Rightarrow> 'o heapData" where
  "newHeap keyFn lessFn =
     \<lparr>hd_items = Map.empty, hd_queue = [], hd_keyFunc = keyFn, hd_lessFunc = lessFn\<rparr>"

definition hd_Len :: "'o heapData \<Rightarrow> nat" where
  "hd_Len h = length (hd_queue h)"

text \<open>The code's guard lets the index equal the length, where the read of the array panics; heap
  operations compare only positions of the array.\<close>

definition hd_Less :: "'o heapData \<Rightarrow> nat \<Rightarrow> nat \<Rightarrow> bool" where
  "hd_Less h i j =
     (if i > length (hd_queue h) \<or> j > length (hd_queue h) then False
      else (case hd_items h (hd_queue h ! i) of
              None \<Rightarrow> False
            | Some itemi \<Rightarrow>
                (case hd_items h (hd_queue h ! j) of
                   None \<Rightarrow> False
                 | Some itemj \<Rightarrow> hd_lessFunc h (item_obj itemi) (item_obj itemj))))"

definition setIndex :: "string \<Rightarrow> nat \<Rightarrow> (string \<rightharpoonup> 'o heapItem) \<Rightarrow> (string \<rightharpoonup> 'o heapItem)" where
  "setIndex key i items = items(key := map_option (\<lambda>it. it\<lparr>item_index := i\<rparr>) (items key))"

definition hd_Swap :: "'o heapData \<Rightarrow> nat \<Rightarrow> nat \<Rightarrow> 'o heapData" where
  "hd_Swap h i j =
     (let queue = (hd_queue h)[i := hd_queue h ! j, j := hd_queue h ! i]
      in h\<lparr>hd_queue := queue,
           hd_items := setIndex (queue ! j) j (setIndex (queue ! i) i (hd_items h))\<rparr>)"

definition hd_Push :: "string \<times> 'o \<Rightarrow> 'o heapData \<Rightarrow> 'o heapData" where
  "hd_Push kv h =
     (let n = length (hd_queue h)
      in h\<lparr>hd_items := (hd_items h)(fst kv \<mapsto> \<lparr>item_obj = snd kv, item_index = n\<rparr>),
           hd_queue := hd_queue h @ [fst kv]\<rparr>)"

definition hd_Pop :: "'o heapData \<Rightarrow> 'o option \<times> 'o heapData" where
  "hd_Pop h =
     (let key = hd_queue h ! (length (hd_queue h) - 1);
          h' = h\<lparr>hd_queue := take (length (hd_queue h) - 1) (hd_queue h)\<rparr>
      in case hd_items h key of
           None \<Rightarrow> (None, h')
         | Some item \<Rightarrow> (Some (item_obj item), h'\<lparr>hd_items := (hd_items h)(key := None)\<rparr>))"

section \<open>The operations of Heap\<close>

datatype 'o heap_error = HeapKeyError "'o key_error" | ObjectNotFound | ObjectWasRemoved

definition Heap_Add :: "'o \<Rightarrow> 'o heapData \<Rightarrow> 'o heap_error option \<times> 'o heapData" where
  "Heap_Add obj h =
     (case hd_keyFunc h obj of
        Inl err \<Rightarrow> (Some (HeapKeyError (KeyError obj err)), h)
      | Inr key \<Rightarrow>
          (case hd_items h key of
             Some item \<Rightarrow>
               (let h' = h\<lparr>hd_items := (hd_items h)(key \<mapsto> item\<lparr>item_obj := obj\<rparr>)\<rparr>
                in (None, heap_Fix hd_Len hd_Less hd_Swap (item_index item) h'))
           | None \<Rightarrow> (None, heap_Push hd_Len hd_Less hd_Swap hd_Push (key, obj) h)))"

definition Heap_AddIfNotPresent :: "'o \<Rightarrow> 'o heapData \<Rightarrow> 'o heap_error option \<times> 'o heapData" where
  "Heap_AddIfNotPresent obj h =
     (case hd_keyFunc h obj of
        Inl err \<Rightarrow> (Some (HeapKeyError (KeyError obj err)), h)
      | Inr key \<Rightarrow>
          if hd_items h key = None
          then (None, heap_Push hd_Len hd_Less hd_Swap hd_Push (key, obj) h)
          else (None, h))"

definition Heap_Update :: "'o \<Rightarrow> 'o heapData \<Rightarrow> 'o heap_error option \<times> 'o heapData" where
  "Heap_Update obj h = Heap_Add obj h"

definition Heap_Delete :: "'o \<Rightarrow> 'o heapData \<Rightarrow> 'o heap_error option \<times> 'o heapData" where
  "Heap_Delete obj h =
     (case hd_keyFunc h obj of
        Inl err \<Rightarrow> (Some (HeapKeyError (KeyError obj err)), h)
      | Inr key \<Rightarrow>
          (case hd_items h key of
             Some item \<Rightarrow>
               (None, snd (heap_Remove hd_Len hd_Less hd_Swap hd_Pop (item_index item) h))
           | None \<Rightarrow> (Some ObjectNotFound, h)))"

definition Heap_Pop :: "'o heapData \<Rightarrow> ('o heap_error + 'o) \<times> 'o heapData" where
  "Heap_Pop h =
     (case heap_Pop hd_Len hd_Less hd_Swap hd_Pop h of
        (Some obj, h') \<Rightarrow> (Inr obj, h')
      | (None, h') \<Rightarrow> (Inl ObjectWasRemoved, h'))"

definition Heap_GetByKey :: "'o heapData \<Rightarrow> string \<Rightarrow> 'o option" where
  "Heap_GetByKey h key = map_option item_obj (hd_items h key)"

definition Heap_Get :: "'o heapData \<Rightarrow> 'o \<Rightarrow> 'o heap_error + 'o option" where
  "Heap_Get h obj =
     (case hd_keyFunc h obj of
        Inl err \<Rightarrow> Inl (HeapKeyError (KeyError obj err))
      | Inr key \<Rightarrow> Inr (Heap_GetByKey h key))"

text \<open>\<open>keys\<close> is the order of the loop over the items.\<close>

definition Heap_List :: "string list \<Rightarrow> 'o heapData \<Rightarrow> 'o list" where
  "Heap_List keys h = List.map_filter (Heap_GetByKey h) keys"

section \<open>The invariant and the interface law\<close>

text \<open>
  The array holds every key of the map once, and every item knows its position; objects are filed
  under their keys, and compared by the given function.
\<close>

definition hd_ok :: "('o \<Rightarrow> string + string) \<Rightarrow> 'o LessFunc \<Rightarrow> 'o heapData \<Rightarrow> bool" where
  "hd_ok kf lf h \<longleftrightarrow>
     hd_keyFunc h = kf \<and> hd_lessFunc h = lf \<and> distinct (hd_queue h) \<and>
     set (hd_queue h) = dom (hd_items h) \<and>
     (\<forall>i < length (hd_queue h). map_option item_index (hd_items h (hd_queue h ! i)) = Some i) \<and>
     (\<forall>k it. hd_items h k = Some it \<longrightarrow> kf (item_obj it) = Inr k)"

definition hd_content :: "'o heapData \<Rightarrow> 'o list" where
  "hd_content h = map (\<lambda>k. the (Heap_GetByKey h k)) (hd_queue h)"

lemma hd_okD:
  assumes "hd_ok kf lf h"
  shows "hd_keyFunc h = kf" and "hd_lessFunc h = lf" and "distinct (hd_queue h)"
    and "set (hd_queue h) = dom (hd_items h)"
    and "i < length (hd_queue h) \<Longrightarrow> map_option item_index (hd_items h (hd_queue h ! i)) = Some i"
    and "hd_items h k = Some it \<Longrightarrow> kf (item_obj it) = Inr k"
  using assms by (auto simp: hd_ok_def)

lemma length_hd_content [simp]: "length (hd_content h) = length (hd_queue h)"
  by (simp add: hd_content_def)

lemma hd_item_at:
  assumes "hd_ok kf lf h" and "i < length (hd_queue h)"
  obtains it where "hd_items h (hd_queue h ! i) = Some it" and "item_index it = i"
    and "hd_content h ! i = item_obj it"
proof -
  obtain it where it: "hd_items h (hd_queue h ! i) = Some it" "item_index it = i"
    using hd_okD(5) [OF assms] by auto
  moreover have "hd_content h ! i = item_obj it" using assms(2) it(1) by (simp add: hd_content_def Heap_GetByKey_def)
  ultimately show ?thesis using that by blast
qed

lemma hd_Less_eq:
  assumes "hd_ok kf lf h" and "i < length (hd_content h)" and "j < length (hd_content h)"
  shows "hd_Less h i j \<longleftrightarrow> lf (hd_content h ! i) (hd_content h ! j)"
proof -
  have ij: "i < length (hd_queue h)" "j < length (hd_queue h)" using assms(2,3) by simp_all
  obtain it jt where "hd_items h (hd_queue h ! i) = Some it" "hd_content h ! i = item_obj it"
    "hd_items h (hd_queue h ! j) = Some jt" "hd_content h ! j = item_obj jt"
    by (rule hd_item_at [OF assms(1) ij(1)], rule hd_item_at [OF assms(1) ij(2)], blast)
  then show ?thesis using ij hd_okD(2) [OF assms(1)] by (simp add: hd_Less_def)
qed

lemma setIndex_simps [simp]:
  "dom (setIndex k i items) = dom items"
  "map_option item_obj (setIndex k i items k') = map_option item_obj (items k')"
  "map_option item_index (setIndex k i items k') =
     (if k' = k \<and> items k \<noteq> None then Some i else map_option item_index (items k'))"
  by (auto simp: setIndex_def option.map_comp comp_def split: if_splits)

lemma hd_Swap_fields:
  "hd_queue (hd_Swap h i j) = swapped (hd_queue h) i j"
  "hd_keyFunc (hd_Swap h i j) = hd_keyFunc h" "hd_lessFunc (hd_Swap h i j) = hd_lessFunc h"
  "dom (hd_items (hd_Swap h i j)) = dom (hd_items h)"
  "map_option item_obj (hd_items (hd_Swap h i j) k) = map_option item_obj (hd_items h k)"
  by (simp_all add: hd_Swap_def Let_def swapped_def)

lemma hd_Swap_get [simp]: "Heap_GetByKey (hd_Swap h i j) = Heap_GetByKey h"
  by (simp add: Heap_GetByKey_def fun_eq_iff hd_Swap_fields)

lemma hd_Swap_content:
  "i < length (hd_content h) \<Longrightarrow> j < length (hd_content h) \<Longrightarrow>
     hd_content (hd_Swap h i j) = swapped (hd_content h) i j"
  by (simp add: hd_content_def hd_Swap_fields(1)) (simp add: swapped_def map_update)

lemma get_item: "hd_items h k = Some it \<Longrightarrow> Heap_GetByKey h k = Some (item_obj it)"
  by (simp add: Heap_GetByKey_def)

lemma dom_get: "dom (Heap_GetByKey h) = dom (hd_items h)"
  by (auto simp: Heap_GetByKey_def)

text \<open>The condition on the map, in terms of the objects alone.\<close>

lemma hd_ok_get:
  "(\<forall>k it. hd_items h k = Some it \<longrightarrow> kf (item_obj it) = Inr k) \<longleftrightarrow>
     (\<forall>k obj. Heap_GetByKey h k = Some obj \<longrightarrow> kf obj = Inr k)"
  by (auto simp: Heap_GetByKey_def)

lemma hd_Swap_ok:
  assumes "hd_ok kf lf h" and "i < length (hd_content h)" and "j < length (hd_content h)"
  shows "hd_ok kf lf (hd_Swap h i j)"
proof -
  let ?h = "hd_Swap h i j" and ?q = "swapped (hd_queue h) i j"
  have ij: "i < length (hd_queue h)" "j < length (hd_queue h)" using assms(2,3) by simp_all
  have d: "distinct (hd_queue h)" by (rule hd_okD(3) [OF assms(1)])
  have q: "?q ! i = hd_queue h ! j" "?q ! j = hd_queue h ! i" using ij by (simp_all add: swapped_nth)
  have "map_option item_index (hd_items ?h (?q ! k)) = Some k" if k: "k < length (hd_queue h)" for k
  proof -
    obtain it where it: "hd_items h (?q ! k) = Some it" "k \<noteq> i \<Longrightarrow> k \<noteq> j \<Longrightarrow> item_index it = k"
      using hd_item_at [OF assms(1), of k] hd_item_at [OF assms(1) ij(1)] hd_item_at [OF assms(1) ij(2)] ij k
      by (metis swapped_nth)
    have inj: "hd_queue h ! k = hd_queue h ! l \<longleftrightarrow> k = l" if "l < length (hd_queue h)" for l
      using d k that by (simp add: nth_eq_iff_index_eq)
    have items: "hd_items ?h = setIndex (?q ! j) j (setIndex (?q ! i) i (hd_items h))"
      by (simp add: hd_Swap_def Let_def swapped_def)
    show ?thesis
      using it ij k q d unfolding items
      by (auto simp: swapped_nth inj nth_eq_iff_index_eq setIndex_def)
  qed
  moreover have "distinct ?q" using d ij by (simp add: swapped_def distinct_swap)
  moreover have "set ?q = set (hd_queue h)" using ij by (simp add: swapped_def set_swap)
  moreover have "\<forall>k obj. Heap_GetByKey ?h k = Some obj \<longrightarrow> kf obj = Inr k"
    using hd_okD(6) [OF assms(1)] by (simp flip: hd_ok_get)
  ultimately show ?thesis
    using hd_okD(1,2,4) [OF assms(1)] unfolding hd_ok_def hd_ok_get by (simp add: hd_Swap_fields)
qed

lemma content_get: "hd_ok kf lf h \<Longrightarrow> set (hd_content h) = ran (Heap_GetByKey h)"
proof -
  assume ok: "hd_ok kf lf h"
  have "set (hd_content h) = (\<lambda>k. the (Heap_GetByKey h k)) ` dom (Heap_GetByKey h)"
    using hd_okD(4) [OF ok] by (simp add: hd_content_def dom_get)
  then show ?thesis by (force simp: ran_def dom_def)
qed

lemma hd_Push_spec:
  assumes "hd_ok kf lf h" and "kf obj = Inr key" and "hd_items h key = None"
  shows "hd_ok kf lf (hd_Push (key, obj) h)"
    and "hd_content (hd_Push (key, obj) h) = hd_content h @ [obj]"
    and "Heap_GetByKey (hd_Push (key, obj) h) = (Heap_GetByKey h)(key \<mapsto> obj)"
proof -
  have new: "key \<notin> set (hd_queue h)" using assms(3) hd_okD(4) [OF assms(1)] by (simp add: domIff)
  show get: "Heap_GetByKey (hd_Push (key, obj) h) = (Heap_GetByKey h)(key \<mapsto> obj)"
    by (simp add: Heap_GetByKey_def hd_Push_def Let_def fun_eq_iff)
  have "map (\<lambda>k. the (((Heap_GetByKey h)(key \<mapsto> obj)) k)) (hd_queue h) = hd_content h"
    using new by (auto simp: hd_content_def)
  then show "hd_content (hd_Push (key, obj) h) = hd_content h @ [obj]"
    unfolding hd_content_def get by (simp add: hd_Push_def Let_def)
  have "\<forall>k o'. Heap_GetByKey (hd_Push (key, obj) h) k = Some o' \<longrightarrow> kf o' = Inr k"
    unfolding get using hd_okD(6) [OF assms(1)] assms(2) by (auto simp: Heap_GetByKey_def)
  then have keys: "\<forall>k it. hd_items (hd_Push (key, obj) h) k = Some it \<longrightarrow> kf (item_obj it) = Inr k"
    by (simp only: hd_ok_get)
  have "map_option item_index (hd_items (hd_Push (key, obj) h) ((hd_queue h @ [key]) ! i)) = Some i"
    if "i < Suc (length (hd_queue h))" for i
    using that new hd_okD(5) [OF assms(1), of i] nth_mem [of i "hd_queue h"]
    by (auto simp: hd_Push_def Let_def nth_append less_Suc_eq)
  then show "hd_ok kf lf (hd_Push (key, obj) h)"
    using new hd_okD(1-4) [OF assms(1)] keys unfolding hd_ok_def by (simp add: hd_Push_def Let_def)
qed

lemma hd_Pop_spec:
  assumes "hd_ok kf lf h" and "length (hd_queue h) = Suc n"
  shows "fst (hd_Pop h) = Some (hd_content h ! n)" and "hd_ok kf lf (snd (hd_Pop h))"
    and "hd_content (snd (hd_Pop h)) = take n (hd_content h)"
    and "Heap_GetByKey (snd (hd_Pop h)) = (Heap_GetByKey h)(hd_queue h ! n := None)"
proof -
  let ?k = "hd_queue h ! n"
  obtain it where it: "hd_items h ?k = Some it" "hd_content h ! n = item_obj it"
    using hd_item_at [OF assms(1), of n] assms(2) by auto
  have pop: "hd_Pop h = (Some (item_obj it), h\<lparr>hd_queue := take n (hd_queue h), hd_items := (hd_items h)(?k := None)\<rparr>)"
    using it(1) assms(2) by (simp add: hd_Pop_def Let_def)
  show "fst (hd_Pop h) = Some (hd_content h ! n)" using pop it(2) by simp
  show get: "Heap_GetByKey (snd (hd_Pop h)) = (Heap_GetByKey h)(?k := None)"
    by (simp add: pop Heap_GetByKey_def fun_eq_iff)
  have d: "distinct (hd_queue h)" by (rule hd_okD(3) [OF assms(1)])
  have "take (Suc n) (hd_queue h) = take n (hd_queue h) @ [?k]"
    by (rule take_Suc_conv_app_nth) (simp add: assms(2))
  then have q: "hd_queue h = take n (hd_queue h) @ [?k]" using assms(2) by simp
  have "distinct (take n (hd_queue h) @ [?k])" using d by (subst q [symmetric])
  then have new: "?k \<notin> set (take n (hd_queue h))" by simp
  have "map (\<lambda>k. the (((Heap_GetByKey h)(?k := None)) k)) (take n (hd_queue h)) = take n (hd_content h)"
    using new by (auto simp: hd_content_def take_map)
  then show "hd_content (snd (hd_Pop h)) = take n (hd_content h)"
    unfolding hd_content_def get by (simp add: pop)
  have "set (hd_queue h) = insert ?k (set (take n (hd_queue h)))" by (subst q) simp
  then have dom: "set (take n (hd_queue h)) = dom (hd_items h) - {?k}"
    using new hd_okD(4) [OF assms(1)] by auto
  have "map_option item_index (((hd_items h)(?k := None)) (take n (hd_queue h) ! i)) = Some i"
    if "i < n" for i
  proof -
    have "take n (hd_queue h) ! i \<in> set (take n (hd_queue h))" using that assms(2) by (intro nth_mem) simp
    with new have "take n (hd_queue h) ! i \<noteq> ?k" by metis
    then show ?thesis using hd_okD(5) [OF assms(1), of i] that assms(2) by simp
  qed
  then show "hd_ok kf lf (snd (hd_Pop h))"
    using d dom hd_okD(1,2,6) [OF assms(1)] assms(2) unfolding hd_ok_def by (simp add: pop)
qed

lemma hd_item_pos:
  assumes "hd_ok kf lf h" and "hd_items h key = Some item"
  shows "item_index item < length (hd_queue h)" and "hd_queue h ! item_index item = key"
    and "hd_content h ! item_index item = item_obj item"
proof -
  have "key \<in> set (hd_queue h)" using assms(2) hd_okD(4) [OF assms(1)] by auto
  then obtain i where i: "i < length (hd_queue h)" "hd_queue h ! i = key"
    by (metis in_set_conv_nth)
  have "item_index item = i" using hd_okD(5) [OF assms(1) i(1)] i(2) assms(2) by simp
  with i assms(2) show "item_index item < length (hd_queue h)" and "hd_queue h ! item_index item = key"
    and "hd_content h ! item_index item = item_obj item"
    by (simp_all add: hd_content_def Heap_GetByKey_def)
qed

lemma hd_replace_spec:
  assumes "hd_ok kf lf h" and "hd_items h key = Some item" and "kf obj = Inr key"
  defines "h' \<equiv> h\<lparr>hd_items := (hd_items h)(key \<mapsto> item\<lparr>item_obj := obj\<rparr>)\<rparr>"
  shows "hd_ok kf lf h'" and "item_index item < length (hd_queue h)"
    and "hd_content h' = (hd_content h)[item_index item := obj]"
    and "Heap_GetByKey h' = (Heap_GetByKey h)(key \<mapsto> obj)"
proof -
  define i where "i = item_index item"
  have ix: "item_index item = i" by (simp add: i_def)
  have i: "i < length (hd_queue h)" "hd_queue h ! i = key"
    using hd_item_pos(1,2) [OF assms(1,2)] by (simp_all add: i_def)
  then show "item_index item < length (hd_queue h)" by (simp add: ix)
  show get: "Heap_GetByKey h' = (Heap_GetByKey h)(key \<mapsto> obj)"
    by (simp add: h'_def Heap_GetByKey_def fun_eq_iff)
  have "hd_queue h ! j = key \<longleftrightarrow> j = i" if "j < length (hd_queue h)" for j
    using hd_okD(3) [OF assms(1)] that i by (metis nth_eq_iff_index_eq)
  then show "hd_content h' = (hd_content h)[item_index item := obj]"
    unfolding hd_content_def get ix
    by (intro nth_equalityI) (auto simp: h'_def nth_list_update)
  have "map_option item_index (hd_items h' k) = map_option item_index (hd_items h k)" for k
    using assms(2) by (simp add: h'_def)
  moreover have "dom (hd_items h') = dom (hd_items h)" using assms(2) by (auto simp: h'_def)
  moreover have "\<forall>k o'. Heap_GetByKey h' k = Some o' \<longrightarrow> kf o' = Inr k"
    unfolding get using hd_okD(6) [OF assms(1)] assms(3) by (auto simp: Heap_GetByKey_def)
  ultimately show "hd_ok kf lf h'"
    using hd_okD(1-5) [OF assms(1)] unfolding hd_ok_def hd_ok_get by (simp add: h'_def)
qed

section \<open>The heap of a comparison function\<close>

locale keyed_heap = weak_order lf for lf :: "'o LessFunc" +
  fixes kf :: "'o \<Rightarrow> string + string"
begin

sublocale heap_interface lf "hd_ok kf lf" hd_content hd_Less hd_Swap
  by unfold_locales (simp_all add: hd_Less_eq hd_Swap_ok hd_Swap_content)

text \<open>A valid heap: well-formed and in heap order.\<close>

definition valid :: "'o heapData \<Rightarrow> bool" where
  "valid h \<longleftrightarrow> hd_ok kf lf h \<and> is_heap h"

lemma valid_new: "valid (newHeap kf lf)"
  by (simp add: valid_def hd_ok_def newHeap_def is_heap_def heap_to_def hd_content_def)

lemma Push_valid:
  assumes "valid h" and "kf obj = Inr key" and "hd_items h key = None"
  shows "valid (heap_Push hd_Len hd_Less hd_Swap hd_Push (key, obj) h)"
    and "Heap_GetByKey (heap_Push hd_Len hd_Less hd_Swap hd_Push (key, obj) h) = (Heap_GetByKey h)(key \<mapsto> obj)"
proof -
  have ok: "hd_ok kf lf h" "is_heap h" using assms(1) by (simp_all add: valid_def)
  note p = hd_Push_spec [OF ok(1) assms(2,3)]
  show "valid (heap_Push hd_Len hd_Less hd_Swap hd_Push (key, obj) h)"
    using Push_correct [where Push = hd_Push and x = "(key, obj)" and Len = hd_Len, OF p(1,2) ok(2)]
    by (simp add: valid_def hd_Len_def)
  show "Heap_GetByKey (heap_Push hd_Len hd_Less hd_Swap hd_Push (key, obj) h) = (Heap_GetByKey h)(key \<mapsto> obj)"
    unfolding heap_Push_def Let_def by (subst heap_up_keeps [of Heap_GetByKey]) (simp_all add: p(3))
qed

lemma Add_spec:
  assumes "valid h" and "kf obj = Inr key"
  shows "\<exists>h'. Heap_Add obj h = (None, h') \<and> valid h' \<and> Heap_GetByKey h' = (Heap_GetByKey h)(key \<mapsto> obj)"
proof -
  have ok: "hd_ok kf lf h" "is_heap h" using assms(1) by (simp_all add: valid_def)
  have kf: "hd_keyFunc h obj = Inr key" using hd_okD(1) [OF ok(1)] assms(2) by simp
  show ?thesis
  proof (cases "hd_items h key")
    case None
    then show ?thesis using Push_valid [OF assms None] kf by (simp add: Heap_Add_def)
  next
    case (Some item)
    let ?h = "h\<lparr>hd_items := (hd_items h)(key \<mapsto> item\<lparr>item_obj := obj\<rparr>)\<rparr>"
    let ?i = "item_index item"
    note r = hd_replace_spec [OF ok(1) Some assms(2)]
    have "fix_inv (length (hd_content ?h)) (hd_content ?h) ?i"
      using ok(2) r(2) by (intro fix_inv_update [of _ "hd_content h"]) (simp_all add: r(3) is_heap_def)
    from Fix_correct [OF r(1) this, where Len = hd_Len] r(2)
    have "valid (heap_Fix hd_Len hd_Less hd_Swap ?i ?h)"
      by (simp add: valid_def hd_Len_def)
    moreover have "Heap_GetByKey (heap_Fix hd_Len hd_Less hd_Swap ?i ?h) = (Heap_GetByKey h)(key \<mapsto> obj)"
      using heap_Fix_keeps [of Heap_GetByKey hd_Swap hd_Len hd_Less ?i ?h] r(4) by simp
    ultimately show ?thesis using kf Some by (simp add: Heap_Add_def Let_def)
  qed
qed

text \<open>What the Pop of the data structure does after a sift moved the removed element to the end.\<close>

lemma Pop_last:
  assumes "hd_ok kf lf h'" and "hd_content h' = ys @ [x]" and "heap_to (length ys) ys"
    and "Heap_GetByKey h' = Heap_GetByKey h"
  shows "fst (hd_Pop h') = Some x" and "valid (snd (hd_Pop h'))"
    and "kf x = Inr k \<Longrightarrow> Heap_GetByKey (snd (hd_Pop h')) = (Heap_GetByKey h)(k := None)"
proof -
  have n: "length (hd_queue h') = Suc (length ys)"
    using arg_cong [OF assms(2), of length] by simp
  note p = hd_Pop_spec [OF assms(1) n]
  show "fst (hd_Pop h') = Some x" using p(1) assms(2) by simp
  have "hd_content (snd (hd_Pop h')) = ys" using p(3) assms(2) by simp
  with p(2) assms(3) show "valid (snd (hd_Pop h'))" by (simp add: valid_def is_heap_def)
  obtain it where "hd_items h' (hd_queue h' ! length ys) = Some it" "hd_content h' ! length ys = item_obj it"
    using hd_item_at [OF assms(1), of "length ys"] n by auto
  then have "kf x = Inr (hd_queue h' ! length ys)"
    using hd_okD(6) [OF assms(1)] assms(2) by fastforce
  then show "Heap_GetByKey (snd (hd_Pop h')) = (Heap_GetByKey h)(k := None)" if "kf x = Inr k"
    using that p(4) assms(4) by simp
qed

lemma get_key: "valid h \<Longrightarrow> Heap_GetByKey h k = Some obj \<Longrightarrow> kf obj = Inr k"
  by (auto simp: valid_def hd_ok_def Heap_GetByKey_def)

lemma Pop_spec:
  assumes "valid h" and "hd_queue h \<noteq> []"
  shows "\<exists>obj key h'. Heap_Pop h = (Inr obj, h') \<and> valid h' \<and> Heap_GetByKey h key = Some obj
    \<and> kf obj = Inr key \<and> Heap_GetByKey h' = (Heap_GetByKey h)(key := None)
    \<and> (\<forall>k o'. Heap_GetByKey h k = Some o' \<longrightarrow> \<not> lf o' obj)"
proof -
  have ok: "hd_ok kf lf h" "is_heap h" using assms(1) by (simp_all add: valid_def)
  obtain n where n: "length (hd_queue h) = Suc n" using assms(2) by (cases "hd_queue h") auto
  let ?h = "snd (heap_down hd_Less hd_Swap 0 n (hd_Swap h 0 n))" and ?x = "hd_content h ! 0"
  obtain ys where ys: "hd_ok kf lf ?h" "hd_content ?h = ys @ [?x]" "heap_to (length ys) ys"
    using Pop_prepares [OF ok, of n] n by auto
  have get: "Heap_GetByKey ?h = Heap_GetByKey h"
    by (subst heap_down_keeps [of Heap_GetByKey]) simp_all
  have "?x \<in> ran (Heap_GetByKey h)"
    using content_get [OF ok(1)] n nth_mem [of 0 "hd_content h"] by simp
  then obtain key where key: "Heap_GetByKey h key = Some ?x" by (auto simp: ran_def)
  note x = get_key [OF assms(1) key]
  note pl = Pop_last [OF ys get]
  have "Heap_Pop h = (Inr ?x, snd (hd_Pop ?h))"
    using pl(1) n by (cases "hd_Pop ?h") (simp add: Heap_Pop_def heap_Pop_def hd_Len_def Let_def)
  moreover have "\<not> lf o' ?x" if "Heap_GetByKey h k = Some o'" for k o'
    using is_heap_least [OF ok(2)] that content_get [OF ok(1)] by (auto simp: ran_def)
  ultimately show ?thesis using pl(2) pl(3) [OF x] key x by blast
qed

lemma Delete_spec:
  assumes "valid h" and "kf obj = Inr key"
  shows "\<exists>h'. Heap_Delete obj h = (if Heap_GetByKey h key = None then Some ObjectNotFound else None, h')
    \<and> valid h' \<and> Heap_GetByKey h' = (Heap_GetByKey h)(key := None)"
proof -
  have ok: "hd_ok kf lf h" "is_heap h" using assms(1) by (simp_all add: valid_def)
  have kf: "hd_keyFunc h obj = Inr key" using hd_okD(1) [OF ok(1)] assms(2) by simp
  show ?thesis
  proof (cases "hd_items h key")
    case None
    then have "Heap_GetByKey h key = None" by (simp add: Heap_GetByKey_def)
    moreover from this have "(Heap_GetByKey h)(key := None) = Heap_GetByKey h" by (rule fun_upd_idem)
    ultimately show ?thesis
      using assms(1) kf None by (intro exI [of _ h]) (simp add: Heap_Delete_def)
  next
    case (Some item)
    let ?i = "item_index item" and ?x = "item_obj item"
    note pos = hd_item_pos [OF ok(1) Some]
    note key = hd_okD(6) [OF ok(1) Some]
    have "0 < length (hd_queue h)" using pos(1) by linarith
    then obtain n where n: "length (hd_queue h) = Suc n" by (auto simp: gr0_conv_Suc)
    define g where "g = (if n \<noteq> ?i then (case heap_down hd_Less hd_Swap ?i n (hd_Swap h ?i n) of
        (j, g) \<Rightarrow> if j > ?i then g else heap_up hd_Less hd_Swap ?i g) else h)"
    have "\<exists>ys. hd_ok kf lf g \<and> hd_content g = ys @ [?x] \<and> heap_to (length ys) ys"
    proof (cases "n = ?i")
      case True
      have g: "g = h" and x: "hd_content h ! n = ?x" using True pos(3) by (simp_all add: g_def)
      have "hd_content h = take (Suc n) (hd_content h)" by (simp add: n)
      also have "\<dots> = take n (hd_content h) @ [hd_content h ! n]"
        by (rule take_Suc_conv_app_nth) (simp add: n)
      finally have c: "hd_content g = take n (hd_content h) @ [?x]" unfolding g x .
      have "heap_to n (take n (hd_content h))"
        by (rule heap_to_cong [of n "hd_content h"]) (use ok(2) n in \<open>simp_all add: is_heap_def heap_to_def\<close>)
      moreover have "length (take n (hd_content h)) = n" by (simp add: n)
      ultimately have "heap_to (length (take n (hd_content h))) (take n (hd_content h))" by simp
      with ok(1) c g show ?thesis by blast
    next
      case False
      have len: "length (hd_content h) = Suc n" "?i < Suc n" using n pos(1) by simp_all
      obtain ys h' where "(case heap_down hd_Less hd_Swap ?i n (hd_Swap h ?i n) of
          (j, g) \<Rightarrow> if j > ?i then g else heap_up hd_Less hd_Swap ?i g) = h'"
        "hd_ok kf lf h'" "hd_content h' = ys @ [hd_content h ! ?i]" "heap_to (length ys) ys"
        by (rule Remove_prepares [OF ok len(1) False [symmetric] len(2)])
      then show ?thesis using False pos(3) by (intro exI [of _ ys]) (simp add: g_def)
    qed
    then obtain ys where ys: "hd_ok kf lf g" "hd_content g = ys @ [?x]" "heap_to (length ys) ys" by blast
    have get: "Heap_GetByKey g = Heap_GetByKey h"
      by (simp add: g_def case_prod_beta heap_up_keeps [of Heap_GetByKey] heap_down_keeps [of Heap_GetByKey])
    have "Heap_Delete obj h = (None, snd (hd_Pop g))"
      using kf Some n by (simp add: Heap_Delete_def heap_Remove_def hd_Len_def Let_def g_def case_prod_beta)
    then show ?thesis
      using Pop_last(2,3) [OF ys get] key assms(2) Some by (simp add: Heap_GetByKey_def)
  qed
qed

end

end
