(* ===== verification/Scheduling_Queue.thy ===== *)
theory Scheduling_Queue
  imports Scheduling_Heap
begin

text \<open>
  The queue of pods that wait for scheduling: PriorityQueue, UnschedulablePodsMap and nominatedPodMap
  of \<open>pkg/scheduler/internal/queue/scheduling_queue.go\<close>, on the keyed heap of the previous theory.
  Operations run under the lock of the queue.  Times are integers (nanoseconds), the zero time is 0.

  \<open>pod_Rest\<close> is the part of a pod that no operation looks into: its other metadata and its spec
  without the priority.  The test whether an affinity term of one pod matches another is an argument.
\<close>

section \<open>Pods\<close>

record PodCondition =
  cond_Type :: string
  cond_Status :: string
  cond_Reason :: string
  LastProbeTime :: int
  LastTransitionTime :: int

record 'x Pod =
  pod_Name :: string
  pod_Namespace :: string
  pod_UID :: string
  pod_ResourceVersion :: string
  pod_Generation :: int
  CreationTimestamp :: int
  spec_Priority :: "int option"
  pod_Rest :: 'x
  status_Conditions :: "PodCondition list"
  status_NominatedNodeName :: string

fun GetPodCondition :: "PodCondition list \<Rightarrow> string \<Rightarrow> PodCondition option" where
  "GetPodCondition [] t = None"
| "GetPodCondition (c # cs) t = (if cond_Type c = t then Some c else GetPodCondition cs t)"

definition podTimestamp :: "'x Pod \<Rightarrow> int" where
  "podTimestamp pod =
     (case GetPodCondition (status_Conditions pod) ''PodScheduled'' of
        None \<Rightarrow> CreationTimestamp pod
      | Some condition \<Rightarrow>
          if LastProbeTime condition = 0 then LastTransitionTime condition else LastProbeTime condition)"

definition GetPodPriority :: "'x Pod \<Rightarrow> int" where
  "GetPodPriority pod = (case spec_Priority pod of Some p \<Rightarrow> p | None \<Rightarrow> 0)"

definition activeQComp :: "'x Pod LessFunc" where
  "activeQComp p1 p2 \<longleftrightarrow>
     GetPodPriority p1 > GetPodPriority p2 \<or>
     (GetPodPriority p1 = GetPodPriority p2 \<and> podTimestamp p1 < podTimestamp p2)"

definition GetPodFullName :: "'x Pod \<Rightarrow> string" where
  "GetPodFullName pod = pod_Name pod @ ''_'' @ pod_Namespace pod"

definition podKey :: "'x Pod \<Rightarrow> string + string" where
  "podKey pod = MetaNamespaceKeyFunc (WithMeta (pod_Namespace pod) (pod_Name pod))"

definition isPodUnschedulable :: "'x Pod \<Rightarrow> bool" where
  "isPodUnschedulable pod =
     (case GetPodCondition (status_Conditions pod) ''PodScheduled'' of
        None \<Rightarrow> False
      | Some cond \<Rightarrow> cond_Status cond = ''False'' \<and> cond_Reason cond = ''Unschedulable'')"

definition stripPod :: "'x Pod \<Rightarrow> 'x Pod" where
  "stripPod pod = pod\<lparr>pod_ResourceVersion := '''', pod_Generation := 0,
     status_Conditions := [], status_NominatedNodeName := ''''\<rparr>"

definition isPodUpdated :: "'x Pod \<Rightarrow> 'x Pod \<Rightarrow> bool" where
  "isPodUpdated oldPod newPod \<longleftrightarrow> stripPod oldPod \<noteq> stripPod newPod"

section \<open>Nominated pods\<close>

record 'x nominatedPodMap =
  nominatedPods :: "string \<rightharpoonup> 'x Pod list"
  nominatedPodToNode :: "string \<rightharpoonup> string"

definition newNominatedPodMap :: "'x nominatedPodMap" where
  "newNominatedPodMap = \<lparr>nominatedPods = Map.empty, nominatedPodToNode = Map.empty\<rparr>"

definition podsForNode :: "'x nominatedPodMap \<Rightarrow> string \<Rightarrow> 'x Pod list" where
  "podsForNode npm nodeName = (case nominatedPods npm nodeName of Some list \<Rightarrow> list | None \<Rightarrow> [])"

text \<open>The loop that removes the first pod with the UID; \<open>None\<close> when there is no such pod.\<close>

fun removeUID :: "string \<Rightarrow> 'x Pod list \<Rightarrow> 'x Pod list option" where
  "removeUID uid [] = None"
| "removeUID uid (np # nps) =
     (if pod_UID np = uid then Some nps
      else map_option (\<lambda>rest. np # rest) (removeUID uid nps))"

definition npm_delete :: "'x Pod \<Rightarrow> 'x nominatedPodMap \<Rightarrow> 'x nominatedPodMap" where
  "npm_delete p npm =
     (case nominatedPodToNode npm (pod_UID p) of
        None \<Rightarrow> npm
      | Some nnn \<Rightarrow>
          (let pods = (case removeUID (pod_UID p) (podsForNode npm nnn) of
                         None \<Rightarrow> nominatedPods npm
                       | Some rest \<Rightarrow>
                           if rest = [] then (nominatedPods npm)(nnn := None)
                           else (nominatedPods npm)(nnn \<mapsto> rest))
           in npm\<lparr>nominatedPods := pods,
                  nominatedPodToNode := (nominatedPodToNode npm)(pod_UID p := None)\<rparr>))"

definition npm_add :: "'x Pod \<Rightarrow> string \<Rightarrow> 'x nominatedPodMap \<Rightarrow> 'x nominatedPodMap" where
  "npm_add p nodeName npm0 =
     (let npm = npm_delete p npm0;
          nnn = (if nodeName = '''' then status_NominatedNodeName p else nodeName)
      in if nnn = '''' then npm
         else
           (let npm' = npm\<lparr>nominatedPodToNode := (nominatedPodToNode npm)(pod_UID p \<mapsto> nnn)\<rparr>
            in if \<exists>np \<in> set (podsForNode npm' nnn). pod_UID np = pod_UID p then npm'
               else npm'\<lparr>nominatedPods := (nominatedPods npm')(nnn \<mapsto> podsForNode npm' nnn @ [p])\<rparr>))"

definition npm_update :: "'x Pod \<Rightarrow> 'x Pod \<Rightarrow> 'x nominatedPodMap \<Rightarrow> 'x nominatedPodMap" where
  "npm_update oldPod newPod npm = npm_add newPod '''' (npm_delete oldPod npm)"

section \<open>The priority queue\<close>

record 'x PriorityQueue =
  activeQ :: "'x Pod heapData"
  unschedulableQ :: "string \<rightharpoonup> 'x Pod"
  pq_nominated :: "'x nominatedPodMap"
  schedulingCycle :: int
  moveRequestCycle :: int
  pq_closed :: bool

datatype 'x pq_error =
    QueueClosed
  | ActiveQError "'x Pod heap_error"
  | AlreadyInUnschedulableQ
  | AlreadyInActiveQ

definition NewPriorityQueue :: "'x PriorityQueue" where
  "NewPriorityQueue =
     \<lparr>activeQ = newHeap podKey activeQComp, unschedulableQ = Map.empty,
      pq_nominated = newNominatedPodMap, schedulingCycle = 0, moveRequestCycle = -1, pq_closed = False\<rparr>"

definition us_get :: "'x Pod \<Rightarrow> 'x PriorityQueue \<Rightarrow> 'x Pod option" where
  "us_get pod p = unschedulableQ p (GetPodFullName pod)"

definition us_delete :: "'x Pod \<Rightarrow> 'x PriorityQueue \<Rightarrow> 'x PriorityQueue" where
  "us_delete pod p = p\<lparr>unschedulableQ := (unschedulableQ p)(GetPodFullName pod := None)\<rparr>"

definition us_addOrUpdate :: "'x Pod \<Rightarrow> 'x PriorityQueue \<Rightarrow> 'x PriorityQueue" where
  "us_addOrUpdate pod p = p\<lparr>unschedulableQ := (unschedulableQ p)(GetPodFullName pod \<mapsto> pod)\<rparr>"

definition us_clear :: "'x PriorityQueue \<Rightarrow> 'x PriorityQueue" where
  "us_clear p = p\<lparr>unschedulableQ := Map.empty\<rparr>"

definition inActiveQ :: "'x Pod \<Rightarrow> 'x PriorityQueue \<Rightarrow> bool" where
  "inActiveQ pod p = (case Heap_Get (activeQ p) pod of Inr (Some q) \<Rightarrow> True | _ \<Rightarrow> False)"

definition nominate :: "'x Pod \<Rightarrow> string \<Rightarrow> 'x PriorityQueue \<Rightarrow> 'x PriorityQueue" where
  "nominate pod nodeName p = p\<lparr>pq_nominated := npm_add pod nodeName (pq_nominated p)\<rparr>"

text \<open>Adding to the active queue; the continuation runs when there is no error.\<close>

definition activate ::
  "'x Pod \<Rightarrow> ('x PriorityQueue \<Rightarrow> 'x PriorityQueue) \<Rightarrow> 'x PriorityQueue
     \<Rightarrow> 'x pq_error option \<times> 'x PriorityQueue" where
  "activate pod after p =
     (case Heap_Add pod (activeQ p) of
        (Some err, h) \<Rightarrow> (Some (ActiveQError err), p\<lparr>activeQ := h\<rparr>)
      | (None, h) \<Rightarrow> (None, after (p\<lparr>activeQ := h\<rparr>)))"

definition pq_Add :: "'x Pod \<Rightarrow> 'x PriorityQueue \<Rightarrow> 'x pq_error option \<times> 'x PriorityQueue" where
  "pq_Add pod p =
     activate pod (\<lambda>p. nominate pod '''' (if us_get pod p \<noteq> None then us_delete pod p else p)) p"

definition pq_AddIfNotPresent :: "'x Pod \<Rightarrow> 'x PriorityQueue \<Rightarrow> 'x pq_error option \<times> 'x PriorityQueue" where
  "pq_AddIfNotPresent pod p =
     (if us_get pod p \<noteq> None then (None, p)
      else if inActiveQ pod p then (None, p)
      else activate pod (nominate pod '''') p)"

definition AddUnschedulableIfNotPresent ::
  "'x Pod \<Rightarrow> int \<Rightarrow> 'x PriorityQueue \<Rightarrow> 'x pq_error option \<times> 'x PriorityQueue" where
  "AddUnschedulableIfNotPresent pod podSchedulingCycle p =
     (if us_get pod p \<noteq> None then (Some AlreadyInUnschedulableQ, p)
      else if inActiveQ pod p then (Some AlreadyInActiveQ, p)
      else if podSchedulingCycle > moveRequestCycle p \<and> isPodUnschedulable pod
      then (None, nominate pod '''' (us_addOrUpdate pod p))
      else activate pod (nominate pod '''') p)"

datatype 'x pq_pop = PodPopped "'x Pod" | PodWaits | PodError "'x pq_error"

definition pq_Pop :: "'x PriorityQueue \<Rightarrow> 'x pq_pop \<times> 'x PriorityQueue" where
  "pq_Pop p =
     (if length (hd_queue (activeQ p)) = 0
      then (if pq_closed p then (PodError QueueClosed, p) else (PodWaits, p))
      else (case Heap_Pop (activeQ p) of
              (Inl err, h) \<Rightarrow> (PodError (ActiveQError err), p\<lparr>activeQ := h\<rparr>)
            | (Inr pod, h) \<Rightarrow>
                (PodPopped pod, p\<lparr>activeQ := h, schedulingCycle := schedulingCycle p + 1\<rparr>)))"

definition pq_Update ::
  "'x Pod \<Rightarrow> 'x Pod \<Rightarrow> 'x PriorityQueue \<Rightarrow> 'x pq_error option \<times> 'x PriorityQueue" where
  "pq_Update oldPod newPod p =
     (if inActiveQ newPod p then
        activate newPod (\<lambda>p. p) (p\<lparr>pq_nominated := npm_update oldPod newPod (pq_nominated p)\<rparr>)
      else
        (case us_get newPod p of
           Some usPod \<Rightarrow>
             (let p' = p\<lparr>pq_nominated := npm_update oldPod newPod (pq_nominated p)\<rparr>
              in if isPodUpdated oldPod newPod then activate newPod (\<lambda>p. p) (us_delete usPod p')
                 else (None, us_addOrUpdate newPod p'))
         | None \<Rightarrow> activate newPod (nominate newPod '''') p))"

definition pq_Delete :: "'x Pod \<Rightarrow> 'x PriorityQueue \<Rightarrow> 'x PriorityQueue" where
  "pq_Delete pod p =
     (let p' = p\<lparr>pq_nominated := npm_delete pod (pq_nominated p)\<rparr>
      in case Heap_Delete pod (activeQ p') of
           (Some err, h) \<Rightarrow> us_delete pod (p'\<lparr>activeQ := h\<rparr>)
         | (None, h) \<Rightarrow> p'\<lparr>activeQ := h\<rparr>)"

fun moveLoop :: "'x Pod list \<Rightarrow> 'x PriorityQueue \<Rightarrow> 'x PriorityQueue" where
  "moveLoop [] p = p"
| "moveLoop (pod # pods) p = moveLoop pods (snd (activate pod (us_delete pod) p))"

definition movePodsToActiveQueue :: "'x Pod list \<Rightarrow> 'x PriorityQueue \<Rightarrow> 'x PriorityQueue" where
  "movePodsToActiveQueue pods p =
     (let p' = moveLoop pods p in p'\<lparr>moveRequestCycle := schedulingCycle p'\<rparr>)"

text \<open>\<open>keys\<close> is the order in which a loop ranges over the unschedulable pods.\<close>

definition unschedulablePods :: "string list \<Rightarrow> 'x PriorityQueue \<Rightarrow> 'x Pod list" where
  "unschedulablePods keys p = List.map_filter (unschedulableQ p) keys"

definition unschedulableQTimeInterval :: int where
  "unschedulableQTimeInterval = 60 * 1000000000"

definition flushUnschedulableQLeftover ::
  "int \<Rightarrow> string list \<Rightarrow> 'x PriorityQueue \<Rightarrow> 'x PriorityQueue" where
  "flushUnschedulableQLeftover currentTime keys p =
     (let podsToMove = filter (\<lambda>pod. podTimestamp pod \<noteq> 0 \<and>
            currentTime - podTimestamp pod > unschedulableQTimeInterval) (unschedulablePods keys p)
      in if length podsToMove > 0 then movePodsToActiveQueue podsToMove p else p)"

fun addAllLoop :: "'x Pod list \<Rightarrow> 'x PriorityQueue \<Rightarrow> 'x PriorityQueue" where
  "addAllLoop [] p = p"
| "addAllLoop (pod # pods) p = addAllLoop pods (snd (activate pod (\<lambda>p. p) p))"

definition MoveAllToActiveQueue :: "string list \<Rightarrow> 'x PriorityQueue \<Rightarrow> 'x PriorityQueue" where
  "MoveAllToActiveQueue keys p =
     (let p' = us_clear (addAllLoop (unschedulablePods keys p) p)
      in p'\<lparr>moveRequestCycle := schedulingCycle p'\<rparr>)"

definition AssignedPodAdded ::
  "('x Pod \<Rightarrow> 'x Pod \<Rightarrow> bool) \<Rightarrow> string list \<Rightarrow> 'x Pod \<Rightarrow> 'x PriorityQueue \<Rightarrow> 'x PriorityQueue" where
  "AssignedPodAdded affinityMatches keys pod p =
     movePodsToActiveQueue (filter (\<lambda>up. affinityMatches up pod) (unschedulablePods keys p)) p"

definition AssignedPodUpdated ::
  "('x Pod \<Rightarrow> 'x Pod \<Rightarrow> bool) \<Rightarrow> string list \<Rightarrow> 'x Pod \<Rightarrow> 'x PriorityQueue \<Rightarrow> 'x PriorityQueue" where
  "AssignedPodUpdated affinityMatches keys pod p =
     movePodsToActiveQueue (filter (\<lambda>up. affinityMatches up pod) (unschedulablePods keys p)) p"

definition pq_NominatedPodsForNode :: "string \<Rightarrow> 'x PriorityQueue \<Rightarrow> 'x Pod list" where
  "pq_NominatedPodsForNode nodeName p = podsForNode (pq_nominated p) nodeName"

definition WaitingPods :: "string list \<Rightarrow> string list \<Rightarrow> 'x PriorityQueue \<Rightarrow> 'x Pod list" where
  "WaitingPods activeKeys keys p = Heap_List activeKeys (activeQ p) @ unschedulablePods keys p"

definition pq_Close :: "'x PriorityQueue \<Rightarrow> 'x PriorityQueue" where
  "pq_Close p = p\<lparr>pq_closed := True\<rparr>"

definition DeleteNominatedPodIfExists :: "'x Pod \<Rightarrow> 'x PriorityQueue \<Rightarrow> 'x PriorityQueue" where
  "DeleteNominatedPodIfExists pod p = p\<lparr>pq_nominated := npm_delete pod (pq_nominated p)\<rparr>"

definition UpdateNominatedPodForNode :: "'x Pod \<Rightarrow> string \<Rightarrow> 'x PriorityQueue \<Rightarrow> 'x PriorityQueue" where
  "UpdateNominatedPodForNode pod nodeName p = nominate pod nodeName p"

section \<open>Nominations are unique\<close>

text \<open>
  The two maps agree, no list holds a UID twice, and no empty list is kept: a UID is nominated for at
  most one node.
\<close>

definition npm_ok :: "'x nominatedPodMap \<Rightarrow> bool" where
  "npm_ok npm \<longleftrightarrow>
     (\<forall>uid n. nominatedPodToNode npm uid = Some n \<longleftrightarrow> uid \<in> pod_UID ` set (podsForNode npm n)) \<and>
     (\<forall>n. distinct (map pod_UID (podsForNode npm n))) \<and>
     (\<forall>n. nominatedPods npm n \<noteq> Some [])"

definition others :: "'x Pod \<Rightarrow> 'x Pod list \<Rightarrow> 'x Pod list" where
  "others p = filter (\<lambda>q. pod_UID q \<noteq> pod_UID p)"

lemma npm_okD:
  assumes "npm_ok npm"
  shows "nominatedPodToNode npm uid = Some n \<longleftrightarrow> uid \<in> pod_UID ` set (podsForNode npm n)"
    and "distinct (map pod_UID (podsForNode npm n))" and "nominatedPods npm n \<noteq> Some []"
  using assms by (simp_all add: npm_ok_def)

lemma removeUID_None: "removeUID uid ps = None \<longleftrightarrow> uid \<notin> pod_UID ` set ps"
  by (induction ps) auto

lemma others_absent: "pod_UID p \<notin> pod_UID ` set ps \<Longrightarrow> others p ps = ps"
  unfolding others_def by (rule filter_True) (metis image_eqI)

lemma removeUID_Some:
  "distinct (map pod_UID ps) \<Longrightarrow> removeUID (pod_UID p) ps = Some rest \<Longrightarrow> rest = others p ps"
proof (induction ps arbitrary: rest)
  case (Cons q ps)
  show ?case
  proof (cases "pod_UID q = pod_UID p")
    case True
    then have "pod_UID p \<notin> pod_UID ` set ps" using Cons.prems(1) by auto
    with True Cons.prems(2) others_absent [of p ps] show ?thesis by (simp add: others_def)
  next
    case False
    with Cons show ?thesis by (auto simp: others_def)
  qed
qed simp

lemma podsForNode_delete:
  assumes "npm_ok npm"
  shows "podsForNode (npm_delete p npm) n = others p (podsForNode npm n)"
proof (cases "nominatedPodToNode npm (pod_UID p)")
  case None
  then have "pod_UID p \<notin> pod_UID ` set (podsForNode npm n)"
    using npm_okD(1) [OF assms, of "pod_UID p" n] by simp
  with None show ?thesis by (simp add: npm_delete_def others_absent)
next
  case (Some nnn)
  have at: "pod_UID p \<in> pod_UID ` set (podsForNode npm nnn)"
    using Some npm_okD(1) [OF assms] by blast
  then obtain rest where rest: "removeUID (pod_UID p) (podsForNode npm nnn) = Some rest"
    using removeUID_None [of "pod_UID p" "podsForNode npm nnn"] by auto
  note eq = removeUID_Some [OF npm_okD(2) [OF assms] rest]
  have "pod_UID p \<notin> pod_UID ` set (podsForNode npm n)" if "n \<noteq> nnn"
    using that Some npm_okD(1) [OF assms, of "pod_UID p" n] by auto
  then show ?thesis
    using Some rest eq
    by (cases "n = nnn") (auto simp: npm_delete_def Let_def podsForNode_def others_absent)
qed

lemma toNode_delete [simp]:
  "nominatedPodToNode (npm_delete p npm) = (nominatedPodToNode npm)(pod_UID p := None)"
  by (cases "nominatedPodToNode npm (pod_UID p)") (auto simp: npm_delete_def Let_def)

lemma delete_nonempty: "npm_ok npm \<Longrightarrow> nominatedPods (npm_delete p npm) n \<noteq> Some []"
  using npm_okD(3) [of npm n]
  by (auto simp: npm_delete_def Let_def split: option.splits)

lemma npm_ok_delete:
  assumes "npm_ok npm"
  shows "npm_ok (npm_delete p npm)"
  unfolding npm_ok_def podsForNode_delete [OF assms] toNode_delete
proof (intro conjI allI)
  fix uid n
  show "((nominatedPodToNode npm)(pod_UID p := None)) uid = Some n \<longleftrightarrow>
      uid \<in> pod_UID ` set (others p (podsForNode npm n))"
    using npm_okD(1) [OF assms, of uid n] by (auto simp: others_def)
  show "distinct (map pod_UID (others p (podsForNode npm n)))"
    using npm_okD(2) [OF assms] by (simp add: others_def distinct_map_filter)
  show "nominatedPods (npm_delete p npm) n \<noteq> Some []"
    by (rule delete_nonempty [OF assms])
qed

definition targetNode :: "'x Pod \<Rightarrow> string \<Rightarrow> string" where
  "targetNode p nodeName = (if nodeName = '''' then status_NominatedNodeName p else nodeName)"

lemma podsForNode_add:
  assumes "npm_ok npm"
  shows "podsForNode (npm_add p nodeName npm) n =
    others p (podsForNode npm n) @ (if n = targetNode p nodeName \<and> n \<noteq> '''' then [p] else [])"
proof -
  have "\<not> (\<exists>np \<in> set (podsForNode (npm_delete p npm) m). pod_UID np = pod_UID p)" for m
    by (simp add: podsForNode_delete [OF assms] others_def)
  then show ?thesis
    using podsForNode_delete [OF assms, of p]
    by (auto simp: npm_add_def Let_def targetNode_def podsForNode_def)
qed

lemma npm_ok_add:
  assumes "npm_ok npm"
  shows "npm_ok (npm_add p nodeName npm)"
proof -
  let ?t = "targetNode p nodeName"
  have fresh: "\<not> (\<exists>np \<in> set (podsForNode (npm_delete p npm) m). pod_UID np = pod_UID p)" for m
    by (simp add: podsForNode_delete [OF assms] others_def)
  have toNode: "nominatedPodToNode (npm_add p nodeName npm) =
      (nominatedPodToNode npm)(pod_UID p := if ?t = '''' then None else Some ?t)"
    by (auto simp: npm_add_def Let_def targetNode_def)
  have "nominatedPods (npm_add p nodeName npm) n \<noteq> Some []" for n
    using delete_nonempty [OF assms, of p n]
    by (auto simp: npm_add_def Let_def)
  moreover have "distinct (map pod_UID (podsForNode (npm_add p nodeName npm) n))" for n
    using npm_okD(2) [OF assms, of n]
    by (auto simp: podsForNode_add [OF assms] others_def distinct_map_filter)
  moreover have "nominatedPodToNode (npm_add p nodeName npm) uid = Some n \<longleftrightarrow>
      uid \<in> pod_UID ` set (podsForNode (npm_add p nodeName npm) n)" for uid n
    using npm_okD(1) [OF assms, of uid n]
    by (auto simp: toNode podsForNode_add [OF assms] others_def)
  ultimately show ?thesis by (simp add: npm_ok_def)
qed

lemma npm_ok_new: "npm_ok newNominatedPodMap"
  by (simp add: npm_ok_def newNominatedPodMap_def podsForNode_def)

lemma npm_ok_update: "npm_ok npm \<Longrightarrow> npm_ok (npm_update oldPod newPod npm)"
  by (simp add: npm_update_def npm_ok_add npm_ok_delete)

lemma npm_unique:
  assumes "npm_ok npm" and "q \<in> set (podsForNode npm n)" and "r \<in> set (podsForNode npm m)" and "pod_UID q = pod_UID r"
  shows "n = m \<and> q = r"
proof -
  have "nominatedPodToNode npm (pod_UID q) = Some n" "nominatedPodToNode npm (pod_UID q) = Some m"
    using npm_okD(1) [OF assms(1)] imageI [OF assms(2), of pod_UID] imageI [OF assms(3), of pod_UID] assms(4)
    by simp_all
  then have "n = m" by simp
  with npm_okD(2) [OF assms(1), of n] assms(2-4) show ?thesis by (auto simp: distinct_map inj_on_def)
qed

section \<open>The invariant of the queue\<close>

text \<open>Pods are the same for the queue when they have the same namespace and name.\<close>

definition same_pod :: "'x Pod \<Rightarrow> 'x Pod \<Rightarrow> bool" where
  "same_pod p q \<longleftrightarrow> pod_Namespace p = pod_Namespace q \<and> pod_Name p = pod_Name q"

text \<open>What the API server's name validation guarantees about the separators.\<close>

definition valid_pod :: "'x Pod \<Rightarrow> bool" where
  "valid_pod p \<longleftrightarrow> CHR ''/'' \<notin> set (pod_Namespace p) \<and> CHR ''/'' \<notin> set (pod_Name p)
     \<and> CHR ''_'' \<notin> set (pod_Name p)"

definition activeKey :: "'x Pod \<Rightarrow> string" where
  "activeKey p = (if pod_Namespace p = '''' then pod_Name p else pod_Namespace p @ ''/'' @ pod_Name p)"

lemma podKey_eq: "podKey p = Inr (activeKey p)"
  by (simp add: podKey_def MetaNamespaceKeyFunc_def activeKey_def)

lemma same_pod_refl [simp]: "same_pod p p"
  by (simp add: same_pod_def)

lemma same_pod_sym: "same_pod p q \<longleftrightarrow> same_pod q p"
  by (auto simp: same_pod_def)

lemma activeKey_iff:
  assumes "valid_pod p" and "valid_pod q"
  shows "activeKey p = activeKey q \<longleftrightarrow> same_pod p q"
proof -
  have no: "pod_Name p \<noteq> s @ ''/'' @ t" "pod_Name q \<noteq> s @ ''/'' @ t" for s t
    using assms by (auto simp: valid_pod_def)
  have sep: "pod_Namespace p @ ''/'' @ pod_Name p = pod_Namespace q @ ''/'' @ pod_Name q \<longleftrightarrow> same_pod p q"
    using assms first_separator_unique [of "CHR ''/''" "pod_Namespace p" "pod_Namespace q"]
    by (simp add: same_pod_def valid_pod_def)
  show ?thesis
  proof (cases "pod_Namespace p = ''''")
    case True
    then show ?thesis
      using no(1) by (cases "pod_Namespace q = ''''") (simp_all add: activeKey_def same_pod_def)
  next
    case False
    then show ?thesis
      using sep no(2) [THEN not_sym] by (cases "pod_Namespace q = ''''") (simp_all add: activeKey_def same_pod_def)
  qed
qed

lemma fullName_iff:
  "valid_pod p \<Longrightarrow> valid_pod q \<Longrightarrow> GetPodFullName p = GetPodFullName q \<longleftrightarrow> same_pod p q"
  using first_separator_unique [of "CHR ''_''" "pod_Name p" "pod_Name q"]
  by (auto simp: GetPodFullName_def same_pod_def valid_pod_def)

interpretation activeHeap: keyed_heap activeQComp podKey
  by unfold_locales (auto simp: activeQComp_def)

definition active :: "'x PriorityQueue \<Rightarrow> 'x Pod set" where
  "active p = ran (Heap_GetByKey (activeQ p))"

definition unschedulable :: "'x PriorityQueue \<Rightarrow> 'x Pod set" where
  "unschedulable p = ran (unschedulableQ p)"

text \<open>
  What holds between any two statements of an operation, and the invariant between operations: a pod
  waits in one of the two queues only.
\<close>

definition pq_base :: "'x PriorityQueue \<Rightarrow> bool" where
  "pq_base p \<longleftrightarrow>
     activeHeap.valid (activeQ p) \<and>
     (\<forall>q \<in> active p. valid_pod q) \<and> (\<forall>q \<in> unschedulable p. valid_pod q) \<and>
     (\<forall>k q. unschedulableQ p k = Some q \<longrightarrow> GetPodFullName q = k) \<and>
     npm_ok (pq_nominated p)"

definition pq_inv :: "'x PriorityQueue \<Rightarrow> bool" where
  "pq_inv p \<longleftrightarrow> pq_base p \<and> (\<forall>a \<in> active p. \<forall>u \<in> unschedulable p. \<not> same_pod a u)"

lemma pq_baseD:
  assumes "pq_base p"
  shows "activeHeap.valid (activeQ p)" and "q \<in> active p \<Longrightarrow> valid_pod q"
    and "q \<in> unschedulable p \<Longrightarrow> valid_pod q"
    and "unschedulableQ p k = Some q \<Longrightarrow> GetPodFullName q = k"
    and "npm_ok (pq_nominated p)"
  using assms by (auto simp: pq_base_def)

text \<open>A set of pods with one pod put in, or taken out, by its name.\<close>

definition without :: "'x Pod \<Rightarrow> 'x Pod set \<Rightarrow> 'x Pod set" where
  "without pod S = {q \<in> S. \<not> same_pod q pod}"

definition putPod :: "'x Pod \<Rightarrow> 'x Pod set \<Rightarrow> 'x Pod set" where
  "putPod pod S = insert pod (without pod S)"

lemma get_activeKey: "activeHeap.valid h \<Longrightarrow> Heap_GetByKey h k = Some q \<Longrightarrow> activeKey q = k"
  using activeHeap.get_key [of h k q] by (simp add: podKey_eq)

lemma without_keys:
  assumes "\<And>q. q \<in> S \<Longrightarrow> valid_pod q" and "valid_pod pod"
  shows "{q \<in> S. activeKey q \<noteq> activeKey pod} = without pod S"
    and "{q \<in> S. GetPodFullName q \<noteq> GetPodFullName pod} = without pod S"
  using assms activeKey_iff fullName_iff unfolding without_def by blast+

lemma inActiveQ_iff:
  assumes "pq_base p" and "valid_pod pod"
  shows "inActiveQ pod p \<longleftrightarrow> (\<exists>q \<in> active p. same_pod q pod)"
proof -
  note v = pq_baseD(1) [OF assms(1)]
  have "inActiveQ pod p \<longleftrightarrow> Heap_GetByKey (activeQ p) (activeKey pod) \<noteq> None"
    using v by (auto simp: inActiveQ_def Heap_Get_def activeHeap.valid_def hd_ok_def podKey_eq
        split: option.split)
  also have "\<dots> \<longleftrightarrow> (\<exists>q \<in> active p. activeKey q = activeKey pod)"
    using ran_keyed_lookup [of "Heap_GetByKey (activeQ p)" activeKey, OF get_activeKey [OF v]]
    by (auto simp: active_def)
  also have "\<dots> \<longleftrightarrow> (\<exists>q \<in> active p. same_pod q pod)"
    using activeKey_iff pq_baseD(2) [OF assms(1)] assms(2) by blast
  finally show ?thesis .
qed

lemma us_get_iff:
  assumes "pq_base p" and "valid_pod pod"
  shows "us_get pod p \<noteq> None \<longleftrightarrow> (\<exists>q \<in> unschedulable p. same_pod q pod)"
proof -
  have "us_get pod p \<noteq> None \<longleftrightarrow> (\<exists>q \<in> unschedulable p. GetPodFullName q = GetPodFullName pod)"
    using ran_keyed_lookup [of "unschedulableQ p" GetPodFullName, OF pq_baseD(4) [OF assms(1)]]
    by (auto simp: us_get_def unschedulable_def)
  also have "\<dots> \<longleftrightarrow> (\<exists>q \<in> unschedulable p. same_pod q pod)"
    using fullName_iff pq_baseD(3) [OF assms(1)] assms(2) by blast
  finally show ?thesis .
qed


section \<open>What the steps of an operation do\<close>

lemma fields_simps [simp]:
  "active (p\<lparr>activeQ := h\<rparr>) = ran (Heap_GetByKey h)"
  "unschedulable (p\<lparr>activeQ := h\<rparr>) = unschedulable p"
  "active (p\<lparr>pq_nominated := npm\<rparr>) = active p"
  "unschedulable (p\<lparr>pq_nominated := npm\<rparr>) = unschedulable p"
  "active (p\<lparr>moveRequestCycle := c\<rparr>) = active p"
  "unschedulable (p\<lparr>moveRequestCycle := c\<rparr>) = unschedulable p"
  "active (p\<lparr>schedulingCycle := c\<rparr>) = active p"
  "unschedulable (p\<lparr>schedulingCycle := c\<rparr>) = unschedulable p"
  "active (p\<lparr>pq_closed := b\<rparr>) = active p"
  "unschedulable (p\<lparr>pq_closed := b\<rparr>) = unschedulable p"
  "active (p\<lparr>unschedulableQ := m\<rparr>) = active p"
  "unschedulable (p\<lparr>unschedulableQ := m\<rparr>) = ran m"
  by (simp_all add: active_def unschedulable_def)

lemma base_simps [simp]:
  "pq_base (p\<lparr>moveRequestCycle := c\<rparr>) = pq_base p"
  "pq_base (p\<lparr>schedulingCycle := c\<rparr>) = pq_base p"
  "pq_base (p\<lparr>pq_closed := b\<rparr>) = pq_base p"
  by (simp_all add: pq_base_def)

lemma base_nominated: "pq_base p \<Longrightarrow> npm_ok npm \<Longrightarrow> pq_base (p\<lparr>pq_nominated := npm\<rparr>)"
  by (simp add: pq_base_def)

lemma base_activeQ:
  "pq_base p \<Longrightarrow> activeHeap.valid h \<Longrightarrow> (\<And>q. q \<in> ran (Heap_GetByKey h) \<Longrightarrow> valid_pod q) \<Longrightarrow>
    pq_base (p\<lparr>activeQ := h\<rparr>)"
  by (simp add: pq_base_def)

lemma nominate_simps [simp]:
  "active (nominate pod n p) = active p" "unschedulable (nominate pod n p) = unschedulable p"
  "schedulingCycle (nominate pod n p) = schedulingCycle p"
  "moveRequestCycle (nominate pod n p) = moveRequestCycle p"
  by (simp_all add: nominate_def)

lemma base_nominate: "pq_base p \<Longrightarrow> pq_base (nominate pod n p)"
  using pq_baseD(5) [of p] by (simp add: nominate_def base_nominated npm_ok_add)

lemma valid_putPod: "(\<And>q. q \<in> S \<Longrightarrow> valid_pod q) \<Longrightarrow> valid_pod pod \<Longrightarrow> q \<in> putPod pod S \<Longrightarrow> valid_pod q"
  by (auto simp: putPod_def without_def)

text \<open>Adding a valid pod to the active queue never fails.\<close>

lemma activate_spec:
  assumes "pq_base p" and "valid_pod pod"
  obtains h where "\<And>after. activate pod after p = (None, after (p\<lparr>activeQ := h\<rparr>))"
    and "pq_base (p\<lparr>activeQ := h\<rparr>)" and "active (p\<lparr>activeQ := h\<rparr>) = putPod pod (active p)"
proof -
  note v = pq_baseD(1) [OF assms(1)]
  obtain h where h: "Heap_Add pod (activeQ p) = (None, h)" "activeHeap.valid h"
      "Heap_GetByKey h = (Heap_GetByKey (activeQ p))(activeKey pod \<mapsto> pod)"
    using activeHeap.Add_spec [OF v podKey_eq] by blast
  have "ran (Heap_GetByKey h) = insert pod {q \<in> active p. activeKey q \<noteq> activeKey pod}"
    using ran_keyed_upd [of "Heap_GetByKey (activeQ p)" activeKey "activeKey pod" pod, OF get_activeKey [OF v]]
    by (simp add: h(3) active_def)
  also have "\<dots> = putPod pod (active p)"
    using without_keys(1) [OF pq_baseD(2) [OF assms(1)] assms(2)] by (simp add: putPod_def)
  finally have ran: "ran (Heap_GetByKey h) = putPod pod (active p)" .
  show thesis
  proof (rule that [of h])
    show "activate pod after p = (None, after (p\<lparr>activeQ := h\<rparr>))" for after
      by (simp add: activate_def h(1))
    show "pq_base (p\<lparr>activeQ := h\<rparr>)"
      using valid_putPod [OF pq_baseD(2) [OF assms(1)] assms(2)] ran by (intro base_activeQ assms h) auto
    show "active (p\<lparr>activeQ := h\<rparr>) = putPod pod (active p)" using ran by simp
  qed
qed

lemma us_delete_spec:
  assumes "pq_base p" and "valid_pod pod"
  shows "pq_base (us_delete pod p)" and "active (us_delete pod p) = active p"
    and "unschedulable (us_delete pod p) = without pod (unschedulable p)"
proof -
  have "ran ((unschedulableQ p)(GetPodFullName pod := None)) =
      {q \<in> unschedulable p. GetPodFullName q \<noteq> GetPodFullName pod}"
    using ran_keyed_del [of "unschedulableQ p" GetPodFullName "GetPodFullName pod", OF pq_baseD(4) [OF assms(1)]]
    by (simp add: unschedulable_def)
  also have "\<dots> = without pod (unschedulable p)"
    by (rule without_keys(2) [OF pq_baseD(3) [OF assms(1)] assms(2)])
  finally show "unschedulable (us_delete pod p) = without pod (unschedulable p)"
    by (simp add: us_delete_def)
  then show "pq_base (us_delete pod p)"
    using assms(1) unfolding pq_base_def by (auto simp: us_delete_def without_def)
  show "active (us_delete pod p) = active p" by (simp add: us_delete_def)
qed

lemma us_addOrUpdate_spec:
  assumes "pq_base p" and "valid_pod pod"
  shows "pq_base (us_addOrUpdate pod p)" and "active (us_addOrUpdate pod p) = active p"
    and "unschedulable (us_addOrUpdate pod p) = putPod pod (unschedulable p)"
proof -
  have "ran ((unschedulableQ p)(GetPodFullName pod \<mapsto> pod)) =
      insert pod {q \<in> unschedulable p. GetPodFullName q \<noteq> GetPodFullName pod}"
    using ran_keyed_upd [of "unschedulableQ p" GetPodFullName "GetPodFullName pod" pod,
      OF pq_baseD(4) [OF assms(1)]]
    by (simp add: unschedulable_def)
  also have "\<dots> = putPod pod (unschedulable p)"
    using without_keys(2) [OF pq_baseD(3) [OF assms(1)] assms(2)] by (simp add: putPod_def)
  finally show eq: "unschedulable (us_addOrUpdate pod p) = putPod pod (unschedulable p)"
    by (simp add: us_addOrUpdate_def)
  have "\<forall>q \<in> unschedulable (us_addOrUpdate pod p). valid_pod q"
    using valid_putPod [OF pq_baseD(3) [OF assms(1)] assms(2)] by (simp add: eq)
  then show "pq_base (us_addOrUpdate pod p)"
    using assms(1) unfolding pq_base_def by (simp add: us_addOrUpdate_def)
  show "active (us_addOrUpdate pod p) = active p" by (simp add: us_addOrUpdate_def)
qed

section \<open>What the operations do\<close>

text \<open>
  The contract of an operation: it keeps the invariant and turns the pods of the active and the
  unschedulable queue into the given ones.
\<close>

definition refines :: "'x PriorityQueue \<Rightarrow> 'x Pod set \<Rightarrow> 'x Pod set \<Rightarrow> bool" where
  "refines p A U \<longleftrightarrow> pq_inv p \<and> active p = A \<and> unschedulable p = U"

definition present :: "'x Pod \<Rightarrow> 'x Pod set \<Rightarrow> bool" where
  "present pod S \<longleftrightarrow> (\<exists>q \<in> S. same_pod q pod)"

lemma without_absent: "\<not> present pod S \<Longrightarrow> without pod S = S"
  by (auto simp: present_def without_def)

lemma same_pod_trans: "same_pod a b \<Longrightarrow> same_pod b c \<Longrightarrow> same_pod a c"
  by (simp add: same_pod_def)

lemma refinesI:
  "pq_base p \<Longrightarrow> active p = A \<Longrightarrow> unschedulable p = U \<Longrightarrow> (\<forall>a \<in> A. \<forall>u \<in> U. \<not> same_pod a u) \<Longrightarrow> refines p A U"
  by (simp add: refines_def pq_inv_def)

lemma pq_invD:
  assumes "pq_inv p"
  shows "pq_base p" and "\<forall>a \<in> active p. \<forall>u \<in> unschedulable p. \<not> same_pod a u"
  using assms by (simp_all add: pq_inv_def)

lemma apart_put_without:
  "\<forall>a \<in> A. \<forall>u \<in> U. \<not> same_pod a u \<Longrightarrow> \<forall>a \<in> putPod pod A. \<forall>u \<in> without pod U. \<not> same_pod a u"
  by (auto simp: putPod_def without_def same_pod_def)

lemma apart_without:
  "\<forall>a \<in> A. \<forall>u \<in> U. \<not> same_pod a u \<Longrightarrow> \<forall>a \<in> without pod A. \<forall>u \<in> U. \<not> same_pod a u"
  "\<forall>a \<in> A. \<forall>u \<in> U. \<not> same_pod a u \<Longrightarrow> \<forall>a \<in> A. \<forall>u \<in> without pod U. \<not> same_pod a u"
  by (auto simp: without_def)

lemma apart_without_put:
  "\<forall>a \<in> A. \<forall>u \<in> U. \<not> same_pod a u \<Longrightarrow> \<not> present pod A \<Longrightarrow> \<forall>a \<in> A. \<forall>u \<in> putPod pod U. \<not> same_pod a u"
  by (auto simp: putPod_def without_def same_pod_def present_def)

lemma in_queues:
  assumes "pq_inv p" and "valid_pod pod"
  shows "inActiveQ pod p \<longleftrightarrow> present pod (active p)" and "us_get pod p \<noteq> None \<longleftrightarrow> present pod (unschedulable p)"
  using inActiveQ_iff [OF pq_invD(1) [OF assms(1)] assms(2)] us_get_iff [OF pq_invD(1) [OF assms(1)] assms(2)]
  by (simp_all add: present_def)

text \<open>Add puts the pod into the active queue and takes it out of the other one.\<close>

lemma activate_then_delete:
  assumes "pq_base p" and "valid_pod pod"
  shows "fst (activate pod (us_delete pod) p) = None"
    and "pq_base (snd (activate pod (us_delete pod) p))"
    and "active (snd (activate pod (us_delete pod) p)) = putPod pod (active p)"
    and "unschedulable (snd (activate pod (us_delete pod) p)) = without pod (unschedulable p)"
proof -
  obtain h where h: "\<And>after. activate pod after p = (None, after (p\<lparr>activeQ := h\<rparr>))"
    "pq_base (p\<lparr>activeQ := h\<rparr>)" "active (p\<lparr>activeQ := h\<rparr>) = putPod pod (active p)"
    using activate_spec [OF assms] by blast
  note d = us_delete_spec [OF h(2) assms(2)]
  show "fst (activate pod (us_delete pod) p) = None"
    and "pq_base (snd (activate pod (us_delete pod) p))"
    and "active (snd (activate pod (us_delete pod) p)) = putPod pod (active p)"
    and "unschedulable (snd (activate pod (us_delete pod) p)) = without pod (unschedulable p)"
    using d h(3) by (simp_all add: h(1))
qed

lemma us_delete_absent: "us_get pod p = None \<Longrightarrow> us_delete pod p = p"
  unfolding us_get_def us_delete_def by (simp add: fun_upd_idem)

lemma Add_refines:
  assumes "pq_inv p" and "valid_pod pod"
  shows "fst (pq_Add pod p) = None"
    and "refines (snd (pq_Add pod p)) (putPod pod (active p)) (without pod (unschedulable p))"
proof -
  have "pq_Add pod p = (fst (activate pod (us_delete pod) p), nominate pod '''' (snd (activate pod (us_delete pod) p)))"
    if "fst (activate pod (us_delete pod) p) = None"
    using that by (auto simp: pq_Add_def activate_def us_delete_absent split: prod.splits option.splits)
  with activate_then_delete [OF pq_invD(1) [OF assms(1)] assms(2)] apart_put_without [OF pq_invD(2) [OF assms(1)]]
  show "fst (pq_Add pod p) = None"
    and "refines (snd (pq_Add pod p)) (putPod pod (active p)) (without pod (unschedulable p))"
    by (simp_all add: refinesI base_nominate)
qed

lemma activate_absent:
  assumes "pq_inv p" and "valid_pod pod" and "\<not> present pod (unschedulable p)"
  shows "fst (activate pod (nominate pod n) p) = None"
    and "refines (snd (activate pod (nominate pod n) p)) (putPod pod (active p)) (unschedulable p)"
proof -
  obtain h where h: "\<And>after. activate pod after p = (None, after (p\<lparr>activeQ := h\<rparr>))"
    "pq_base (p\<lparr>activeQ := h\<rparr>)" "active (p\<lparr>activeQ := h\<rparr>) = putPod pod (active p)"
    using activate_spec [OF pq_invD(1) [OF assms(1)] assms(2)] by blast
  have "\<forall>a \<in> putPod pod (active p). \<forall>u \<in> unschedulable p. \<not> same_pod a u"
    using apart_put_without [OF pq_invD(2) [OF assms(1)], of pod] without_absent [OF assms(3)] by simp
  then show "fst (activate pod (nominate pod n) p) = None"
    and "refines (snd (activate pod (nominate pod n) p)) (putPod pod (active p)) (unschedulable p)"
    using h(2,3) by (simp_all add: h(1) refinesI base_nominate)
qed

lemma refines_self: "pq_inv p \<Longrightarrow> refines p (active p) (unschedulable p)"
  by (simp add: refines_def)

lemma putPod_absent: "\<not> present pod S \<Longrightarrow> putPod pod S = insert pod S"
  by (simp add: putPod_def without_absent)

lemma AddIfNotPresent_refines:
  assumes "pq_inv p" and "valid_pod pod"
  shows "fst (pq_AddIfNotPresent pod p) = None"
    and "refines (snd (pq_AddIfNotPresent pod p))
      (if present pod (active p) \<or> present pod (unschedulable p) then active p else insert pod (active p))
      (unschedulable p)"
  using activate_absent [OF assms, of "''''"] in_queues [OF assms] refines_self [OF assms(1)]
  by (auto simp: pq_AddIfNotPresent_def putPod_absent)

text \<open>A pod that failed goes to the unschedulable queue unless a move request arrived since its cycle.\<close>

definition staysUnschedulable :: "'x Pod \<Rightarrow> int \<Rightarrow> 'x PriorityQueue \<Rightarrow> bool" where
  "staysUnschedulable pod cycle p \<longleftrightarrow> cycle > moveRequestCycle p \<and> isPodUnschedulable pod"

lemma AddUnschedulable_refines:
  assumes "pq_inv p" and "valid_pod pod"
  shows "fst (AddUnschedulableIfNotPresent pod c p) =
      (if present pod (unschedulable p) then Some AlreadyInUnschedulableQ
       else if present pod (active p) then Some AlreadyInActiveQ else None)"
    and "refines (snd (AddUnschedulableIfNotPresent pod c p))
      (if present pod (active p) \<or> present pod (unschedulable p) \<or> staysUnschedulable pod c p then active p
       else insert pod (active p))
      (if present pod (active p) \<or> present pod (unschedulable p) \<or> \<not> staysUnschedulable pod c p
       then unschedulable p else insert pod (unschedulable p))"
proof -
  note b = pq_invD(1) [OF assms(1)]
  note u = us_addOrUpdate_spec [OF b assms(2)]
  have keep: "refines (nominate pod '''' (us_addOrUpdate pod p)) (active p) (putPod pod (unschedulable p))"
    if "\<not> present pod (active p)"
    using u apart_without_put [OF pq_invD(2) [OF assms(1)] that] by (simp add: refinesI base_nominate)
  note facts = activate_absent [OF assms, of "''''"] in_queues [OF assms] refines_self [OF assms(1)] keep
  show "fst (AddUnschedulableIfNotPresent pod c p) =
      (if present pod (unschedulable p) then Some AlreadyInUnschedulableQ
       else if present pod (active p) then Some AlreadyInActiveQ else None)"
    using facts by (auto simp: AddUnschedulableIfNotPresent_def)
  show "refines (snd (AddUnschedulableIfNotPresent pod c p))
      (if present pod (active p) \<or> present pod (unschedulable p) \<or> staysUnschedulable pod c p then active p
       else insert pod (active p))
      (if present pod (active p) \<or> present pod (unschedulable p) \<or> \<not> staysUnschedulable pod c p
       then unschedulable p else insert pod (unschedulable p))"
    using facts by (auto simp: AddUnschedulableIfNotPresent_def staysUnschedulable_def putPod_absent)
qed

text \<open>Pop returns a pod that no other pod of the active queue goes before.\<close>

lemma queue_empty_iff:
  assumes "pq_base p"
  shows "hd_queue (activeQ p) = [] \<longleftrightarrow> active p = {}"
proof -
  have "set (hd_content (activeQ p)) = active p"
    using content_get [of podKey activeQComp "activeQ p"] pq_baseD(1) [OF assms]
    by (simp add: active_def activeHeap.valid_def)
  moreover have "hd_queue (activeQ p) = [] \<longleftrightarrow> hd_content (activeQ p) = []"
    by (metis length_hd_content length_0_conv)
  ultimately show ?thesis by auto
qed

lemma Pop_refines:
  assumes "pq_inv p" and "active p \<noteq> {}"
  obtains pod p' where "pq_Pop p = (PodPopped pod, p')" and "pod \<in> active p"
    and "\<And>q. q \<in> active p \<Longrightarrow> \<not> activeQComp q pod" and "refines p' (active p - {pod}) (unschedulable p)"
    and "schedulingCycle p' = schedulingCycle p + 1" and "moveRequestCycle p' = moveRequestCycle p"
proof -
  note b = pq_invD(1) [OF assms(1)] and v = pq_baseD(1) [OF pq_invD(1) [OF assms(1)]]
  have ne: "hd_queue (activeQ p) \<noteq> []" using queue_empty_iff [OF b] assms(2) by simp
  obtain pod key h where h: "Heap_Pop (activeQ p) = (Inr pod, h)" "activeHeap.valid h"
      "Heap_GetByKey (activeQ p) key = Some pod" "podKey pod = Inr key"
      "Heap_GetByKey h = (Heap_GetByKey (activeQ p))(key := None)"
      "\<forall>k o'. Heap_GetByKey (activeQ p) k = Some o' \<longrightarrow> \<not> activeQComp o' pod"
    using activeHeap.Pop_spec [OF v ne] by blast
  let ?p = "p\<lparr>activeQ := h, schedulingCycle := schedulingCycle p + 1\<rparr>"
  have key: "key = activeKey pod" using h(4) by (simp add: podKey_eq)
  have "ran (Heap_GetByKey h) = {q \<in> active p. activeKey q \<noteq> activeKey pod}"
    using ran_keyed_del [of "Heap_GetByKey (activeQ p)" activeKey key, OF get_activeKey [OF v]] key h(5)
    by (simp add: active_def)
  also have "\<dots> = active p - {pod}"
  proof -
    have "q = pod" if "q \<in> active p" and "activeKey q = activeKey pod" for q
    proof -
      from that(1) obtain k where k: "Heap_GetByKey (activeQ p) k = Some q" by (auto simp: active_def ran_def)
      with get_activeKey [OF v k] that(2) h(3) key show ?thesis by simp
    qed
    then show ?thesis by blast
  qed
  finally have ran: "ran (Heap_GetByKey h) = active p - {pod}" .
  have base: "pq_base (p\<lparr>activeQ := h\<rparr>)"
    using pq_baseD(2) [OF b] ran by (intro base_activeQ b h(2)) auto
  show thesis
  proof (rule that [of pod ?p])
    show "pq_Pop p = (PodPopped pod, ?p)" using ne h(1) by (simp add: pq_Pop_def)
    show "pod \<in> active p" using h(3) by (auto simp: active_def ran_def)
    show "\<not> activeQComp q pod" if "q \<in> active p" for q
      using that h(6) by (auto simp: active_def ran_def)
    show "refines ?p (active p - {pod}) (unschedulable p)"
      using base ran pq_invD(2) [OF assms(1)] by (intro refinesI) simp_all
  qed simp_all
qed

text \<open>Update replaces the pod where it is; an updated spec makes it active.\<close>

lemma without_same: "same_pod q pod \<Longrightarrow> without q S = without pod S"
  by (auto simp: without_def same_pod_def)

lemma us_get_same:
  assumes "pq_base p" and "valid_pod pod" and "us_get pod p = Some q"
  shows "same_pod q pod" and "valid_pod q"
proof -
  have q: "unschedulableQ p (GetPodFullName pod) = Some q" using assms(3) by (simp add: us_get_def)
  then have "q \<in> unschedulable p" by (auto simp: unschedulable_def ran_def)
  then show "valid_pod q" by (rule pq_baseD(3) [OF assms(1)])
  with pq_baseD(4) [OF assms(1) q] assms(2) show "same_pod q pod" by (simp add: fullName_iff)
qed

definition updatedQueues :: "'x Pod \<Rightarrow> 'x Pod \<Rightarrow> 'x Pod set \<Rightarrow> 'x Pod set \<Rightarrow> 'x Pod set \<times> 'x Pod set" where
  "updatedQueues oldPod newPod A U =
     (if present newPod U \<and> \<not> isPodUpdated oldPod newPod then (A, putPod newPod U)
      else (putPod newPod A, without newPod U))"

lemma activate_refines:
  assumes "pq_base p" and "valid_pod pod" and "\<forall>a \<in> putPod pod (active p). \<forall>u \<in> unschedulable p. \<not> same_pod a u"
  shows "fst (activate pod (\<lambda>p. p) p) = None"
    and "refines (snd (activate pod (\<lambda>p. p) p)) (putPod pod (active p)) (unschedulable p)"
proof -
  obtain h where h: "\<And>after. activate pod after p = (None, after (p\<lparr>activeQ := h\<rparr>))"
    "pq_base (p\<lparr>activeQ := h\<rparr>)" "active (p\<lparr>activeQ := h\<rparr>) = putPod pod (active p)"
    using activate_spec [OF assms(1,2)] by blast
  then show "fst (activate pod (\<lambda>p. p) p) = None"
    and "refines (snd (activate pod (\<lambda>p. p) p)) (putPod pod (active p)) (unschedulable p)"
    using assms(3) by (simp_all add: h(1) refinesI)
qed

lemma Update_refines:
  assumes "pq_inv p" and "valid_pod newPod"
  shows "fst (pq_Update oldPod newPod p) = None \<and>
    (case updatedQueues oldPod newPod (active p) (unschedulable p) of
       (A, U) \<Rightarrow> refines (snd (pq_Update oldPod newPod p)) A U)"
proof -
  note b = pq_invD(1) [OF assms(1)] and apart = pq_invD(2) [OF assms(1)]
  let ?p = "p\<lparr>pq_nominated := npm_update oldPod newPod (pq_nominated p)\<rparr>"
  have b': "pq_base ?p" using pq_baseD(5) [OF b] by (intro base_nominated b npm_ok_update)
  have put: "\<forall>a \<in> putPod newPod (active p). \<forall>u \<in> without newPod (unschedulable p). \<not> same_pod a u"
    by (rule apart_put_without [OF apart])
  consider (active) "present newPod (active p)" "\<not> present newPod (unschedulable p)"
    | (waits) usPod where "\<not> present newPod (active p)" "us_get newPod p = Some usPod"
        "present newPod (unschedulable p)"
    | (none) "\<not> present newPod (active p)" "us_get newPod p = None" "\<not> present newPod (unschedulable p)"
    using apart in_queues(2) [OF assms] by (fastforce simp: present_def same_pod_def)
  then show ?thesis
  proof cases
    case active
    then show ?thesis
      using activate_refines [OF b' assms(2)] put in_queues(1) [OF assms]
      by (simp add: pq_Update_def updatedQueues_def without_absent)
  next
    case waits
    note us = us_get_same [OF b assms(2) waits(2)]
    note d = us_delete_spec [OF b' us(2)] and a = us_addOrUpdate_spec [OF b' assms(2)]
    have "\<forall>a \<in> active p. \<forall>u \<in> putPod newPod (unschedulable p). \<not> same_pod a u"
      by (rule apart_without_put [OF apart waits(1)])
    then show ?thesis
      using waits in_queues(1) [OF assms] put without_same [OF us(1)] d a
        activate_refines [OF d(1) assms(2)]
      by (simp add: pq_Update_def updatedQueues_def refinesI)
  next
    case none
    then show ?thesis
      using activate_absent [OF assms none(3), of "''''"] in_queues(1) [OF assms]
      by (simp add: pq_Update_def updatedQueues_def without_absent)
  qed
qed

text \<open>Delete takes the pod out of both queues.\<close>

lemma Delete_refines:
  assumes "pq_inv p" and "valid_pod pod"
  shows "refines (pq_Delete pod p) (without pod (active p)) (without pod (unschedulable p))"
proof -
  note b = pq_invD(1) [OF assms(1)] and apart = pq_invD(2) [OF assms(1)]
  let ?p = "p\<lparr>pq_nominated := npm_delete pod (pq_nominated p)\<rparr>"
  have b': "pq_base ?p" using pq_baseD(5) [OF b] by (intro base_nominated b npm_ok_delete)
  note v = pq_baseD(1) [OF b]
  obtain h where h: "Heap_Delete pod (activeQ p) =
      (if Heap_GetByKey (activeQ p) (activeKey pod) = None then Some ObjectNotFound else None, h)"
      "activeHeap.valid h" "Heap_GetByKey h = (Heap_GetByKey (activeQ p))(activeKey pod := None)"
    using activeHeap.Delete_spec [OF v podKey_eq] by blast
  have "ran (Heap_GetByKey h) = {q \<in> active p. activeKey q \<noteq> activeKey pod}"
    using ran_keyed_del [of "Heap_GetByKey (activeQ p)" activeKey "activeKey pod", OF get_activeKey [OF v]]
    by (simp add: h(3) active_def)
  also have "\<dots> = without pod (active p)" by (rule without_keys(1) [OF pq_baseD(2) [OF b] assms(2)])
  finally have ran: "ran (Heap_GetByKey h) = without pod (active p)" .
  have b'': "pq_base (?p\<lparr>activeQ := h\<rparr>)"
    using pq_baseD(2) [OF b] ran by (intro base_activeQ b' h(2)) (auto simp: without_def)
  have found: "Heap_GetByKey (activeQ p) (activeKey pod) \<noteq> None \<longleftrightarrow> present pod (active p)"
    using in_queues(1) [OF assms] v
    by (auto simp: inActiveQ_def Heap_Get_def activeHeap.valid_def hd_ok_def podKey_eq split: option.splits)
  have "\<not> present pod (unschedulable p)" if "present pod (active p)"
    using that apart by (fastforce simp: present_def same_pod_def)
  moreover have "\<forall>a \<in> without pod (active p). \<forall>u \<in> without pod (unschedulable p). \<not> same_pod a u"
    using apart by (simp add: without_def)
  ultimately show ?thesis
    using found b'' us_delete_spec [OF b'' assms(2)] ran
    by (cases "present pod (active p)") (simp_all add: pq_Delete_def h(1) refinesI without_absent)
qed

section \<open>Moving pods to the active queue\<close>

lemma unschedulable_unique:
  assumes "pq_base p" and "q \<in> unschedulable p" and "r \<in> unschedulable p" and "same_pod q r"
  shows "q = r"
proof -
  obtain k l where kl: "unschedulableQ p k = Some q" "unschedulableQ p l = Some r"
    using assms(2,3) by (auto simp: unschedulable_def ran_def)
  have "GetPodFullName q = GetPodFullName r"
    using assms(4) by (simp add: same_pod_def GetPodFullName_def)
  with kl pq_baseD(4) [OF assms(1) kl(1)] pq_baseD(4) [OF assms(1) kl(2)] show ?thesis by simp
qed

lemma active_unique:
  assumes "pq_base p" and "q \<in> active p" and "r \<in> active p" and "same_pod q r"
  shows "q = r"
proof -
  note v = pq_baseD(1) [OF assms(1)]
  obtain k l where kl: "Heap_GetByKey (activeQ p) k = Some q" "Heap_GetByKey (activeQ p) l = Some r"
    using assms(2,3) by (auto simp: active_def ran_def)
  have "activeKey q = activeKey r" using assms(4) by (simp add: same_pod_def activeKey_def)
  with kl get_activeKey [OF v kl(1)] get_activeKey [OF v kl(2)] show ?thesis by simp
qed

lemma without_unschedulable:
  "pq_base p \<Longrightarrow> pod \<in> unschedulable p \<Longrightarrow> without pod (unschedulable p) = unschedulable p - {pod}"
  using unschedulable_unique [of p _ pod] by (auto simp: without_def)

lemma moveLoop_refines:
  "pq_inv p \<Longrightarrow> distinct pods \<Longrightarrow> set pods \<subseteq> unschedulable p \<Longrightarrow>
    refines (moveLoop pods p) (active p \<union> set pods) (unschedulable p - set pods)"
proof (induction pods arbitrary: p)
  case (Cons pod pods)
  let ?p = "snd (activate pod (us_delete pod) p)"
  note b = pq_invD(1) [OF Cons.prems(1)] and apart = pq_invD(2) [OF Cons.prems(1)]
  have pod: "pod \<in> unschedulable p" "valid_pod pod" using Cons.prems(3) pq_baseD(3) [OF b] by auto
  note s = activate_then_delete [OF b pod(2)]
  have "\<not> present pod (active p)" using apart pod(1) by (auto simp: present_def)
  then have A: "active ?p = insert pod (active p)" by (simp add: s(3) putPod_absent)
  have U: "unschedulable ?p = unschedulable p - {pod}" by (simp add: s(4) without_unschedulable [OF b pod(1)])
  have "\<forall>a \<in> active ?p. \<forall>u \<in> unschedulable ?p. \<not> same_pod a u"
    using apart_put_without [OF apart, of pod] s(3,4) by simp
  then have "pq_inv ?p" using s(2) by (simp add: pq_inv_def)
  from Cons.IH [OF this] Cons.prems(2,3)
  have "refines (moveLoop pods ?p) (active ?p \<union> set pods) (unschedulable ?p - set pods)"
    by (auto simp: U)
  moreover have "active ?p \<union> set pods = active p \<union> set (pod # pods)"
      "unschedulable ?p - set pods = unschedulable p - set (pod # pods)"
    using A U by auto
  ultimately show ?case by simp
qed (simp add: refines_self)

lemma addAllLoop_spec:
  "pq_base p \<Longrightarrow> distinct pods \<Longrightarrow> (\<forall>q \<in> set pods. valid_pod q) \<Longrightarrow>
    (\<forall>q \<in> set pods. \<not> present q (active p)) \<Longrightarrow> (\<forall>q \<in> set pods. \<forall>r \<in> set pods. same_pod q r \<longrightarrow> q = r) \<Longrightarrow>
    pq_base (addAllLoop pods p) \<and> active (addAllLoop pods p) = active p \<union> set pods
    \<and> schedulingCycle (addAllLoop pods p) = schedulingCycle p \<and> moveRequestCycle (addAllLoop pods p) = moveRequestCycle p"
proof (induction pods arbitrary: p)
  case (Cons pod pods)
  have pod: "valid_pod pod" "\<not> present pod (active p)" using Cons.prems by simp_all
  obtain h where h: "\<And>after. activate pod after p = (None, after (p\<lparr>activeQ := h\<rparr>))"
    "pq_base (p\<lparr>activeQ := h\<rparr>)" "active (p\<lparr>activeQ := h\<rparr>) = putPod pod (active p)"
    using activate_spec [OF Cons.prems(1) pod(1)] by blast
  have A: "active (p\<lparr>activeQ := h\<rparr>) = insert pod (active p)" using h(3) pod(2) by (simp add: putPod_absent)
  have "\<forall>q \<in> set pods. \<not> present q (active (p\<lparr>activeQ := h\<rparr>))"
    using Cons.prems(2,4,5) unfolding A by (auto simp: present_def)
  from Cons.IH [OF h(2) _ _ this] Cons.prems(2,3,5) show ?case by (simp add: h(1) A del: fields_simps(1))
qed simp

lemma unschedulablePods_spec:
  assumes "pq_base p" and "set keys = dom (unschedulableQ p)" and "distinct keys"
  shows "set (unschedulablePods keys p) = unschedulable p" and "distinct (unschedulablePods keys p)"
  using map_filter_ran [OF assms(2)] distinct_map_filter_keyed [OF assms(3) pq_baseD(4) [OF assms(1)]]
  by (simp_all add: unschedulablePods_def unschedulable_def)

lemma MoveAll_refines:
  assumes "pq_inv p" and "set keys = dom (unschedulableQ p)" and "distinct keys"
  shows "refines (MoveAllToActiveQueue keys p) (active p \<union> unschedulable p) {}"
    and "schedulingCycle (MoveAllToActiveQueue keys p) = schedulingCycle p"
    and "moveRequestCycle (MoveAllToActiveQueue keys p) = schedulingCycle p"
proof -
  note b = pq_invD(1) [OF assms(1)]
  note k = unschedulablePods_spec [OF b assms(2,3)]
  have "\<forall>q \<in> unschedulable p. \<not> present q (active p)"
    using pq_invD(2) [OF assms(1)] by (auto simp: present_def)
  with addAllLoop_spec [OF b k(2)] k(1) pq_baseD(3) [OF b] unschedulable_unique [OF b]
  have l: "pq_base (addAllLoop (unschedulablePods keys p) p)"
      "active (addAllLoop (unschedulablePods keys p) p) = active p \<union> unschedulable p"
      "schedulingCycle (addAllLoop (unschedulablePods keys p) p) = schedulingCycle p"
    by auto
  then show "refines (MoveAllToActiveQueue keys p) (active p \<union> unschedulable p) {}"
    by (intro refinesI) (simp_all add: MoveAllToActiveQueue_def us_clear_def Let_def pq_base_def)
  show "schedulingCycle (MoveAllToActiveQueue keys p) = schedulingCycle p"
    and "moveRequestCycle (MoveAllToActiveQueue keys p) = schedulingCycle p"
    using l(3) by (simp_all add: MoveAllToActiveQueue_def us_clear_def Let_def)
qed

lemma movePods_refines:
  assumes "pq_inv p" and "set keys = dom (unschedulableQ p)" and "distinct keys"
  shows "refines (movePodsToActiveQueue (filter P (unschedulablePods keys p)) p)
    (active p \<union> {q \<in> unschedulable p. P q}) {q \<in> unschedulable p. \<not> P q}"
proof -
  note k = unschedulablePods_spec [OF pq_invD(1) [OF assms(1)] assms(2,3)]
  have "refines (moveLoop (filter P (unschedulablePods keys p)) p)
      (active p \<union> {q \<in> unschedulable p. P q}) (unschedulable p - {q \<in> unschedulable p. P q})"
    using moveLoop_refines [OF assms(1), of "filter P (unschedulablePods keys p)"] k by simp
  moreover have "unschedulable p - {q \<in> unschedulable p. P q} = {q \<in> unschedulable p. \<not> P q}" by auto
  ultimately show ?thesis
    by (simp add: movePodsToActiveQueue_def Let_def refines_def pq_inv_def)
qed

section \<open>Runs\<close>

text \<open>
  A step of the queue, with what it does to the set of the pods that wait.  A loop over the
  unschedulable pods visits each key once, in any order.
\<close>

inductive pq_step :: "'x PriorityQueue \<Rightarrow> ('x Pod set \<Rightarrow> 'x Pod set) \<Rightarrow> 'x PriorityQueue \<Rightarrow> bool" where
  add: "valid_pod pod \<Longrightarrow> pq_step p (putPod pod) (snd (pq_Add pod p))"
| addIfNotPresent: "valid_pod pod \<Longrightarrow>
    pq_step p (\<lambda>W. if present pod W then W else insert pod W) (snd (pq_AddIfNotPresent pod p))"
| addUnschedulable: "valid_pod pod \<Longrightarrow>
    pq_step p (\<lambda>W. if present pod W then W else insert pod W) (snd (AddUnschedulableIfNotPresent pod c p))"
| pop: "pq_Pop p = (PodPopped pod, p') \<Longrightarrow> pq_step p (\<lambda>W. W - {pod}) p'"
| update: "valid_pod newPod \<Longrightarrow> pq_step p (putPod newPod) (snd (pq_Update oldPod newPod p))"
| delete: "valid_pod pod \<Longrightarrow> pq_step p (without pod) (pq_Delete pod p)"
| moveAll: "set keys = dom (unschedulableQ p) \<Longrightarrow> distinct keys \<Longrightarrow>
    pq_step p (\<lambda>W. W) (MoveAllToActiveQueue keys p)"
| flush: "set keys = dom (unschedulableQ p) \<Longrightarrow> distinct keys \<Longrightarrow>
    pq_step p (\<lambda>W. W) (flushUnschedulableQLeftover now keys p)"
| assignedAdded: "set keys = dom (unschedulableQ p) \<Longrightarrow> distinct keys \<Longrightarrow>
    pq_step p (\<lambda>W. W) (AssignedPodAdded affinityMatches keys pod p)"
| assignedUpdated: "set keys = dom (unschedulableQ p) \<Longrightarrow> distinct keys \<Longrightarrow>
    pq_step p (\<lambda>W. W) (AssignedPodUpdated affinityMatches keys pod p)"
| deleteNominated: "pq_step p (\<lambda>W. W) (DeleteNominatedPodIfExists pod p)"
| updateNominated: "pq_step p (\<lambda>W. W) (UpdateNominatedPodForNode pod nodeName p)"
| close: "pq_step p (\<lambda>W. W) (pq_Close p)"

inductive pq_run :: "'x PriorityQueue \<Rightarrow> 'x Pod set \<Rightarrow> bool" where
  start: "pq_run NewPriorityQueue {}"
| step: "pq_run p W \<Longrightarrow> pq_step p f p' \<Longrightarrow> pq_run p' (f W)"

inductive_cases pq_stepE: "pq_step p f p'"

lemma get_new: "Heap_GetByKey (newHeap kf lf) = Map.empty"
  by (simp add: Heap_GetByKey_def newHeap_def fun_eq_iff)

lemma pq_inv_new: "pq_inv NewPriorityQueue" "active NewPriorityQueue = {}" "unschedulable NewPriorityQueue = {}"
  using activeHeap.valid_new npm_ok_new
  by (simp_all add: pq_inv_def pq_base_def active_def unschedulable_def NewPriorityQueue_def get_new)

lemma putPod_Un: "putPod pod A \<union> without pod U = putPod pod (A \<union> U)"
  by (auto simp: putPod_def without_def)

lemma without_Un: "without pod (A \<union> U) = without pod A \<union> without pod U"
  by (auto simp: without_def)

lemma present_Un: "present pod (A \<union> U) \<longleftrightarrow> present pod A \<or> present pod U"
  by (auto simp: present_def)

lemma Update_waiting:
  assumes "pq_inv p" and "valid_pod newPod"
  shows "pq_inv (snd (pq_Update oldPod newPod p)) \<and>
    active (snd (pq_Update oldPod newPod p)) \<union> unschedulable (snd (pq_Update oldPod newPod p)) =
    putPod newPod (active p \<union> unschedulable p)"
proof -
  have "\<not> present newPod (active p)" if "present newPod (unschedulable p)"
    using that pq_invD(2) [OF assms(1)] by (fastforce simp: present_def same_pod_def)
  moreover have "putPod newPod (active p \<union> unschedulable p) =
      without newPod (active p) \<union> putPod newPod (unschedulable p)"
    by (auto simp: putPod_def without_def)
  ultimately show ?thesis
    using Update_refines [OF assms, of oldPod]
    by (auto simp: updatedQueues_def refines_def putPod_Un without_absent split: if_splits)
qed

lemma refines_waiting:
  "refines p' A U \<Longrightarrow> A \<union> U = W \<Longrightarrow> pq_inv p' \<and> active p' \<union> unschedulable p' = W"
  by (simp add: refines_def)

lemma movePods_waiting:
  assumes "pq_inv p" and "set keys = dom (unschedulableQ p)" and "distinct keys"
  shows "pq_inv (movePodsToActiveQueue (filter P (unschedulablePods keys p)) p) \<and>
    active (movePodsToActiveQueue (filter P (unschedulablePods keys p)) p) \<union>
    unschedulable (movePodsToActiveQueue (filter P (unschedulablePods keys p)) p) = active p \<union> unschedulable p"
  by (rule refines_waiting [OF movePods_refines [OF assms]]) auto

lemma pq_step_waiting:
  assumes "pq_step p f p'" and "pq_inv p"
  shows "pq_inv p' \<and> active p' \<union> unschedulable p' = f (active p \<union> unschedulable p)"
  using assms
proof (cases rule: pq_step.cases)
  case (add pod)
  then show ?thesis using Add_refines(2) [OF assms(2), of pod] by (simp add: refines_waiting putPod_Un)
next
  case (addIfNotPresent pod)
  then show ?thesis
    using AddIfNotPresent_refines(2) [OF assms(2), of pod] by (auto simp: refines_def present_Un)
next
  case (addUnschedulable pod c)
  then show ?thesis
    using AddUnschedulable_refines(2) [OF assms(2), of pod c] by (auto simp: refines_def present_Un)
next
  case (pop pod)
  have "active p \<noteq> {}"
    using pop(2) queue_empty_iff [OF pq_invD(1) [OF assms(2)]]
    by (auto simp: pq_Pop_def split: if_splits)
  from Pop_refines [OF assms(2) this] obtain pod' p''
    where r: "pq_Pop p = (PodPopped pod', p'')" "pod' \<in> active p" "refines p'' (active p - {pod'}) (unschedulable p)"
    by blast
  have "pod' \<notin> unschedulable p" using pq_invD(2) [OF assms(2)] r(2) same_pod_refl by blast
  then show ?thesis using r pop by (intro refines_waiting) auto
next
  case (update newPod oldPod)
  then show ?thesis using Update_waiting [OF assms(2)] by simp
next
  case (delete pod)
  then show ?thesis using Delete_refines [OF assms(2), of pod] by (simp add: refines_waiting without_Un)
next
  case (moveAll keys)
  then show ?thesis using MoveAll_refines(1) [OF assms(2), of keys] by (simp add: refines_def)
next
  case (flush keys now)
  then show ?thesis
    using movePods_waiting [OF assms(2), of keys] assms(2)
    by (simp add: flushUnschedulableQLeftover_def Let_def)
next
  case (assignedAdded keys affinityMatches pod)
  then show ?thesis using movePods_waiting [OF assms(2), of keys] by (simp add: AssignedPodAdded_def)
next
  case (assignedUpdated keys affinityMatches pod)
  then show ?thesis using movePods_waiting [OF assms(2), of keys] by (simp add: AssignedPodUpdated_def)
next
  case (deleteNominated pod)
  then show ?thesis
    using assms(2) by (simp add: DeleteNominatedPodIfExists_def pq_inv_def base_nominated npm_ok_delete pq_baseD(5))
next
  case (updateNominated pod nodeName)
  then show ?thesis using assms(2) by (simp add: UpdateNominatedPodForNode_def pq_inv_def base_nominate)
next
  case close
  then show ?thesis using assms(2) by (simp add: pq_Close_def pq_inv_def)
qed

lemma pq_run_waiting: "pq_run p W \<Longrightarrow> pq_inv p \<and> active p \<union> unschedulable p = W"
proof (induction rule: pq_run.induct)
  case start
  then show ?case by (simp add: pq_inv_new)
next
  case (step p W f p')
  then show ?case using pq_step_waiting by blast
qed

lemma waiting_unique:
  assumes "pq_inv p" and "q \<in> active p \<union> unschedulable p" and "r \<in> active p \<union> unschedulable p" and "same_pod q r"
  shows "q = r"
proof -
  note b = pq_invD(1) [OF assms(1)] and apart = pq_invD(2) [OF assms(1)]
  have "same_pod r q" using assms(4) by (simp add: same_pod_def)
  then have "q \<in> active p \<longleftrightarrow> r \<in> active p" using apart assms(2-4) by blast
  then show ?thesis
    using active_unique [OF b _ _ assms(4)] unschedulable_unique [OF b _ _ assms(4)] assms(2,3) by blast
qed

text \<open>C20. Whatever sequence of operations ran, WaitingPods lists exactly the pods that should wait, each
  once: those added, with their latest version, and neither popped nor deleted since.  No two of them
  have the same namespace and name, no pod is in both queues, and a pod is nominated for one node at most.
\<close>

theorem queue_runs_correct:
  assumes "pq_run p W"
    and "set activeKeys = dom (hd_items (activeQ p))" and "distinct activeKeys"
    and "set keys = dom (unschedulableQ p)" and "distinct keys"
  shows "set (WaitingPods activeKeys keys p) = W \<and> distinct (WaitingPods activeKeys keys p)
    \<and> (\<forall>q \<in> W. \<forall>r \<in> W. same_pod q r \<longrightarrow> q = r)
    \<and> (\<forall>n m. \<forall>q \<in> set (pq_NominatedPodsForNode n p). \<forall>r \<in> set (pq_NominatedPodsForNode m p).
         pod_UID q = pod_UID r \<longrightarrow> n = m \<and> q = r)"
proof -
  have inv: "pq_inv p" "active p \<union> unschedulable p = W" using pq_run_waiting [OF assms(1)] by simp_all
  note b = pq_invD(1) [OF inv(1)] and apart = pq_invD(2) [OF inv(1)]
  note u = unschedulablePods_spec [OF b assms(4,5)]
  have "Heap_List activeKeys (activeQ p) = List.map_filter (Heap_GetByKey (activeQ p)) activeKeys"
    by (simp add: Heap_List_def)
  then have a: "set (Heap_List activeKeys (activeQ p)) = active p" "distinct (Heap_List activeKeys (activeQ p))"
    using map_filter_ran [of activeKeys "Heap_GetByKey (activeQ p)"] assms(2)
      distinct_map_filter_keyed [OF assms(3) get_activeKey [OF pq_baseD(1) [OF b]]]
    by (simp_all add: dom_get active_def)
  have "active p \<inter> unschedulable p = {}" using apart same_pod_refl by blast
  then have w: "set (WaitingPods activeKeys keys p) = W" "distinct (WaitingPods activeKeys keys p)"
    using a u inv(2) by (auto simp: WaitingPods_def)
  have "q = r" if "q \<in> W" "r \<in> W" "same_pod q r" for q r
    by (rule waiting_unique [OF inv(1)]) (use that inv(2) in auto)
  moreover have "n = m \<and> q = r" if "q \<in> set (pq_NominatedPodsForNode n p)"
    "r \<in> set (pq_NominatedPodsForNode m p)" "pod_UID q = pod_UID r" for n m q r
    using npm_unique [OF pq_baseD(5) [OF b]] that by (simp add: pq_NominatedPodsForNode_def)
  ultimately show ?thesis using w by blast
qed

section \<open>Draining the active queue\<close>

fun pops :: "nat \<Rightarrow> 'x PriorityQueue \<Rightarrow> 'x Pod list \<times> 'x PriorityQueue" where
  "pops 0 p = ([], p)"
| "pops (Suc n) p =
     (case pq_Pop p of
        (PodPopped pod, p') \<Rightarrow> (case pops n p' of (pods, p'') \<Rightarrow> (pod # pods, p''))
      | (r, p') \<Rightarrow> ([], p'))"

lemma finite_active:
  assumes "pq_base p"
  shows "finite (active p)"
proof -
  have "active p = set (hd_content (activeQ p))"
    using content_get [of podKey activeQComp "activeQ p"] pq_baseD(1) [OF assms]
    by (simp add: active_def activeHeap.valid_def)
  then show ?thesis by simp
qed

lemma pops_drain:
  assumes "pq_inv p" and "card (active p) = n"
  shows "set (fst (pops n p)) = active p \<and> length (fst (pops n p)) = n
    \<and> sorted_wrt (\<lambda>a b. \<not> activeQComp b a) (fst (pops n p))
    \<and> refines (snd (pops n p)) {} (unschedulable p)"
  using assms
proof (induction n arbitrary: p)
  case 0
  then have "active p = {}" using finite_active [OF pq_invD(1) [OF 0(1)]] by simp
  with 0 show ?case by (simp add: refines_def)
next
  case (Suc n)
  then have "active p \<noteq> {}" by auto
  from Pop_refines [OF Suc.prems(1) this] obtain pod p'
    where r: "pq_Pop p = (PodPopped pod, p')" "pod \<in> active p" "\<And>q. q \<in> active p \<Longrightarrow> \<not> activeQComp q pod"
      "refines p' (active p - {pod}) (unschedulable p)" by blast
  have p': "pq_inv p'" "active p' = active p - {pod}" "unschedulable p' = unschedulable p"
    using r(4) by (simp_all add: refines_def)
  then have "card (active p') = n" using Suc.prems(2) r(2) by simp
  note ih = Suc.IH [OF p'(1) this]
  show ?case
    using ih r p' by (auto simp: r(1) case_prod_beta)
qed

text \<open>C21. Popping drains the active queue: after as many Pops as it holds pods, each of them was returned
  once, in the order of the queue (higher priority first, then the older timestamp), and the next Pop
  finds it empty.
\<close>

theorem Pop_drains_in_order:
  assumes "pq_run p W" and "n = card (active p)"
  shows "\<exists>pods p'. pops n p = (pods, p') \<and> set pods = active p \<and> distinct pods
    \<and> sorted_wrt (\<lambda>a b. \<not> activeQComp b a) pods
    \<and> unschedulable p' = unschedulable p \<and> fst (pq_Pop p') \<in> {PodWaits, PodError QueueClosed}"
proof -
  have inv: "pq_inv p" using pq_run_waiting [OF assms(1)] by simp
  obtain pods p' where eq: "pops n p = (pods, p')" by (cases "pops n p")
  have d: "set pods = active p" "length pods = n" "sorted_wrt (\<lambda>a b. \<not> activeQComp b a) pods"
      "refines p' {} (unschedulable p)"
    using pops_drain [OF inv assms(2) [symmetric]] by (simp_all add: eq)
  have "distinct pods" using d(1,2) assms(2) by (metis card_distinct)
  moreover have "hd_queue (activeQ p') = []"
    using d(4) queue_empty_iff [of p'] by (simp add: refines_def pq_inv_def)
  then have "fst (pq_Pop p') \<in> {PodWaits, PodError QueueClosed}" by (simp add: pq_Pop_def)
  ultimately show ?thesis using eq d by (auto simp: refines_def)
qed

section \<open>Move requests\<close>

definition pq_steps :: "'x PriorityQueue \<Rightarrow> 'x PriorityQueue \<Rightarrow> bool" where
  "pq_steps = (\<lambda>p p'. \<exists>f. pq_step p f p')\<^sup>*\<^sup>*"

lemma activate_cycles:
  "(\<And>q. schedulingCycle (after q) = schedulingCycle q) \<Longrightarrow> schedulingCycle (snd (activate pod after p)) = schedulingCycle p"
  "(\<And>q. moveRequestCycle (after q) = moveRequestCycle q) \<Longrightarrow> moveRequestCycle (snd (activate pod after p)) = moveRequestCycle p"
  by (auto simp: activate_def split: prod.split option.split)

lemma us_cycles [simp]:
  "schedulingCycle (us_delete pod p) = schedulingCycle p" "moveRequestCycle (us_delete pod p) = moveRequestCycle p"
  "schedulingCycle (us_addOrUpdate pod p) = schedulingCycle p"
  "moveRequestCycle (us_addOrUpdate pod p) = moveRequestCycle p"
  by (simp_all add: us_delete_def us_addOrUpdate_def)

lemma loop_cycles [simp]:
  "schedulingCycle (moveLoop pods p) = schedulingCycle p" "schedulingCycle (addAllLoop pods p) = schedulingCycle p"
  by (induction pods arbitrary: p) (simp_all add: activate_cycles)

lemma move_cycles [simp]:
  "schedulingCycle (movePodsToActiveQueue pods p) = schedulingCycle p"
  "moveRequestCycle (movePodsToActiveQueue pods p) = schedulingCycle p"
  "schedulingCycle (MoveAllToActiveQueue keys p) = schedulingCycle p"
  "moveRequestCycle (MoveAllToActiveQueue keys p) = schedulingCycle p"
  by (simp_all add: movePodsToActiveQueue_def MoveAllToActiveQueue_def us_clear_def Let_def)

lemma op_cycles [simp]:
  "schedulingCycle (snd (pq_Add pod p)) = schedulingCycle p"
  "moveRequestCycle (snd (pq_Add pod p)) = moveRequestCycle p"
  "schedulingCycle (snd (pq_AddIfNotPresent pod p)) = schedulingCycle p"
  "moveRequestCycle (snd (pq_AddIfNotPresent pod p)) = moveRequestCycle p"
  "schedulingCycle (snd (AddUnschedulableIfNotPresent pod c p)) = schedulingCycle p"
  "moveRequestCycle (snd (AddUnschedulableIfNotPresent pod c p)) = moveRequestCycle p"
  "schedulingCycle (snd (pq_Update oldPod pod p)) = schedulingCycle p"
  "moveRequestCycle (snd (pq_Update oldPod pod p)) = moveRequestCycle p"
  "schedulingCycle (pq_Delete pod p) = schedulingCycle p"
  "moveRequestCycle (pq_Delete pod p) = moveRequestCycle p"
  by (auto simp: pq_Add_def pq_AddIfNotPresent_def AddUnschedulableIfNotPresent_def pq_Update_def pq_Delete_def
      activate_cycles Let_def split: option.split prod.split)

lemma Pop_cycles:
  "pq_Pop p = (PodPopped pod, p') \<Longrightarrow>
    schedulingCycle p' = schedulingCycle p + 1 \<and> moveRequestCycle p' = moveRequestCycle p"
  by (auto simp: pq_Pop_def split: if_splits prod.splits sum.splits)

lemma pq_step_cycles:
  assumes "pq_step p f p'" and "moveRequestCycle p \<le> schedulingCycle p"
  shows "moveRequestCycle p' \<le> schedulingCycle p' \<and> schedulingCycle p \<le> schedulingCycle p'
    \<and> moveRequestCycle p \<le> moveRequestCycle p'"
  using assms
  by (cases rule: pq_step.cases)
    (auto simp: flushUnschedulableQLeftover_def AssignedPodAdded_def AssignedPodUpdated_def Let_def
      DeleteNominatedPodIfExists_def UpdateNominatedPodForNode_def pq_Close_def dest: Pop_cycles)

lemma pq_run_cycles: "pq_run p W \<Longrightarrow> moveRequestCycle p \<le> schedulingCycle p"
  by (induction rule: pq_run.induct) (auto simp: NewPriorityQueue_def dest: pq_step_cycles)

lemma pq_steps_cycles:
  assumes "pq_steps p p'" and "moveRequestCycle p \<le> schedulingCycle p"
  shows "moveRequestCycle p' \<le> schedulingCycle p' \<and> schedulingCycle p \<le> schedulingCycle p'
    \<and> moveRequestCycle p \<le> moveRequestCycle p'"
  using assms(1) unfolding pq_steps_def
proof (induction rule: rtranclp_induct)
  case (step q r)
  then obtain f where "pq_step q f r" by blast
  from pq_step_cycles [OF this] step.IH show ?case by auto
qed (use assms(2) in simp)

lemma pq_steps_inv:
  assumes "pq_steps p p'" and "pq_inv p"
  shows "pq_inv p'"
  using assms(1) unfolding pq_steps_def
  by (induction rule: rtranclp_induct) (use assms(2) pq_step_waiting in blast)+

lemma popped_valid:
  assumes "pq_inv p" and "pq_Pop p = (PodPopped pod, p')"
  shows "valid_pod pod" and "pq_inv p'"
proof -
  have "active p \<noteq> {}"
    using assms(2) queue_empty_iff [OF pq_invD(1) [OF assms(1)]] by (auto simp: pq_Pop_def split: if_splits)
  from Pop_refines [OF assms(1) this] assms(2) have "pod \<in> active p" by auto
  then show "valid_pod pod" by (rule pq_baseD(2) [OF pq_invD(1) [OF assms(1)]])
  show "pq_inv p'" using pq_step_waiting [OF pq_step.pop [OF assms(2)] assms(1)] by simp
qed

text \<open>C22. A move request that arrives while a pod is being scheduled is not lost: if all unschedulable pods,
  or those a new pod's labels concern, are moved at any time between the Pop of a pod and its return as
  unschedulable with the cycle of that Pop, then it goes back to the active queue.
\<close>

theorem move_request_not_lost:
  assumes "pq_run p W" and "pq_Pop p = (PodPopped pod, p1)"
    and "pq_steps p1 p2" and "set keys = dom (unschedulableQ p2)" and "distinct keys"
    and "p3 = MoveAllToActiveQueue keys p2 \<or> p3 = AssignedPodAdded affinityMatches keys newPod p2"
    and "pq_steps p3 p4"
    and "AddUnschedulableIfNotPresent pod (schedulingCycle p1) p4 = (None, p5)"
  shows "pod \<in> active p5 \<and> \<not> present pod (unschedulable p5)"
proof -
  have inv: "pq_inv p" using pq_run_waiting [OF assms(1)] by simp
  note pod = popped_valid [OF inv assms(2)]
  have "pq_inv p2" by (rule pq_steps_inv [OF assms(3) pod(2)])
  moreover have "\<exists>f. pq_step p2 f p3" using assms(4-6) pq_step.moveAll pq_step.assignedAdded by blast
  ultimately have "pq_inv p3" using pq_step_waiting by blast
  then have i4: "pq_inv p4" by (rule pq_steps_inv [OF assms(7)])
  have "moveRequestCycle p1 \<le> schedulingCycle p1"
    using pq_run_cycles [OF assms(1)] Pop_cycles [OF assms(2)] by simp
  from pq_steps_cycles [OF assms(3) this] have "schedulingCycle p1 \<le> moveRequestCycle p3"
      "moveRequestCycle p3 \<le> schedulingCycle p3"
    using assms(6) by (auto simp: AssignedPodAdded_def)
  with pq_steps_cycles [OF assms(7)] have "\<not> staysUnschedulable pod (schedulingCycle p1) p4"
    by (simp add: staysUnschedulable_def)
  with AddUnschedulable_refines [OF i4 pod(1), of "schedulingCycle p1"] assms(8)
  show ?thesis by (simp add: refines_def split: if_splits)
qed

text \<open>C23. What a pod's return to the queue does when it is not already there: an unschedulable pod stays
  in the unschedulable queue when no move request came at or after its cycle, and goes to the active
  queue otherwise.  A pod that already waits is reported and nothing changes.
\<close>

theorem AddUnschedulable_branches:
  assumes "pq_run p W" and "valid_pod pod"
  shows "if present pod W then AddUnschedulableIfNotPresent pod cycle p \<in>
           {(Some AlreadyInUnschedulableQ, p), (Some AlreadyInActiveQ, p)}
         else \<exists>p'. AddUnschedulableIfNotPresent pod cycle p = (None, p')
           \<and> (if cycle > moveRequestCycle p \<and> isPodUnschedulable pod
              then active p' = active p \<and> unschedulable p' = insert pod (unschedulable p)
              else active p' = insert pod (active p) \<and> unschedulable p' = unschedulable p)"
proof -
  have inv: "pq_inv p" "active p \<union> unschedulable p = W" using pq_run_waiting [OF assms(1)] by simp_all
  have W: "present pod W \<longleftrightarrow> present pod (active p) \<or> present pod (unschedulable p)"
    using present_Un [of pod "active p" "unschedulable p"] inv(2) by simp
  obtain e p' where eq: "AddUnschedulableIfNotPresent pod cycle p = (e, p')" by force
  show ?thesis
  proof (cases "present pod W")
    case True
    then show ?thesis using W in_queues [OF inv(1) assms(2)] by (auto simp: AddUnschedulableIfNotPresent_def)
  next
    case False
    then show ?thesis
      using W AddUnschedulable_refines [OF inv(1) assms(2), of cycle]
      by (auto simp: eq staysUnschedulable_def refines_def)
  qed
qed

section \<open>A run on one pod\<close>

definition pod_a :: "unit Pod" where
  "pod_a = \<lparr>pod_Name = ''a'', pod_Namespace = ''ns'', pod_UID = ''u'', pod_ResourceVersion = ''1'',
     pod_Generation = 1, CreationTimestamp = 5, spec_Priority = None, pod_Rest = (),
     status_Conditions = [\<lparr>cond_Type = ''PodScheduled'', cond_Status = ''False'', cond_Reason = ''Unschedulable'',
       LastProbeTime = 0, LastTransitionTime = 7\<rparr>],
     status_NominatedNodeName = ''''\<rparr>"

definition queue_a :: "unit PriorityQueue" where
  "queue_a = snd (pq_Add pod_a NewPriorityQueue)"

lemma valid_a: "valid_pod pod_a"
  by (simp add: valid_pod_def pod_a_def)

lemma key_a: "podKey pod_a = Inr ''ns/a''" "GetPodFullName pod_a = ''a_ns''" "isPodUnschedulable pod_a"
  "status_NominatedNodeName pod_a = ''''"
  by (simp_all add: podKey_eq activeKey_def pod_a_def GetPodFullName_def isPodUnschedulable_def)

lemma run_a: "pq_run queue_a {pod_a}"
  using pq_run.step [OF pq_run.start pq_step.add [OF valid_a]]
  by (simp add: queue_a_def putPod_def without_def)

lemma items_a: "activeQ queue_a = \<lparr>hd_items = [''ns/a'' \<mapsto> \<lparr>item_obj = pod_a, item_index = 0\<rparr>],
    hd_queue = [''ns/a''], hd_keyFunc = podKey, hd_lessFunc = activeQComp\<rparr>"
    "unschedulableQ queue_a = Map.empty" "pq_nominated queue_a = newNominatedPodMap" "moveRequestCycle queue_a = -1"
  "schedulingCycle queue_a = 0" "pq_closed queue_a = False"
  by (simp_all add: queue_a_def pq_Add_def activate_def NewPriorityQueue_def newHeap_def Heap_Add_def key_a
     heap_Push_def hd_Push_def hd_Len_def heap_up.simps us_get_def nominate_def npm_add_def npm_delete_def
     newNominatedPodMap_def Let_def)

lemma active_a: "active queue_a = {pod_a}"
  by (simp add: active_def items_a Heap_GetByKey_def [abs_def] fun_upd_def ran_def)

theorem queue_runs_correct_witness:
  "set (WaitingPods [''ns/a''] [] queue_a) = {pod_a}"
  using queue_runs_correct [OF run_a, of "[''ns/a'']" "[]"] by (simp add: items_a)

theorem Pop_drains_in_order_witness:
  "\<exists>pods p'. pops 1 queue_a = (pods, p') \<and> set pods = {pod_a}"
  using Pop_drains_in_order [OF run_a, of 1] by (auto simp: active_a)

definition popped_a :: "unit PriorityQueue" where
  "popped_a = snd (pq_Pop queue_a)"

lemma pop_a: "pq_Pop queue_a = (PodPopped pod_a, popped_a)" "unschedulableQ popped_a = Map.empty"
  "schedulingCycle popped_a = 1" "hd_items (activeQ popped_a) = Map.empty" "hd_keyFunc (activeQ popped_a) = podKey"
  "moveRequestCycle popped_a = -1"
  by (simp_all add: popped_a_def pq_Pop_def items_a Heap_Pop_def heap_Pop_def hd_Len_def heap_down.simps [of _ _ 0 0] hd_Swap_def
      hd_Pop_def Let_def setIndex_def)

definition moved_a :: "unit PriorityQueue" where
  "moved_a = MoveAllToActiveQueue [] popped_a"

lemma returned_a: "AddUnschedulableIfNotPresent pod_a 1 moved_a = (None, snd (AddUnschedulableIfNotPresent pod_a 1 moved_a))"
  by (simp add: AddUnschedulableIfNotPresent_def moved_a_def us_get_def inActiveQ_def
     MoveAllToActiveQueue_def unschedulablePods_def map_filter_simps us_clear_def Let_def pop_a Heap_Get_def key_a
     Heap_GetByKey_def activate_def Heap_Add_def)

theorem move_request_not_lost_witness:
  "pod_a \<in> active (snd (AddUnschedulableIfNotPresent pod_a (schedulingCycle popped_a) (MoveAllToActiveQueue [] popped_a)))"
  using move_request_not_lost [OF run_a pop_a(1), of popped_a "[]" moved_a undefined undefined moved_a
      "snd (AddUnschedulableIfNotPresent pod_a 1 moved_a)"] returned_a
  by (simp add: pq_steps_def pop_a moved_a_def)

theorem AddUnschedulable_branches_witness:
  "AddUnschedulableIfNotPresent pod_a 1 queue_a \<in> {(Some AlreadyInUnschedulableQ, queue_a), (Some AlreadyInActiveQ, queue_a)}"
  using AddUnschedulable_branches [OF run_a valid_a, of 1] by (simp add: present_def)

end
