(* ===== verification/Work_Queue.thy ===== *)
theory Work_Queue
  imports K8s_Prelude
begin

text \<open>
  The work queue that controllers take their keys from: Type of
  \<open>client-go/util/workqueue/queue.go\<close>.  Every operation runs under the lock of the queue; metrics are
  left out.  Waiting on the condition variable is the result \<open>GetWaits\<close> of Get.
\<close>

section \<open>The queue\<close>

record 'a workqueue =
  wq_queue :: "'a list"
  wq_dirty :: "'a set"
  wq_processing :: "'a set"
  wq_shuttingDown :: bool

definition newQueue :: "'a workqueue" where
  "newQueue = \<lparr>wq_queue = [], wq_dirty = {}, wq_processing = {}, wq_shuttingDown = False\<rparr>"

definition wq_Add :: "'a \<Rightarrow> 'a workqueue \<Rightarrow> 'a workqueue" where
  "wq_Add item q =
     (if wq_shuttingDown q then q
      else if item \<in> wq_dirty q then q
      else
        (let q' = q\<lparr>wq_dirty := insert item (wq_dirty q)\<rparr>
         in if item \<in> wq_processing q' then q'
            else q'\<lparr>wq_queue := wq_queue q' @ [item]\<rparr>))"

definition wq_Len :: "'a workqueue \<Rightarrow> nat" where
  "wq_Len q = length (wq_queue q)"

datatype 'a wq_get = GetItem 'a | GetShutdown | GetWaits

definition wq_Get :: "'a workqueue \<Rightarrow> 'a wq_get \<times> 'a workqueue" where
  "wq_Get q =
     (case wq_queue q of
        [] \<Rightarrow> (if wq_shuttingDown q then GetShutdown else GetWaits, q)
      | item # rest \<Rightarrow>
          (GetItem item,
           q\<lparr>wq_queue := rest, wq_processing := insert item (wq_processing q),
             wq_dirty := wq_dirty q - {item}\<rparr>))"

definition wq_Done :: "'a \<Rightarrow> 'a workqueue \<Rightarrow> 'a workqueue" where
  "wq_Done item q =
     (let q' = q\<lparr>wq_processing := wq_processing q - {item}\<rparr>
      in if item \<in> wq_dirty q' then q'\<lparr>wq_queue := wq_queue q' @ [item]\<rparr> else q')"

definition wq_ShutDown :: "'a workqueue \<Rightarrow> 'a workqueue" where
  "wq_ShutDown q = q\<lparr>wq_shuttingDown := True\<rparr>"

section \<open>The contract of a queue that items are added to\<close>

text \<open>
  What a caller that only adds items relies on: an item that is added waits to be processed, unless the
  queue is shutting down, and nothing else changes.
\<close>

locale adding_queue =
  fixes add :: "'a \<Rightarrow> 'q \<Rightarrow> 'q" and waiting :: "'q \<Rightarrow> 'a set" and down :: "'q \<Rightarrow> bool"
  assumes waiting_add: "waiting (add x q) = (if down q then waiting q else insert x (waiting q))"
    and down_add: "down (add x q) = down q"
begin

lemma waiting_fold:
  "waiting (fold add xs q) = (if down q then waiting q else waiting q \<union> set xs)"
  by (induction xs arbitrary: q) (auto simp: waiting_add down_add)

lemma down_fold: "down (fold add xs q) = down q"
  by (induction xs arbitrary: q) (simp_all add: down_add)

end

interpretation wq: adding_queue wq_Add wq_dirty wq_shuttingDown
  by unfold_locales (auto simp: wq_Add_def Let_def)

section \<open>Runs of the queue\<close>

text \<open>
  \<open>wq_run q P H\<close>: a sequence of operations leads to the queue \<open>q\<close>, where \<open>P\<close> are the items added since
  they were last handed out, and \<open>H\<close> the items handed out and not yet done.  A worker calls Done only for
  an item it was given.
\<close>

inductive wq_run :: "'a workqueue \<Rightarrow> 'a set \<Rightarrow> 'a set \<Rightarrow> bool" where
  new: "wq_run newQueue {} {}"
| add: "wq_run q P H \<Longrightarrow> wq_run (wq_Add x q) (if wq_shuttingDown q then P else insert x P) H"
| get: "wq_run q P H \<Longrightarrow> wq_Get q = (GetItem x, q') \<Longrightarrow> wq_run q' (P - {x}) (insert x H)"
| finish: "wq_run q P H \<Longrightarrow> x \<in> H \<Longrightarrow> wq_run (wq_Done x q) P (H - {x})"
| shutDown: "wq_run q P H \<Longrightarrow> wq_run (wq_ShutDown q) P H"

definition wq_inv :: "'a workqueue \<Rightarrow> bool" where
  "wq_inv q \<longleftrightarrow> distinct (wq_queue q) \<and> set (wq_queue q) = wq_dirty q - wq_processing q"

lemma wq_inv_new: "wq_inv newQueue"
  by (simp add: wq_inv_def newQueue_def)

lemma wq_inv_Add: "wq_inv q \<Longrightarrow> wq_inv (wq_Add x q)"
  by (auto simp: wq_inv_def wq_Add_def Let_def)

lemma wq_inv_Get: "wq_inv q \<Longrightarrow> wq_inv (snd (wq_Get q))"
  by (cases "wq_queue q") (auto simp: wq_inv_def wq_Get_def)

lemma wq_inv_Done: "wq_inv q \<Longrightarrow> x \<in> wq_processing q \<Longrightarrow> wq_inv (wq_Done x q)"
  by (auto simp: wq_inv_def wq_Done_def Let_def)

lemma wq_inv_ShutDown: "wq_inv q \<Longrightarrow> wq_inv (wq_ShutDown q)"
  by (simp add: wq_inv_def wq_ShutDown_def)

lemma wq_fields:
  "wq_processing (wq_Add x q) = wq_processing q" "wq_dirty (wq_Done x q) = wq_dirty q"
  "wq_processing (wq_Done x q) = wq_processing q - {x}"
  "wq_dirty (wq_ShutDown q) = wq_dirty q" "wq_processing (wq_ShutDown q) = wq_processing q"
  by (simp_all add: wq_Add_def wq_Done_def wq_ShutDown_def Let_def)

lemma Get_fields:
  "wq_Get q = (GetItem x, q') \<Longrightarrow> wq_dirty q' = wq_dirty q - {x} \<and> wq_processing q' = insert x (wq_processing q)"
  by (auto simp: wq_Get_def split: list.splits if_splits)

lemma wq_run_inv: "wq_run q P H \<Longrightarrow> wq_inv q \<and> wq_dirty q = P \<and> wq_processing q = H"
proof (induction rule: wq_run.induct)
  case new
  then show ?case by (simp add: wq_inv_new) (simp add: newQueue_def)
next
  case (get q P H x q')
  then show ?case using wq_inv_Get [of q] Get_fields [OF get(2)] by simp
qed (simp_all add: wq_inv_Add wq_inv_Done wq_inv_ShutDown wq_fields wq.waiting_add)

text \<open>C24. Whatever operations any number of workers ran, the queue holds exactly the items that were added
  since they were last handed out and that no worker holds, each once.  So Get hands out only items that
  need processing and that no other worker is processing, and it waits or reports the shutdown only when
  there is no such item.\<close>

theorem queue_hands_out_once:
  assumes "wq_run q P H"
  shows "distinct (wq_queue q) \<and> set (wq_queue q) = P - H \<and>
    (case fst (wq_Get q) of
       GetItem x \<Rightarrow> x \<in> P \<and> x \<notin> H
     | GetShutdown \<Rightarrow> P \<subseteq> H \<and> wq_shuttingDown q
     | GetWaits \<Rightarrow> P \<subseteq> H \<and> \<not> wq_shuttingDown q)"
proof -
  have inv: "distinct (wq_queue q)" "set (wq_queue q) = P - H"
    using wq_run_inv [OF assms] by (auto simp: wq_inv_def)
  moreover have "P \<subseteq> H \<longleftrightarrow> wq_queue q = []" using inv(2) by (metis Diff_eq_empty_iff set_empty)
  ultimately show ?thesis by (cases "wq_queue q") (auto simp: wq_Get_def)
qed

theorem queue_hands_out_once_witness:
  "wq_queue (wq_Add (2::nat) (wq_Add 1 newQueue)) = [1, 2] \<and> set (wq_queue (wq_Add (2::nat) (wq_Add 1 newQueue))) = {1, 2} - {}"
  using queue_hands_out_once [OF wq_run.add [OF wq_run.add [OF wq_run.new]], of "2::nat" 1]
  by (simp add: wq_Add_def newQueue_def Let_def)

section \<open>No item starves\<close>

datatype 'a wq_op = OpAdd 'a | OpGet | OpDone 'a | OpShutDown

fun wq_exec :: "'a wq_op list \<Rightarrow> 'a workqueue \<Rightarrow> 'a list \<times> 'a workqueue" where
  "wq_exec [] q = ([], q)"
| "wq_exec (OpAdd x # ops) q = wq_exec ops (wq_Add x q)"
| "wq_exec (OpDone x # ops) q = wq_exec ops (wq_Done x q)"
| "wq_exec (OpShutDown # ops) q = wq_exec ops (wq_ShutDown q)"
| "wq_exec (OpGet # ops) q =
     (case wq_Get q of
        (GetItem x, q') \<Rightarrow> (case wq_exec ops q' of (got, q'') \<Rightarrow> (x # got, q''))
      | (r, q') \<Rightarrow> wq_exec ops q')"

definition gets :: "'a wq_op list \<Rightarrow> nat" where
  "gets ops = length (filter (\<lambda>op. op = OpGet) ops)"

lemma gets_simps [simp]:
  "gets [] = 0" "gets (OpGet # ops) = Suc (gets ops)" "gets (OpAdd x # ops) = gets ops"
  "gets (OpDone x # ops) = gets ops" "gets (OpShutDown # ops) = gets ops"
  by (simp_all add: gets_def)

text \<open>The other operations only append to the queue.\<close>

lemma append_only:
  "\<exists>ys. wq_queue (wq_Add x q) = wq_queue q @ ys" "\<exists>ys. wq_queue (wq_Done x q) = wq_queue q @ ys"
  "wq_queue (wq_ShutDown q) = wq_queue q"
  by (simp_all add: wq_Add_def wq_Done_def wq_ShutDown_def Let_def)

lemma wq_exec_fifo: "wq_queue q = xs @ ys \<Longrightarrow> take (length xs) (fst (wq_exec ops q)) = take (gets ops) xs"
proof (induction ops arbitrary: q xs ys)
  case (Cons op ops)
  show ?case
  proof (cases op)
    case (OpAdd x)
    with Cons.IH [of "wq_Add x q" xs] Cons.prems append_only(1) [of x q] show ?thesis by auto
  next
    case (OpDone x)
    with Cons.IH [of "wq_Done x q" xs] Cons.prems append_only(2) [of x q] show ?thesis by auto
  next
    case OpShutDown
    with Cons.IH [of "wq_ShutDown q" xs] Cons.prems append_only(3) [of q] show ?thesis by auto
  next
    case OpGet
    show ?thesis
    proof (cases xs)
      case Nil
      then show ?thesis by simp
    next
      case x: (Cons x xs')
      let ?q = "q\<lparr>wq_queue := xs' @ ys, wq_processing := insert x (wq_processing q), wq_dirty := wq_dirty q - {x}\<rparr>"
      have "wq_Get q = (GetItem x, ?q)" using Cons.prems x by (simp add: wq_Get_def)
      then show ?thesis using Cons.IH [of ?q xs' ys] OpGet x by (simp add: case_prod_beta)
    qed
  qed
qed simp

text \<open>C25. No item starves: the items of the queue are handed out in its order, whatever other workers do in
  between.  The item at position \<open>i\<close> is handed out by the Get number \<open>i + 1\<close> at the latest.\<close>

theorem queue_is_fair:
  assumes "i < wq_Len q" and "i < gets ops"
  shows "take (Suc i) (fst (wq_exec ops q)) = take (Suc i) (wq_queue q)"
proof -
  let ?n = "length (wq_queue q)"
  have "take ?n (fst (wq_exec ops q)) = take (gets ops) (wq_queue q)"
    using wq_exec_fifo [of q "wq_queue q" "[]"] by simp
  from arg_cong [OF this, of "take (Suc i)"] show ?thesis
    using assms by (simp add: wq_Len_def min_def)
qed

theorem queue_is_fair_witness:
  "take 2 (fst (wq_exec [OpGet, OpAdd (3::nat), OpDone 1, OpGet, OpGet] (wq_Add 2 (wq_Add 1 newQueue)))) = [1, 2]"
  using queue_is_fair [of 1 "wq_Add 2 (wq_Add (1::nat) newQueue)" "[OpGet, OpAdd 3, OpDone 1, OpGet, OpGet]"]
  by (simp add: wq_Add_def newQueue_def wq_Len_def Let_def numeral_2_eq_2)

text \<open>An item that is added while a worker holds it is not lost: it is not handed out before that worker is
  done with it, and Done puts it back into the queue.\<close>

theorem added_while_processing:
  assumes "wq_run q P H" and "x \<in> H" and "\<not> wq_shuttingDown q"
  shows "x \<notin> set (wq_queue (wq_Add x q)) \<and> x \<in> set (wq_queue (wq_Done x (wq_Add x q)))
    \<and> wq_queue (wq_Done x q) = wq_queue q @ (if x \<in> P then [x] else [])"
proof -
  have "wq_inv q" "wq_dirty q = P" "wq_processing q = H" using wq_run_inv [OF assms(1)] by auto
  with assms(2,3) show ?thesis by (auto simp: wq_inv_def wq_Add_def wq_Done_def Let_def)
qed

lemma run_example: "wq_run (snd (wq_Get (wq_Add (1::nat) newQueue))) ({1} - {1}) {1}"
  by (rule wq_run.get [of "wq_Add 1 newQueue"])
    (use wq_run.add [OF wq_run.new, of "1::nat"] in \<open>simp_all add: wq_Get_def wq_Add_def newQueue_def Let_def\<close>)

theorem added_while_processing_witness:
  "(1::nat) \<in> set (wq_queue (wq_Done 1 (wq_Add 1 (snd (wq_Get (wq_Add 1 newQueue))))))"
  using added_while_processing [OF run_example]
  by (simp add: wq_Get_def wq_Add_def newQueue_def Let_def)

end
