(* ===== verification/Delaying_Queue.thy ===== *)
theory Delaying_Queue
  imports Work_Queue Go_Heap
begin

text \<open>
  The delaying queue of \<open>client-go/util/workqueue/delaying_queue.go\<close>: waitForPriorityQueue, insert,
  AddAfter and the goroutine waitingLoop.  The entries of the heap are shared with the map of known
  entries, so they live in a store and the heap and the map hold their addresses.  Times and durations
  are integers (nanoseconds); the clock is an argument of every step that reads it.
\<close>

section \<open>Entries and their heap\<close>

record 'a waitFor =
  wf_data :: 'a
  wf_readyAt :: int
  wf_index :: int

record 'a waiting =
  wf_store :: "nat \<rightharpoonup> 'a waitFor"
  wf_next :: nat
  wf_pq :: "nat list"
  wf_known :: "'a \<rightharpoonup> nat"

definition newWaiting :: "'a waiting" where
  "newWaiting = \<lparr>wf_store = Map.empty, wf_next = 0, wf_pq = [], wf_known = Map.empty\<rparr>"

definition wf_at :: "'a waiting \<Rightarrow> nat \<Rightarrow> 'a waitFor" where
  "wf_at h i = the (wf_store h (wf_pq h ! i))"

definition wf_setIndex :: "nat \<Rightarrow> int \<Rightarrow> 'a waiting \<Rightarrow> 'a waiting" where
  "wf_setIndex a i h = h\<lparr>wf_store := (wf_store h)(a := map_option (\<lambda>e. e\<lparr>wf_index := i\<rparr>) (wf_store h a))\<rparr>"

definition wf_Len :: "'a waiting \<Rightarrow> nat" where
  "wf_Len h = length (wf_pq h)"

definition wf_Less :: "'a waiting \<Rightarrow> nat \<Rightarrow> nat \<Rightarrow> bool" where
  "wf_Less h i j \<longleftrightarrow> wf_readyAt (wf_at h i) < wf_readyAt (wf_at h j)"

definition wf_Swap :: "'a waiting \<Rightarrow> nat \<Rightarrow> nat \<Rightarrow> 'a waiting" where
  "wf_Swap h i j =
     (let h' = h\<lparr>wf_pq := swapped (wf_pq h) i j\<rparr>;
          h'' = wf_setIndex (wf_pq h' ! i) (int i) h'
      in wf_setIndex (wf_pq h'' ! j) (int j) h'')"

definition wf_Push :: "nat \<Rightarrow> 'a waiting \<Rightarrow> 'a waiting" where
  "wf_Push x h =
     (let h' = wf_setIndex x (int (length (wf_pq h))) h in h'\<lparr>wf_pq := wf_pq h' @ [x]\<rparr>)"

definition wf_Pop :: "'a waiting \<Rightarrow> nat \<times> 'a waiting" where
  "wf_Pop h =
     (let n = length (wf_pq h); item = wf_pq h ! (n - 1); h' = wf_setIndex item (-1) h
      in (item, h'\<lparr>wf_pq := take (n - 1) (wf_pq h')\<rparr>))"

definition wf_Peek :: "'a waiting \<Rightarrow> 'a waitFor" where
  "wf_Peek h = wf_at h 0"

text \<open>The entry at address \<open>a\<close> is inserted, or brings the known entry of its item forward.\<close>

definition wf_insert :: "nat \<Rightarrow> 'a waiting \<Rightarrow> 'a waiting" where
  "wf_insert a h =
     (let entry = the (wf_store h a)
      in case wf_known h (wf_data entry) of
           Some b \<Rightarrow>
             (let existing = the (wf_store h b)
              in if wf_readyAt existing > wf_readyAt entry
                 then heap_Fix wf_Len wf_Less wf_Swap (nat (wf_index existing))
                        (h\<lparr>wf_store := (wf_store h)(b \<mapsto> existing\<lparr>wf_readyAt := wf_readyAt entry\<rparr>)\<rparr>)
                 else h)
         | None \<Rightarrow>
             (let h' = heap_Push wf_Len wf_Less wf_Swap wf_Push a h
              in h'\<lparr>wf_known := (wf_known h')(wf_data entry \<mapsto> a)\<rparr>))"

text \<open>An entry that was received from the channel.\<close>

definition wf_alloc :: "'a \<Rightarrow> int \<Rightarrow> 'a waiting \<Rightarrow> nat \<times> 'a waiting" where
  "wf_alloc x t h =
     (wf_next h, h\<lparr>wf_store := (wf_store h)(wf_next h \<mapsto> \<lparr>wf_data = x, wf_readyAt = t, wf_index = 0\<rparr>),
        wf_next := Suc (wf_next h)\<rparr>)"

section \<open>The heap and what it holds\<close>

definition wf_value :: "'a waiting \<Rightarrow> nat \<Rightarrow> ('a \<times> int) option" where
  "wf_value h a = map_option (\<lambda>e. (wf_data e, wf_readyAt e)) (wf_store h a)"

definition wf_content :: "'a waiting \<Rightarrow> (nat \<times> 'a \<times> int) list" where
  "wf_content h = map (\<lambda>a. (a, the (wf_value h a))) (wf_pq h)"

definition wf_ok :: "'a waiting \<Rightarrow> bool" where
  "wf_ok h \<longleftrightarrow>
     distinct (wf_pq h) \<and> set (wf_pq h) \<subseteq> dom (wf_store h) \<and> (\<forall>a \<in> dom (wf_store h). a < wf_next h) \<and>
     (\<forall>i < length (wf_pq h). map_option wf_index (wf_store h (wf_pq h ! i)) = Some (int i))"

definition earlier :: "nat \<times> 'a \<times> int \<Rightarrow> nat \<times> 'a \<times> int \<Rightarrow> bool" where
  "earlier x y \<longleftrightarrow> snd (snd x) < snd (snd y)"

lemma wf_okD:
  assumes "wf_ok h"
  shows "distinct (wf_pq h)" and "a \<in> set (wf_pq h) \<Longrightarrow> \<exists>e. wf_store h a = Some e"
    and "wf_store h a = Some e \<Longrightarrow> a < wf_next h"
    and "i < length (wf_pq h) \<Longrightarrow> map_option wf_index (wf_store h (wf_pq h ! i)) = Some (int i)"
  using assms by (auto simp: wf_ok_def)

lemma length_wf_content [simp]: "length (wf_content h) = length (wf_pq h)"
  by (simp add: wf_content_def)

lemma setIndex_fields [simp]:
  "wf_pq (wf_setIndex a i h) = wf_pq h" "wf_known (wf_setIndex a i h) = wf_known h"
  "wf_next (wf_setIndex a i h) = wf_next h" "wf_value (wf_setIndex a i h) = wf_value h"
  "wf_value (h\<lparr>wf_pq := pq\<rparr>) = wf_value h" "wf_value (h\<lparr>wf_known := m\<rparr>) = wf_value h"
  "dom (wf_store (wf_setIndex a i h)) = dom (wf_store h)"
  by (auto simp: wf_setIndex_def wf_value_def fun_eq_iff option.map_comp comp_def)

lemma setIndex_None [simp]: "wf_store (wf_setIndex a i h) b = None \<longleftrightarrow> wf_store h b = None"
  by (simp add: wf_setIndex_def)

lemma setIndex_index:
  "map_option wf_index (wf_store (wf_setIndex a i h) b) =
     (if b = a \<and> wf_store h a \<noteq> None then Some i else map_option wf_index (wf_store h b))"
  by (cases "wf_store h a") (auto simp: wf_setIndex_def)

lemma Swap_fields [simp]:
  "wf_pq (wf_Swap h i j) = swapped (wf_pq h) i j" "wf_known (wf_Swap h i j) = wf_known h"
  "wf_next (wf_Swap h i j) = wf_next h" "wf_value (wf_Swap h i j) = wf_value h"
  "dom (wf_store (wf_Swap h i j)) = dom (wf_store h)"
  by (simp_all add: wf_Swap_def Let_def)

lemma set_swapped: "i < length xs \<Longrightarrow> j < length xs \<Longrightarrow> set (swapped xs i j) = set xs"
  by (metis mset_swapped mset_eq_setD)

lemma distinct_swapped: "i < length xs \<Longrightarrow> j < length xs \<Longrightarrow> distinct (swapped xs i j) = distinct xs"
  by (metis mset_swapped mset_eq_imp_distinct_iff)

lemma wf_Swap_ok:
  assumes "wf_ok h" and "i < length (wf_pq h)" and "j < length (wf_pq h)"
  shows "wf_ok (wf_Swap h i j)"
proof -
  let ?pq = "swapped (wf_pq h) i j"
  have nth: "?pq ! k = (if k = i then wf_pq h ! j else if k = j then wf_pq h ! i else wf_pq h ! k)"
    if "k < length (wf_pq h)" for k
    using swapped_nth assms(2,3) that by metis
  have inj: "wf_pq h ! k = wf_pq h ! l \<longleftrightarrow> k = l" if "k < length (wf_pq h)" "l < length (wf_pq h)" for k l
    using wf_okD(1) [OF assms(1)] that by (simp add: nth_eq_iff_index_eq)
  have st: "wf_store h (wf_pq h ! k) \<noteq> None" if "k < length (wf_pq h)" for k
    using wf_okD(4) [OF assms(1) that] by auto
  have "map_option wf_index (wf_store (wf_Swap h i j) (?pq ! k)) = Some (int k)" if k: "k < length (wf_pq h)" for k
    using wf_okD(4) [OF assms(1) k] k assms(2,3) st
    by (auto simp: wf_Swap_def Let_def setIndex_index nth inj)
  then show ?thesis
    using assms wf_okD(1) [OF assms(1)]
    unfolding wf_ok_def Swap_fields by (simp add: set_swapped distinct_swapped)
qed

lemma wf_Swap_content:
  "i < length (wf_pq h) \<Longrightarrow> j < length (wf_pq h) \<Longrightarrow> wf_content (wf_Swap h i j) = swapped (wf_content h) i j"
  by (simp add: wf_content_def swapped_def map_update)

lemma wf_Less_content:
  assumes "wf_ok h" and "i < length (wf_pq h)" and "j < length (wf_pq h)"
  shows "wf_Less h i j \<longleftrightarrow> earlier (wf_content h ! i) (wf_content h ! j)"
proof -
  obtain e f where "wf_store h (wf_pq h ! i) = Some e" "wf_store h (wf_pq h ! j) = Some f"
    using wf_okD(4) [OF assms(1,2)] wf_okD(4) [OF assms(1,3)] by auto
  then show ?thesis using assms(2,3) by (simp add: wf_Less_def wf_at_def earlier_def wf_content_def wf_value_def)
qed

interpretation delays: heap_interface earlier wf_ok wf_content wf_Less wf_Swap
  by unfold_locales (auto simp: earlier_def wf_Less_content wf_Swap_ok wf_Swap_content)


text \<open>
  The map knows the entries of the heap, one for each item: \<open>deadline\<close> is the time an item waits for.
\<close>

definition wf_valid :: "'a waiting \<Rightarrow> bool" where
  "wf_valid h \<longleftrightarrow> wf_ok h \<and> delays.is_heap h \<and>
     (\<forall>x a. wf_known h x = Some a \<longleftrightarrow> (\<exists>t. (a, x, t) \<in> set (wf_content h)))"

definition deadline :: "'a waiting \<Rightarrow> 'a \<Rightarrow> int option" where
  "deadline h x = map_option (\<lambda>a. snd (the (wf_value h a))) (wf_known h x)"

lemma wf_validD:
  assumes "wf_valid h"
  shows "wf_ok h" and "delays.is_heap h" and "wf_known h x = Some a \<longleftrightarrow> (\<exists>t. (a, x, t) \<in> set (wf_content h))"
  using assms by (simp_all add: wf_valid_def)

lemma wf_content_iff:
  assumes "wf_ok h"
  shows "(a, x, t) \<in> set (wf_content h) \<longleftrightarrow> a \<in> set (wf_pq h) \<and> wf_value h a = Some (x, t)"
  using wf_okD(2) [OF assms, of a] by (auto simp: wf_content_def wf_value_def)

lemma distinct_content: "wf_ok h \<Longrightarrow> distinct (wf_content h)"
  using wf_okD(1) [of h] by (auto simp: wf_content_def distinct_map inj_on_def)

lemma deadline_iff:
  assumes "wf_valid h"
  shows "deadline h x = Some t \<longleftrightarrow> (\<exists>a. (a, x, t) \<in> set (wf_content h))"
proof -
  note ok = wf_validD(1) [OF assms] and known = wf_validD(3) [OF assms]
  show ?thesis
  proof (cases "wf_known h x")
    case None
    have "(a, x, t) \<notin> set (wf_content h)" for a using known [of x a] None by auto
    with None show ?thesis by (simp add: deadline_def)
  next
    case (Some a)
    then obtain s where s: "(a, x, s) \<in> set (wf_content h)" using known [of x a] by auto
    note val = s [unfolded wf_content_iff [OF ok]]
    have d: "deadline h x = Some s" using Some val by (simp add: deadline_def)
    have "t = s" if r: "(b, x, t) \<in> set (wf_content h)" for b
    proof -
      have "b = a" using known [of x b] r Some by auto
      with r [unfolded wf_content_iff [OF ok]] val show ?thesis by simp
    qed
    then show ?thesis using s d by auto
  qed
qed

lemma known_fields [simp]:
  "wf_ok (h\<lparr>wf_known := m\<rparr>) = wf_ok h" "wf_content (h\<lparr>wf_known := m\<rparr>) = wf_content h"
  "delays.is_heap (h\<lparr>wf_known := m\<rparr>) = delays.is_heap h"
  by (simp_all add: wf_ok_def wf_content_def delays.is_heap_def)

lemma deadline_eqI:
  assumes "wf_valid h" and "\<And>x t. (\<exists>a. (a, x, t) \<in> set (wf_content h)) \<longleftrightarrow> m x = Some t"
  shows "deadline h = m"
proof
  fix x
  show "deadline h x = m x"
    using deadline_iff [OF assms(1), of x] assms(2) [of x] by (cases "m x"; cases "deadline h x") auto
qed

text \<open>A new entry.\<close>

lemma wf_alloc_spec:
  assumes "wf_valid h" and "wf_alloc x t h = (a, h')"
  shows "wf_valid h'" and "deadline h' = deadline h" and "a \<notin> set (wf_pq h')" and "wf_value h' a = Some (x, t)"
    and "wf_store h' a \<noteq> None"
proof -
  note ok = wf_validD(1) [OF assms(1)]
  have a: "a = wf_next h" and h': "h' = h\<lparr>wf_store := (wf_store h)(a \<mapsto> \<lparr>wf_data = x, wf_readyAt = t, wf_index = 0\<rparr>),
      wf_next := Suc a\<rparr>" using assms(2) by (auto simp: wf_alloc_def)
  have fresh: "b \<noteq> a" if "b \<in> set (wf_pq h)" for b
    using wf_okD(2,3) [OF ok] that a by fastforce
  then show "a \<notin> set (wf_pq h')" using h' by auto
  show "wf_value h' a = Some (x, t)" "wf_store h' a \<noteq> None" by (simp_all add: h' wf_value_def)
  have val: "wf_value h' b = wf_value h b" if "b \<noteq> a" for b using that by (simp add: h' wf_value_def)
  have c: "wf_content h' = wf_content h" using fresh val by (auto simp: wf_content_def h')
  have "wf_store h' (wf_pq h ! i) = wf_store h (wf_pq h ! i)" if "i < length (wf_pq h)" for i
    using fresh [of "wf_pq h ! i"] that by (auto simp: h')
  then have "wf_ok h'"
    using ok fresh unfolding wf_ok_def by (auto simp: h' a less_Suc_eq)
  then show v: "wf_valid h'"
    using assms(1) c unfolding wf_valid_def delays.is_heap_def by (simp add: h')
  show "deadline h' = deadline h"
    using deadline_iff [OF assms(1)] by (intro deadline_eqI [OF v]) (simp add: c)
qed

text \<open>Inserting keeps the earliest time an item was asked for.\<close>

lemma wf_Push_spec:
  assumes "wf_ok h" and "a \<notin> set (wf_pq h)" and "wf_value h a = Some (x, t)"
  shows "wf_ok (wf_Push a h)" and "wf_content (wf_Push a h) = wf_content h @ [(a, x, t)]"
    and "wf_value (wf_Push a h) = wf_value h" and "wf_known (wf_Push a h) = wf_known h"
proof -
  have st: "wf_store h a \<noteq> None" using assms(3) by (auto simp: wf_value_def)
  show "wf_value (wf_Push a h) = wf_value h" "wf_known (wf_Push a h) = wf_known h"
    by (simp_all add: wf_Push_def Let_def)
  then show "wf_content (wf_Push a h) = wf_content h @ [(a, x, t)]"
    using assms(3) by (simp add: wf_content_def) (simp add: wf_Push_def Let_def)
  have "map_option wf_index (wf_store (wf_Push a h) ((wf_pq h @ [a]) ! i)) = Some (int i)"
    if "i < Suc (length (wf_pq h))" for i
  proof (cases "i = length (wf_pq h)")
    case True
    then show ?thesis using st by (simp add: wf_Push_def Let_def setIndex_index)
  next
    case False
    then have "wf_pq h ! i \<noteq> a" using assms(2) that nth_mem [of i "wf_pq h"] by auto
    then show ?thesis
      using False that wf_okD(4) [OF assms(1), of i]
      by (simp add: wf_Push_def Let_def setIndex_index nth_append)
  qed
  then show "wf_ok (wf_Push a h)"
    using assms(1,2) st unfolding wf_ok_def by (auto simp: wf_Push_def Let_def)
qed

lemma Push_keeps:
  "wf_known (heap_Push wf_Len wf_Less wf_Swap wf_Push a h) = wf_known h"
  by (simp add: heap_Push_def Let_def heap_up_keeps [of wf_known] wf_Push_def)

lemma insert_new:
  assumes "wf_valid h" and "a \<notin> set (wf_pq h)" and "wf_value h a = Some (x, t)" and "wf_known h x = None"
  defines "h' \<equiv> (heap_Push wf_Len wf_Less wf_Swap wf_Push a h)\<lparr>wf_known := (wf_known h)(x \<mapsto> a)\<rparr>"
  shows "wf_valid h'" and "deadline h' = (deadline h)(x \<mapsto> t)"
proof -
  note ok = wf_validD(1) [OF assms(1)] and known = wf_validD(3) [OF assms(1)]
  note p = wf_Push_spec [OF ok assms(2,3)]
  have len: "wf_Len (wf_Push a h) = length (wf_content (wf_Push a h))" by (simp add: wf_Len_def)
  note c = delays.Push_correct [of wf_Push a h "(a, x, t)" wf_Len, OF p(1,2) wf_validD(2) [OF assms(1)] len]
  have set: "set (wf_content h') = insert (a, x, t) (set (wf_content h))"
    using arg_cong [OF c(3), of set_mset] by (simp add: h'_def)
  have none: "(b, x, s) \<notin> set (wf_content h)" for b s using known [of x b] assms(4) by auto
  have "((wf_known h)(x \<mapsto> a)) y = Some b \<longleftrightarrow> (\<exists>s. (b, y, s) \<in> insert (a, x, t) (set (wf_content h)))" for y b
    using known [of y b] none by auto
  then show v: "wf_valid h'"
    unfolding wf_valid_def set using c(1,2) by (simp add: h'_def)
  have "(\<exists>b. (b, y, s) \<in> insert (a, x, t) (set (wf_content h))) \<longleftrightarrow> ((deadline h)(x \<mapsto> t)) y = Some s" for y s
    using deadline_iff [OF assms(1), of y s] none by auto
  then show "deadline h' = (deadline h)(x \<mapsto> t)" by (intro deadline_eqI [OF v]) (simp add: set)
qed

lemma wf_entry:
  assumes "wf_valid h" and "wf_known h x = Some b"
  obtains e i where "wf_store h b = Some e" and "wf_data e = x" and "i < length (wf_pq h)" and "wf_pq h ! i = b"
    and "wf_index e = int i" and "wf_content h ! i = (b, x, wf_readyAt e)" and "deadline h x = Some (wf_readyAt e)"
proof -
  note ok = wf_validD(1) [OF assms(1)]
  obtain t where t: "(b, x, t) \<in> set (wf_content h)" using wf_validD(3) [OF assms(1), of x b] assms(2) by auto
  then have b: "b \<in> set (wf_pq h)" "wf_value h b = Some (x, t)" using wf_content_iff [OF ok] by auto
  then obtain i where i: "i < length (wf_pq h)" "wf_pq h ! i = b" by (auto simp: in_set_conv_nth)
  obtain e where e: "wf_store h b = Some e" "wf_data e = x" "wf_readyAt e = t" using b(2) by (auto simp: wf_value_def)
  show thesis
  proof (rule that [of e i])
    show "wf_index e = int i" using wf_okD(4) [OF ok i(1)] i(2) e(1) by simp
    show "wf_content h ! i = (b, x, wf_readyAt e)" using i b(2) e by (simp add: wf_content_def)
    show "deadline h x = Some (wf_readyAt e)" using assms(2) b(2) e by (simp add: deadline_def)
  qed (use i e in simp_all)
qed

lemma wf_bring_forward:
  fixes t :: int
  assumes "wf_ok h" and "wf_store h b = Some e" and "i < length (wf_pq h)" and "wf_pq h ! i = b"
  defines "h' \<equiv> h\<lparr>wf_store := (wf_store h)(b \<mapsto> e\<lparr>wf_readyAt := t\<rparr>)\<rparr>"
  shows "wf_ok h'" and "wf_content h' = (wf_content h)[i := (b, wf_data e, t)]"
proof -
  have "wf_pq h ! j = b \<longleftrightarrow> j = i" if "j < length (wf_pq h)" for j
    using wf_okD(1) [OF assms(1)] that assms(3,4) by (metis nth_eq_iff_index_eq)
  then show "wf_content h' = (wf_content h)[i := (b, wf_data e, t)]"
    by (intro nth_equalityI) (auto simp: wf_content_def h'_def wf_value_def nth_list_update)
  have "map_option wf_index (wf_store h' a) = map_option wf_index (wf_store h a)" for a
    using assms(2) by (simp add: h'_def)
  moreover have "dom (wf_store h') = dom (wf_store h)" using assms(2) by (auto simp: h'_def)
  ultimately show "wf_ok h'" using assms(1) unfolding wf_ok_def by (simp add: h'_def)
qed

lemma insert_known:
  fixes t :: int
  assumes "wf_valid h" and "wf_known h x = Some b" and "wf_store h b = Some e"
  defines "h' \<equiv> heap_Fix wf_Len wf_Less wf_Swap (nat (wf_index e))
      (h\<lparr>wf_store := (wf_store h)(b \<mapsto> e\<lparr>wf_readyAt := t\<rparr>)\<rparr>)"
  shows "wf_valid h'" and "deadline h' = (deadline h)(x \<mapsto> t)"
proof -
  note ok = wf_validD(1) [OF assms(1)] and known = wf_validD(3) [OF assms(1)]
  obtain e' i where e': "wf_store h b = Some e'" "wf_data e' = x" "i < length (wf_pq h)" "wf_pq h ! i = b"
    "wf_index e' = int i" "wf_content h ! i = (b, x, wf_readyAt e')"
    by (rule wf_entry [OF assms(1,2)])
  have "e' = e" using e'(1) assms(3) by simp
  note e = e'(2-) [unfolded this]
  let ?h = "h\<lparr>wf_store := (wf_store h)(b \<mapsto> e\<lparr>wf_readyAt := t\<rparr>)\<rparr>"
  note f = wf_bring_forward [OF ok assms(3) e(2,3), of t, unfolded e(1)]
  have i: "i < length (wf_content h)" using e(2) by simp
  have "delays.fix_inv (length (wf_content ?h)) (wf_content ?h) i"
    using wf_validD(2) [OF assms(1)] i
    by (intro delays.fix_inv_update [of _ "wf_content h"]) (simp_all add: f(2) delays.is_heap_def)
  from delays.Fix_correct [OF f(1) this, where Len = wf_Len] i
  have c: "wf_ok h'" "delays.is_heap h'" "mset (wf_content h') = mset (wf_content ?h)"
    by (simp_all add: wf_Len_def h'_def e(4))
  have set: "set (wf_content h') = insert (b, x, t) (set (wf_content h) - {(b, x, wf_readyAt e)})"
    using mset_eq_setD [OF c(3)] set_update_distinct [OF distinct_content [OF ok] i, of "(b, x, t)"]
    by (simp add: f(2) e(5))
  have k: "wf_known h' = wf_known h"
    unfolding h'_def by (subst heap_Fix_keeps [of wf_known]) simp_all
  have at_x: "c = b \<and> s = wf_readyAt e" if "(c, x, s) \<in> set (wf_content h)" for c s
  proof -
    have "c = b" using known [of x c] that assms(2) by auto
    with that show ?thesis using wf_content_iff [OF ok, of b x s] assms(3) by (simp add: wf_value_def)
  qed
  have "wf_known h y = Some c \<longleftrightarrow>
      (\<exists>s. (c, y, s) \<in> insert (b, x, t) (set (wf_content h) - {(b, x, wf_readyAt e)}))" for y c
  proof (cases "y = x")
    case True
    then show ?thesis using at_x [of c] assms(2) by auto
  next
    case False
    then show ?thesis using known [of y c] by auto
  qed
  then show v: "wf_valid h'" unfolding wf_valid_def set k using c(1,2) by simp
  have "(\<exists>c. (c, y, s) \<in> insert (b, x, t) (set (wf_content h) - {(b, x, wf_readyAt e)})) \<longleftrightarrow>
      ((deadline h)(x \<mapsto> t)) y = Some s" for y s
  proof (cases "y = x")
    case True
    then show ?thesis using at_x [of _ s] by auto
  next
    case False
    then show ?thesis using deadline_iff [OF assms(1), of y s] by auto
  qed
  then show "deadline h' = (deadline h)(x \<mapsto> t)" by (intro deadline_eqI [OF v]) (simp add: set)
qed

lemma insert_spec:
  assumes "wf_valid h" and "a \<notin> set (wf_pq h)" and "wf_value h a = Some (x, t)"
  shows "wf_valid (wf_insert a h)"
    and "deadline (wf_insert a h) = (deadline h)(x \<mapsto> (case deadline h x of None \<Rightarrow> t | Some s \<Rightarrow> min s t))"
proof -
  obtain n where n: "wf_store h a = Some n" "wf_data n = x" "wf_readyAt n = t"
    using assms(3) by (auto simp: wf_value_def)
  show "wf_valid (wf_insert a h)"
    and "deadline (wf_insert a h) = (deadline h)(x \<mapsto> (case deadline h x of None \<Rightarrow> t | Some s \<Rightarrow> min s t))"
  proof (atomize (full), cases "wf_known h x")
    case None
    then show "wf_valid (wf_insert a h) \<and>
        deadline (wf_insert a h) = (deadline h)(x \<mapsto> (case deadline h x of None \<Rightarrow> t | Some s \<Rightarrow> min s t))"
      using insert_new [OF assms None] n by (simp add: wf_insert_def Push_keeps deadline_def)
  next
    case (Some b)
    obtain e i where e: "wf_store h b = Some e" "deadline h x = Some (wf_readyAt e)"
      by (rule wf_entry [OF assms(1) Some])
    have "(deadline h)(x \<mapsto> wf_readyAt e) = deadline h" using e(2) by (simp add: fun_upd_idem)
    then show "wf_valid (wf_insert a h) \<and>
        deadline (wf_insert a h) = (deadline h)(x \<mapsto> (case deadline h x of None \<Rightarrow> t | Some s \<Rightarrow> min s t))"
      using insert_known [OF assms(1) Some e(1), of t] assms(1) Some n e
      by (auto simp: wf_insert_def min_def)
  qed
qed

text \<open>Taking the earliest entry out.\<close>

lemma wf_Pop_spec:
  assumes "wf_ok h" and "length (wf_pq h) = Suc n"
  shows "fst (wf_Pop h) = wf_pq h ! n" and "wf_ok (snd (wf_Pop h))"
    and "wf_content (snd (wf_Pop h)) = take n (wf_content h)"
    and "wf_value (snd (wf_Pop h)) = wf_value h" and "wf_known (snd (wf_Pop h)) = wf_known h"
proof -
  let ?a = "wf_pq h ! n"
  show "fst (wf_Pop h) = ?a" using assms(2) by (simp add: wf_Pop_def Let_def)
  show val: "wf_value (snd (wf_Pop h)) = wf_value h" "wf_known (snd (wf_Pop h)) = wf_known h"
    by (simp_all add: wf_Pop_def Let_def)
  have pq: "wf_pq (snd (wf_Pop h)) = take n (wf_pq h)" using assms(2) by (simp add: wf_Pop_def Let_def)
  show "wf_content (snd (wf_Pop h)) = take n (wf_content h)"
    by (simp add: wf_content_def val(1) pq take_map)
  have "map_option wf_index (wf_store (snd (wf_Pop h)) (take n (wf_pq h) ! i)) = Some (int i)" if "i < n" for i
  proof -
    have "wf_pq h ! i \<noteq> ?a" using wf_okD(1) [OF assms(1)] that assms(2) by (simp add: nth_eq_iff_index_eq)
    then show ?thesis
      using that assms(2) wf_okD(4) [OF assms(1), of i] by (simp add: wf_Pop_def Let_def setIndex_index)
  qed
  moreover have "dom (wf_store (snd (wf_Pop h))) = dom (wf_store h)" "wf_next (snd (wf_Pop h)) = wf_next h"
    by (simp_all add: wf_Pop_def Let_def)
  moreover have "set (take n (wf_pq h)) \<subseteq> dom (wf_store h)"
    using assms(1) set_take_subset [of n "wf_pq h"] by (auto simp: wf_ok_def)
  ultimately show "wf_ok (snd (wf_Pop h))"
    using assms wf_okD(1) [OF assms(1)] unfolding wf_ok_def by (simp add: pq)
qed

definition popEntry :: "'a waiting \<Rightarrow> 'a \<times> 'a waiting" where
  "popEntry h =
     (case heap_Pop wf_Len wf_Less wf_Swap wf_Pop h of
        (entry, h') \<Rightarrow>
          (let d = wf_data (the (wf_store h' entry))
           in (d, h'\<lparr>wf_known := (wf_known h')(d := None)\<rparr>)))"

lemma set_minus1:
  assumes "distinct xs" and "mset ys = mset xs - {#x#}"
  shows "set ys = set xs - {x}"
proof -
  have "mset ys = mset (remove1 x xs)" using assms(2) by simp
  then have "set ys = set (remove1 x xs)" by (rule mset_eq_setD)
  then show ?thesis using assms(1) by (simp add: set_remove1_eq)
qed

lemma heap_Pop_spec:
  assumes "wf_valid h" and "wf_content h = (a, x, t) # rest"
  obtains h' where "heap_Pop wf_Len wf_Less wf_Swap wf_Pop h = (a, h')" and "wf_ok h'" and "delays.is_heap h'"
    and "set (wf_content h') = set (wf_content h) - {(a, x, t)}" and "wf_known h' = wf_known h"
    and "wf_value h' = wf_value h"
proof -
  note ok = wf_validD(1) [OF assms(1)]
  define n where "n = length rest"
  have n: "length (wf_content h) = Suc n" using assms(2) by (simp add: n_def)
  define g where "g = snd (heap_down wf_Less wf_Swap 0 n (wf_Swap h 0 n))"
  obtain ys where ys: "wf_ok g" "wf_content g = ys @ [(a, x, t)]" "delays.heap_to (length ys) ys"
      "mset ys = mset (wf_content h) - {#(a, x, t)#}"
    using delays.Pop_prepares [OF ok wf_validD(2) [OF assms(1)] n] assms(2) unfolding g_def by auto
  have keeps: "wf_value g = wf_value h" "wf_known g = wf_known h"
    unfolding g_def by (simp_all add: heap_down_keeps [of wf_value] heap_down_keeps [of wf_known])
  have "length (wf_content g) = Suc n"
    unfolding g_def using heap_down_keeps [of "\<lambda>h. length (wf_content h)" wf_Swap wf_Less 0 n "wf_Swap h 0 n"] n
    by simp
  then have len: "length ys = n" "length (wf_pq g) = Suc n"
    using arg_cong [OF ys(2), of length] by simp_all
  note p = wf_Pop_spec [OF ys(1) len(2)]
  have "wf_content g ! n = (wf_pq g ! n, the (wf_value g (wf_pq g ! n)))" using len(2) by (simp add: wf_content_def)
  moreover have "wf_content g ! n = (a, x, t)" using ys(2) len(1) by (simp add: nth_append)
  ultimately have "wf_pq g ! n = a" by simp
  with p(1) n have pop: "heap_Pop wf_Len wf_Less wf_Swap wf_Pop h = (a, snd (wf_Pop g))"
    by (simp add: heap_Pop_def wf_Len_def Let_def prod_eq_iff flip: g_def)
  have c: "wf_content (snd (wf_Pop g)) = ys" using p(3) ys(2) len by simp
  show thesis
    using that [OF pop p(2)] c ys(3) p(4,5) keeps set_minus1 [OF distinct_content [OF ok] ys(4)]
    by (simp add: delays.is_heap_def)
qed

lemma popEntry_spec:
  assumes "wf_valid h" and "wf_pq h \<noteq> []"
  obtains x h' where "popEntry h = (x, h')" and "wf_valid h'" and "deadline h' = (deadline h)(x := None)"
    and "deadline h x = Some (wf_readyAt (wf_Peek h))"
    and "\<And>y t. deadline h y = Some t \<Longrightarrow> wf_readyAt (wf_Peek h) \<le> t"
proof -
  note ok = wf_validD(1) [OF assms(1)] and known = wf_validD(3) [OF assms(1)]
  obtain a x t rest where c: "wf_content h = (a, x, t) # rest"
    using assms(2) by (cases "wf_content h") (auto simp: wf_content_def)
  obtain h' where h': "heap_Pop wf_Len wf_Less wf_Swap wf_Pop h = (a, h')" "wf_ok h'" "delays.is_heap h'"
      "set (wf_content h') = set (wf_content h) - {(a, x, t)}" "wf_known h' = wf_known h" "wf_value h' = wf_value h"
    by (rule heap_Pop_spec [OF assms(1) c])
  let ?h = "h'\<lparr>wf_known := (wf_known h)(x := None)\<rparr>"
  have mem: "(a, x, t) \<in> set (wf_content h)" by (simp add: c)
  then have a: "a \<in> set (wf_pq h)" "wf_value h a = Some (x, t)" using wf_content_iff [OF ok] by blast+
  have "wf_value h' a = Some (x, t)" using a(2) h'(6) by simp
  then have "wf_data (the (wf_store h' a)) = x" by (auto simp: wf_value_def)
  then have pop: "popEntry h = (x, ?h)" by (simp add: popEntry_def h'(1,5) Let_def)
  have at_x: "b = a \<and> s = t" if b: "(b, x, s) \<in> set (wf_content h)" for b s
  proof -
    have "b = a" using known [of x b] known [of x a] mem b by auto
    with b show ?thesis using wf_content_iff [OF ok, of a x s] a(2) by simp
  qed
  have "((wf_known h)(x := None)) y = Some b \<longleftrightarrow> (\<exists>s. (b, y, s) \<in> set (wf_content h) - {(a, x, t)})" for y b
    using known [of y b] at_x [of b] by (cases "y = x") auto
  then have v: "wf_valid ?h" unfolding wf_valid_def using h'(2,3) by (simp add: h'(4))
  have "(\<exists>b. (b, y, s) \<in> set (wf_content h) - {(a, x, t)}) \<longleftrightarrow> ((deadline h)(x := None)) y = Some s" for y s
    using deadline_iff [OF assms(1), of y s] at_x [of _ s] by (cases "y = x") auto
  then have d: "deadline ?h = (deadline h)(x := None)" by (intro deadline_eqI [OF v]) (simp add: h'(4))
  have peek: "wf_readyAt (wf_Peek h) = t"
    using c a(2) assms(2) by (cases "wf_pq h") (auto simp: wf_Peek_def wf_at_def wf_content_def wf_value_def)
  have "t \<le> s" if "deadline h y = Some s" for y s
  proof -
    from that obtain b where "(b, y, s) \<in> set (wf_content h)" using deadline_iff [OF assms(1), of y s] by auto
    from delays.is_heap_least [OF wf_validD(2) [OF assms(1)] this] show ?thesis by (simp add: c earlier_def)
  qed
  moreover have "deadline h x = Some t" using deadline_iff [OF assms(1), of x t] mem by auto
  ultimately show thesis using that [OF pop v d] unfolding peek by blast
qed

lemma no_deadline:
  assumes "wf_valid h" and "wf_pq h = []"
  shows "deadline h x = None"
proof -
  have "wf_content h = []" using assms(2) by (simp add: wf_content_def)
  then show ?thesis using deadline_iff [OF assms(1), of x] by (cases "deadline h x") auto
qed

section \<open>The waiting loop\<close>

lemma popEntry_len: "wf_Len h > 0 \<Longrightarrow> wf_Len (snd (popEntry h)) < wf_Len h"
  using heap_down_keeps [of wf_Len wf_Swap wf_Less 0 "wf_Len h - 1" "wf_Swap h 0 (wf_Len h - 1)"]
  by (simp add: popEntry_def heap_Pop_def wf_Pop_def wf_Len_def Let_def case_prod_beta)

text \<open>The loop that adds the ready entries.\<close>

function addReady :: "int \<Rightarrow> 'a waiting \<Rightarrow> 'a workqueue \<Rightarrow> 'a waiting \<times> 'a workqueue" where
  "addReady now h q =
     (if wf_Len h > 0 then
        (if wf_readyAt (wf_Peek h) > now then (h, q)
         else addReady now (snd (popEntry h)) (wq_Add (fst (popEntry h)) q))
      else (h, q))"
  by pat_completeness auto
termination by (relation "measure (\<lambda>(now, h, q). wf_Len h)") (simp_all add: popEntry_len)

declare addReady.simps [simp del]

definition nextReadyAt :: "int \<Rightarrow> 'a waiting \<Rightarrow> int option" where
  "nextReadyAt now h = (if wf_Len h > 0 then Some (wf_readyAt (wf_Peek h) - now) else None)"

text \<open>Where the loop is: at its top, in the select statement, draining the channel, or returned.\<close>

datatype loop_pc = LoopTop | LoopSelect | LoopDraining | LoopEnded

record 'a delayingType =
  dq_Interface :: "'a workqueue"
  dq_stopped :: bool
  dq_waitingForAddCh :: "('a \<times> int) list"
  dq_waiting :: "'a waiting"
  dq_pc :: loop_pc

definition newDelayingQueue :: "'a delayingType" where
  "newDelayingQueue =
     \<lparr>dq_Interface = newQueue, dq_stopped = False, dq_waitingForAddCh = [], dq_waiting = newWaiting, dq_pc = LoopTop\<rparr>"

text \<open>Closing the closed stop channel panics: \<open>None\<close>.\<close>

definition dq_ShutDown :: "'a delayingType \<Rightarrow> 'a delayingType option" where
  "dq_ShutDown d =
     (let d' = d\<lparr>dq_Interface := wq_ShutDown (dq_Interface d)\<rparr>
      in if dq_stopped d' then None else Some (d'\<lparr>dq_stopped := True\<rparr>))"

text \<open>\<open>None\<close>: the caller blocks, since the channel is full.\<close>

definition AddAfter :: "int \<Rightarrow> 'a \<Rightarrow> int \<Rightarrow> 'a delayingType \<Rightarrow> 'a delayingType option" where
  "AddAfter now item duration d =
     (if wq_shuttingDown (dq_Interface d) then Some d
      else if duration \<le> 0 then Some (d\<lparr>dq_Interface := wq_Add item (dq_Interface d)\<rparr>)
      else if length (dq_waitingForAddCh d) < 1000
      then Some (d\<lparr>dq_waitingForAddCh := dq_waitingForAddCh d @ [(item, now + duration)]\<rparr>)
      else if dq_stopped d then Some d
      else None)"

definition loopTop :: "int \<Rightarrow> 'a delayingType \<Rightarrow> 'a delayingType" where
  "loopTop now d =
     (if wq_shuttingDown (dq_Interface d) then d\<lparr>dq_pc := LoopEnded\<rparr>
      else (case addReady now (dq_waiting d) (dq_Interface d) of
              (h, q) \<Rightarrow> d\<lparr>dq_waiting := h, dq_Interface := q, dq_pc := LoopSelect\<rparr>))"

definition receiveEntry :: "int \<Rightarrow> 'a \<times> int \<Rightarrow> 'a delayingType \<Rightarrow> 'a delayingType" where
  "receiveEntry now waitEntry d =
     (case waitEntry of (x, t) \<Rightarrow>
        if t > now
        then (case wf_alloc x t (dq_waiting d) of (a, h) \<Rightarrow> d\<lparr>dq_waiting := wf_insert a h\<rparr>)
        else d\<lparr>dq_Interface := wq_Add x (dq_Interface d)\<rparr>)"

text \<open>The cases of the select statements; \<open>None\<close> when the case is not ready.\<close>

definition loopTick :: "'a delayingType \<Rightarrow> 'a delayingType option" where
  "loopTick d = (if dq_pc d = LoopSelect then Some (d\<lparr>dq_pc := LoopTop\<rparr>) else None)"

definition loopStop :: "'a delayingType \<Rightarrow> 'a delayingType option" where
  "loopStop d = (if dq_pc d = LoopSelect \<and> dq_stopped d then Some (d\<lparr>dq_pc := LoopEnded\<rparr>) else None)"

definition loopReceive :: "int \<Rightarrow> 'a delayingType \<Rightarrow> 'a delayingType option" where
  "loopReceive now d =
     (if dq_pc d = LoopSelect \<or> dq_pc d = LoopDraining
      then (case dq_waitingForAddCh d of
              [] \<Rightarrow> None
            | waitEntry # rest \<Rightarrow>
                Some (receiveEntry now waitEntry (d\<lparr>dq_waitingForAddCh := rest, dq_pc := LoopDraining\<rparr>)))
      else None)"

definition loopDrained :: "'a delayingType \<Rightarrow> 'a delayingType option" where
  "loopDrained d =
     (if dq_pc d = LoopDraining \<and> dq_waitingForAddCh d = [] then Some (d\<lparr>dq_pc := LoopTop\<rparr>) else None)"

section \<open>What the loop adds\<close>

definition later :: "int \<Rightarrow> ('a \<Rightarrow> int option) \<Rightarrow> 'a \<Rightarrow> int option" where
  "later now m x = (case m x of Some t \<Rightarrow> if t > now then Some t else None | None \<Rightarrow> None)"

definition due :: "int \<Rightarrow> ('a \<Rightarrow> int option) \<Rightarrow> 'a set" where
  "due now m = {x. \<exists>t \<le> now. m x = Some t}"

lemma none_due: "(\<And>x t. m x = Some t \<Longrightarrow> now < t) \<Longrightarrow> later now m = m \<and> due now m = {}"
  by (force simp: later_def due_def fun_eq_iff split: option.split)

lemma one_due:
  assumes "m x = Some t" and "t \<le> now"
  shows "later now (m(x := None)) = later now m" and "insert x (due now (m(x := None))) = due now m"
  using assms by (auto simp: later_def due_def fun_eq_iff)

lemma addReady_spec:
  "wf_valid h \<Longrightarrow> wf_valid (fst (addReady now h q)) \<and>
     deadline (fst (addReady now h q)) = later now (deadline h) \<and>
     wq_dirty (snd (addReady now h q)) =
       (if wq_shuttingDown q then wq_dirty q else wq_dirty q \<union> due now (deadline h))"
proof (induction now h q rule: addReady.induct)
  case (1 now h q)
  note unf = addReady.simps [of now h q]
  show ?case
  proof (cases "wf_Len h > 0 \<and> wf_readyAt (wf_Peek h) \<le> now")
    case False
    have "now < t" if "deadline h x = Some t" for x t
    proof (cases "wf_pq h = []")
      case True
      then show ?thesis using no_deadline [OF 1(2), of x] that by simp
    next
      case ne: False
      from popEntry_spec [OF 1(2) ne] that have "wf_readyAt (wf_Peek h) \<le> t" by metis
      then show ?thesis using False ne by (simp add: wf_Len_def)
    qed
    then show ?thesis using none_due [of "deadline h" now] False 1(2) by (auto simp: unf)
  next
    case True
    then have ne: "wf_pq h \<noteq> []" by (simp add: wf_Len_def)
    obtain x h' where p: "popEntry h = (x, h')" "wf_valid h'" "deadline h' = (deadline h)(x := None)"
      "deadline h x = Some (wf_readyAt (wf_Peek h))"
      using popEntry_spec [OF 1(2) ne] by metis
    note d = one_due [of "deadline h" x, OF p(4) conjunct2 [OF True]]
    have "addReady now h q = addReady now h' (wq_Add x q)" using True p(1) by (simp add: unf)
    moreover have "wf_valid (fst (addReady now h' (wq_Add x q))) \<and>
        deadline (fst (addReady now h' (wq_Add x q))) = later now (deadline h) \<and>
        wq_dirty (snd (addReady now h' (wq_Add x q))) = (if wq_shuttingDown (wq_Add x q) then wq_dirty (wq_Add x q)
          else wq_dirty (wq_Add x q) \<union> due now ((deadline h)(x := None)))"
      using 1(1) True p(1,2) unfolding p(3) [symmetric] d(1) [symmetric] by simp
    ultimately show ?thesis using d(2) by (auto simp: wq.waiting_add wq.down_add)
  qed
qed

lemma receiveEntry_spec:
  assumes "wf_valid (dq_waiting d)"
  shows "wf_valid (dq_waiting (receiveEntry now (x, t) d))"
    and "deadline (dq_waiting (receiveEntry now (x, t) d)) =
      (if t > now then (deadline (dq_waiting d))(x \<mapsto> (case deadline (dq_waiting d) x of None \<Rightarrow> t | Some s \<Rightarrow> min s t))
       else deadline (dq_waiting d))"
    and "wq_dirty (dq_Interface (receiveEntry now (x, t) d)) =
      (if t > now \<or> wq_shuttingDown (dq_Interface d) then wq_dirty (dq_Interface d)
       else insert x (wq_dirty (dq_Interface d)))"
proof -
  obtain a h where a: "wf_alloc x t (dq_waiting d) = (a, h)" by fastforce
  note al = wf_alloc_spec [OF assms a]
  note i = insert_spec [OF al(1) al(3,4)]
  show "wf_valid (dq_waiting (receiveEntry now (x, t) d))"
    and "deadline (dq_waiting (receiveEntry now (x, t) d)) =
      (if t > now then (deadline (dq_waiting d))(x \<mapsto> (case deadline (dq_waiting d) x of None \<Rightarrow> t | Some s \<Rightarrow> min s t))
       else deadline (dq_waiting d))"
    and "wq_dirty (dq_Interface (receiveEntry now (x, t) d)) =
      (if t > now \<or> wq_shuttingDown (dq_Interface d) then wq_dirty (dq_Interface d)
       else insert x (wq_dirty (dq_Interface d)))"
    using i al(2) assms by (simp_all add: receiveEntry_def a wq.waiting_add)
qed

text \<open>
  \<open>dq_run d R\<close>: the requests \<open>R\<close> were received by the loop and wait to be added.  A request that is due
  when it is received is added at once; when the loop is at its top at time \<open>now\<close>, all requests of an item
  one of whose requests is due are answered.  Workers and other callers change the underlying queue in any way.
\<close>

inductive dq_run :: "'a delayingType \<Rightarrow> ('a \<times> int) set \<Rightarrow> bool" where
  new: "dq_run newDelayingQueue {}"
| underlying: "dq_run d R \<Longrightarrow> dq_run (d\<lparr>dq_Interface := q\<rparr>) R"
| addAfter: "dq_run d R \<Longrightarrow> AddAfter now x duration d = Some d' \<Longrightarrow> dq_run d' R"
| shutDown: "dq_run d R \<Longrightarrow> dq_ShutDown d = Some d' \<Longrightarrow> dq_run d' R"
| top: "dq_run d R \<Longrightarrow> dq_pc d = LoopTop \<Longrightarrow>
    dq_run (loopTop now d) (if wq_shuttingDown (dq_Interface d) then R
      else {(x, t) \<in> R. \<forall>s. (x, s) \<in> R \<longrightarrow> now < s})"
| tick: "dq_run d R \<Longrightarrow> loopTick d = Some d' \<Longrightarrow> dq_run d' R"
| stop: "dq_run d R \<Longrightarrow> loopStop d = Some d' \<Longrightarrow> dq_run d' R"
| receive: "dq_run d R \<Longrightarrow> loopReceive now d = Some d' \<Longrightarrow> dq_waitingForAddCh d = (x, t) # rest \<Longrightarrow>
    dq_run d' (if now < t then insert (x, t) R else R)"
| drained: "dq_run d R \<Longrightarrow> loopDrained d = Some d' \<Longrightarrow> dq_run d' R"

text \<open>An item waits for the earliest of its requests.\<close>

definition earliest :: "('a \<Rightarrow> int option) \<Rightarrow> ('a \<times> int) set \<Rightarrow> bool" where
  "earliest m R \<longleftrightarrow> (\<forall>x t. (x, t) \<in> R \<longrightarrow> (\<exists>s \<le> t. m x = Some s)) \<and> (\<forall>x t. m x = Some t \<longrightarrow> (x, t) \<in> R)"

lemma earliestE:
  assumes "earliest m R" and "(x, t) \<in> R"
  obtains s where "s \<le> t" and "m x = Some s"
  using assms unfolding earliest_def by blast

lemma earliestD: "earliest m R \<Longrightarrow> m x = Some t \<Longrightarrow> (x, t) \<in> R"
  by (simp add: earliest_def)

lemma earliestI:
  "(\<And>x t. (x, t) \<in> R \<Longrightarrow> \<exists>s \<le> t. m x = Some s) \<Longrightarrow> (\<And>x t. m x = Some t \<Longrightarrow> (x, t) \<in> R) \<Longrightarrow> earliest m R"
  by (simp add: earliest_def)

lemma earliest_insert:
  assumes "earliest m R"
  shows "earliest (m(x \<mapsto> (case m x of None \<Rightarrow> t | Some s \<Rightarrow> min s t))) (insert (x, t) R)"
proof (rule earliestI)
  fix y u
  assume "(y, u) \<in> insert (x, t) R"
  moreover have "\<exists>s \<le> u. m y = Some s" if "(y, u) \<in> R" using earliestE [OF assms that] by metis
  ultimately show "\<exists>s \<le> u. (m(x \<mapsto> (case m x of None \<Rightarrow> t | Some s \<Rightarrow> min s t))) y = Some s"
    by (cases "m x") (auto simp: min_le_iff_disj)
next
  fix y u
  assume "(m(x \<mapsto> (case m x of None \<Rightarrow> t | Some s \<Rightarrow> min s t))) y = Some u"
  then show "(y, u) \<in> insert (x, t) R"
    using earliestD [OF assms, of y u] earliestD [OF assms, of x]
    by (auto simp: min_def split: if_splits option.splits)
qed

lemma earliest_later:
  assumes "earliest m R"
  shows "earliest (later now m) {(x, t) \<in> R. \<forall>s. (x, s) \<in> R \<longrightarrow> now < s}"
proof (rule earliestI)
  fix x t
  assume "(x, t) \<in> {(x, t) \<in> R. \<forall>s. (x, s) \<in> R \<longrightarrow> now < s}"
  then have r: "(x, t) \<in> R" "\<And>s. (x, s) \<in> R \<Longrightarrow> now < s" by auto
  obtain s where s: "s \<le> t" "m x = Some s" by (rule earliestE [OF assms r(1)])
  then show "\<exists>s \<le> t. later now m x = Some s"
    using r(2) [OF earliestD [OF assms s(2)]] by (auto simp: later_def)
next
  fix x t
  assume "later now m x = Some t"
  then have t: "m x = Some t" "now < t" by (auto simp: later_def split: option.splits if_splits)
  have "now < s" if "(x, s) \<in> R" for s using earliestE [OF assms that] t by force
  then show "(x, t) \<in> {(x, t) \<in> R. \<forall>s. (x, s) \<in> R \<longrightarrow> now < s}"
    using earliestD [OF assms t(1)] by auto
qed

lemma due_earliest:
  assumes "earliest m R"
  shows "due now m = {x. \<exists>t \<le> now. (x, t) \<in> R}"
proof -
  have "\<exists>s \<le> now. m x = Some s" if "(x, t) \<in> R" "t \<le> now" for x t
    using earliestE [OF assms that(1)] that(2) by (metis order_trans)
  then show ?thesis using earliestD [OF assms] unfolding due_def by blast
qed

lemma newWaiting_valid: "wf_valid newWaiting" "deadline newWaiting = Map.empty"
  by (auto simp: newWaiting_def wf_valid_def wf_ok_def wf_content_def delays.is_heap_def delays.heap_to_def deadline_def)

lemma dq_run_inv: "dq_run d R \<Longrightarrow> wf_valid (dq_waiting d) \<and> earliest (deadline (dq_waiting d)) R"
proof (induction rule: dq_run.induct)
  case new
  then show ?case by (simp add: newDelayingQueue_def earliest_def newWaiting_valid)
next
  case (addAfter d R now x duration d')
  then show ?case by (auto simp: AddAfter_def split: if_splits)
next
  case (shutDown d R d')
  then show ?case by (auto simp: dq_ShutDown_def Let_def split: if_splits)
next
  case (top d R now)
  then show ?case
    using addReady_spec [of "dq_waiting d" now "dq_Interface d"] earliest_later
    by (auto simp: loopTop_def case_prod_beta)
next
  case (receive d R now d' x t rest)
  have "d' = receiveEntry now (x, t) (d\<lparr>dq_waitingForAddCh := rest, dq_pc := LoopDraining\<rparr>)"
    using receive(2,3) by (auto simp: loopReceive_def split: if_splits)
  then show ?case
    using receiveEntry_spec(1,2) [of "d\<lparr>dq_waitingForAddCh := rest, dq_pc := LoopDraining\<rparr>" now x t] receive(4)
      earliest_insert [of "deadline (dq_waiting d)" R x t] by simp
qed (auto simp: loopTick_def loopStop_def loopDrained_def split: if_splits)

text \<open>C26. The delays are kept: when the loop comes round at time \<open>now\<close>, it adds exactly the items that have
  a received request due by then, so no item is added before one of its requests is due and none is
  forgotten, whatever happened before.  The timer it then sets ends no later than the earliest of the
  remaining requests.\<close>

theorem delays_kept:
  assumes "dq_run d R" and "\<not> wq_shuttingDown (dq_Interface d)"
  shows "wq_dirty (dq_Interface (loopTop now d)) =
      wq_dirty (dq_Interface d) \<union> {x. \<exists>t \<le> now. (x, t) \<in> R}
    \<and> (\<forall>x t. (x, t) \<in> R \<longrightarrow> (\<exists>s \<le> now. (x, s) \<in> R) \<or>
        (\<exists>w > 0. nextReadyAt now (dq_waiting (loopTop now d)) = Some w \<and> now + w \<le> t))"
proof -
  have inv: "wf_valid (dq_waiting d)" "earliest (deadline (dq_waiting d)) R" using dq_run_inv [OF assms(1)] by simp_all
  let ?h = "fst (addReady now (dq_waiting d) (dq_Interface d))"
  have top: "dq_waiting (loopTop now d) = ?h"
      "dq_Interface (loopTop now d) = snd (addReady now (dq_waiting d) (dq_Interface d))"
    using assms(2) by (simp_all add: loopTop_def case_prod_beta)
  note a = addReady_spec [OF inv(1), of now "dq_Interface d"]
  have "wq_dirty (dq_Interface (loopTop now d)) = wq_dirty (dq_Interface d) \<union> {x. \<exists>t \<le> now. (x, t) \<in> R}"
    using a assms(2) by (simp add: top due_earliest [OF inv(2)])
  moreover have "\<exists>w > 0. nextReadyAt now ?h = Some w \<and> now + w \<le> t"
    if r: "(x, t) \<in> R" and late: "\<not> (\<exists>s \<le> now. (x, s) \<in> R)" for x t
  proof -
    obtain s where s: "s \<le> t" "deadline (dq_waiting d) x = Some s" by (rule earliestE [OF inv(2) r])
    have "now < s" using earliestD [OF inv(2) s(2)] late by (meson not_le)
    then have d: "deadline ?h x = Some s" using a s(2) by (simp add: later_def)
    have v: "wf_valid ?h" using a by blast
    have ne: "wf_pq ?h \<noteq> []" using no_deadline [OF v, of x] d by auto
    obtain y where "deadline ?h y = Some (wf_readyAt (wf_Peek ?h))" "wf_readyAt (wf_Peek ?h) \<le> s"
      using popEntry_spec [OF v ne] d by metis
    moreover from this(1) have "now < wf_readyAt (wf_Peek ?h)"
      using a by (auto simp: later_def split: option.splits if_splits)
    ultimately show ?thesis using ne s(1) by (simp add: nextReadyAt_def wf_Len_def)
  qed
  ultimately show ?thesis unfolding top by blast
qed

definition asked :: "nat delayingType" where
  "asked = newDelayingQueue\<lparr>dq_waitingForAddCh := [(1, 5)]\<rparr>"

definition received :: "nat delayingType" where
  "received = receiveEntry 1 (1, 5) (asked\<lparr>dq_waitingForAddCh := [], dq_pc := LoopDraining\<rparr>)"

lemma asked_run: "dq_run asked {}"
  by (rule dq_run.addAfter [OF dq_run.new, of 0 1 5])
    (simp add: AddAfter_def asked_def newDelayingQueue_def newQueue_def)

lemma asked_top: "loopTop 0 asked = asked\<lparr>dq_pc := LoopSelect\<rparr>"
  by (simp add: loopTop_def asked_def newDelayingQueue_def newQueue_def addReady.simps newWaiting_def wf_Len_def)

lemma received_run: "dq_run received {(1, 5)}"
proof -
  have top: "dq_run (asked\<lparr>dq_pc := LoopSelect\<rparr>) {}"
    using dq_run.top [OF asked_run, of 0] by (simp add: asked_top) (simp add: asked_def newDelayingQueue_def newQueue_def)
  from dq_run.receive [OF top, of 1 received 1 5 "[]"] show ?thesis
    by (simp add: loopReceive_def received_def) (simp add: asked_def)
qed

theorem delays_kept_witness:
  "1 \<in> wq_dirty (dq_Interface (loopTop 7 received))"
  using delays_kept [OF received_run, of 7]
  by (simp add: received_def receiveEntry_def asked_def newDelayingQueue_def newQueue_def wf_alloc_def)

section \<open>Shutting down\<close>

text \<open>
  What can happen after a state of a delaying queue: \<open>n\<close> steps of the loop, \<open>m\<close> entries sent by calls of
  AddAfter that had passed their check of ShuttingDown before, and any number of complete calls of AddAfter and
  of operations on the underlying queue, in any order.
\<close>

inductive dq_trace :: "'a delayingType \<Rightarrow> nat \<Rightarrow> nat \<Rightarrow> 'a delayingType \<Rightarrow> bool" for d :: "'a delayingType" where
  start: "dq_trace d 0 0 d"
| underlying: "dq_trace d n m e \<Longrightarrow> dq_trace d n m (e\<lparr>dq_Interface := snd (wq_exec ops (dq_Interface e))\<rparr>)"
| addAfter: "dq_trace d n m e \<Longrightarrow> AddAfter now x duration e = Some e' \<Longrightarrow> dq_trace d n m e'"
| send: "dq_trace d n m e \<Longrightarrow> length (dq_waitingForAddCh e) < 1000 \<Longrightarrow>
    dq_trace d n (Suc m) (e\<lparr>dq_waitingForAddCh := dq_waitingForAddCh e @ [(x, t)]\<rparr>)"
| shutDown: "dq_trace d n m e \<Longrightarrow> dq_ShutDown e = Some e' \<Longrightarrow> dq_trace d n m e'"
| top: "dq_trace d n m e \<Longrightarrow> dq_pc e = LoopTop \<Longrightarrow> dq_trace d (Suc n) m (loopTop now e)"
| tick: "dq_trace d n m e \<Longrightarrow> loopTick e = Some e' \<Longrightarrow> dq_trace d (Suc n) m e'"
| stop: "dq_trace d n m e \<Longrightarrow> loopStop e = Some e' \<Longrightarrow> dq_trace d (Suc n) m e'"
| receive: "dq_trace d n m e \<Longrightarrow> loopReceive now e = Some e' \<Longrightarrow> dq_trace d (Suc n) m e'"
| drained: "dq_trace d n m e \<Longrightarrow> loopDrained e = Some e' \<Longrightarrow> dq_trace d (Suc n) m e'"

text \<open>A bound on the steps the loop of a queue that is shutting down has left.\<close>

definition steps_left :: "'a delayingType \<Rightarrow> nat" where
  "steps_left d =
     (case dq_pc d of
        LoopEnded \<Rightarrow> 0
      | LoopTop \<Rightarrow> 1
      | LoopDraining \<Rightarrow> length (dq_waitingForAddCh d) + 2
      | LoopSelect \<Rightarrow> length (dq_waitingForAddCh d) + 3)"

lemma steps_left_Interface [simp]: "steps_left (e\<lparr>dq_Interface := q\<rparr>) = steps_left e"
  by (cases "dq_pc e") (simp_all add: steps_left_def)

lemma exec_shuttingDown: "wq_shuttingDown q \<Longrightarrow> wq_shuttingDown (snd (wq_exec ops q))"
proof (induction ops q rule: wq_exec.induct)
  case (5 ops q)
  then show ?case by (auto simp: wq_Get_def split: list.split prod.split)
qed (simp_all add: wq_Add_def wq_Done_def wq_ShutDown_def Let_def)

lemma receiveEntry_fields [simp]:
  "wq_shuttingDown (dq_Interface (receiveEntry now e d)) = wq_shuttingDown (dq_Interface d)"
  "dq_stopped (receiveEntry now e d) = dq_stopped d" "dq_pc (receiveEntry now e d) = dq_pc d"
  "dq_waitingForAddCh (receiveEntry now e d) = dq_waitingForAddCh d"
  by (simp_all add: receiveEntry_def wq_Add_def Let_def split: prod.split)

lemma stopping_steps:
  assumes "dq_trace d n m e" and "wq_shuttingDown (dq_Interface d)" and "dq_stopped d"
  shows "wq_shuttingDown (dq_Interface e) \<and> dq_stopped e \<and> n + steps_left e \<le> steps_left d + m"
  using assms(1)
proof induction
  case start
  then show ?case using assms by simp
next
  case (underlying n m e ops)
  then show ?case using exec_shuttingDown [of "dq_Interface e" ops] by simp
next
  case (addAfter n m e now x duration e')
  then show ?case by (simp add: AddAfter_def)
next
  case (send n m e x t)
  then show ?case by (simp add: steps_left_def split: loop_pc.splits)
next
  case (receive n m e now e')
  then obtain w rest where "dq_waitingForAddCh e = w # rest"
    "e' = receiveEntry now w (e\<lparr>dq_waitingForAddCh := rest, dq_pc := LoopDraining\<rparr>)"
    "dq_pc e = LoopSelect \<or> dq_pc e = LoopDraining"
    by (auto simp: loopReceive_def split: if_splits list.splits)
  with receive.IH show ?case by (auto simp: steps_left_def)
qed (auto simp: dq_ShutDown_def loopTop_def loopTick_def loopStop_def loopDrained_def steps_left_def Let_def
    split: if_splits)

text \<open>C27. Shutting a delaying queue down ends its loop: whatever callers do afterwards, the loop makes at most
  three steps and one for each entry of its channel, those of the calls that were under way included; until
  it has returned one of its steps can be made, and the queue stays shut down.  A second ShutDown at any
  later time closes the closed stop channel and panics.\<close>

theorem ShutDown_ends_loop:
  assumes "dq_ShutDown d = Some d'" and "dq_trace d' n m e"
  shows "n \<le> length (dq_waitingForAddCh d) + m + 3 \<and> wq_shuttingDown (dq_Interface e)
    \<and> (case dq_pc e of
         LoopEnded \<Rightarrow> True
       | LoopTop \<Rightarrow> dq_pc (loopTop now e) = LoopEnded
       | LoopDraining \<Rightarrow> loopReceive now e \<noteq> None \<or> loopDrained e \<noteq> None
       | LoopSelect \<Rightarrow> loopStop e \<noteq> None)
    \<and> dq_ShutDown e = None"
proof -
  have d': "wq_shuttingDown (dq_Interface d')" "dq_stopped d'" "dq_waitingForAddCh d' = dq_waitingForAddCh d"
    using assms(1) by (auto simp: dq_ShutDown_def wq_ShutDown_def Let_def split: if_splits)
  note e = stopping_steps [OF assms(2) d'(1,2)]
  have "steps_left d' \<le> length (dq_waitingForAddCh d) + 3"
    using d'(3) by (simp add: steps_left_def split: loop_pc.split)
  then have "n \<le> length (dq_waitingForAddCh d) + m + 3" using e by linarith
  moreover have "loopReceive now e \<noteq> None \<or> loopDrained e \<noteq> None" if "dq_pc e = LoopDraining"
    using that by (cases "dq_waitingForAddCh e") (simp_all add: loopReceive_def loopDrained_def)
  ultimately show ?thesis
    using e by (auto simp: loopTop_def loopStop_def dq_ShutDown_def Let_def split: loop_pc.split)
qed

theorem ShutDown_ends_loop_witness:
  "let d = the (dq_ShutDown asked) in dq_pc (loopTop 0 d) = LoopEnded \<and> dq_ShutDown (loopTop 0 d) = None"
proof -
  let ?d = "the (dq_ShutDown asked)"
  have d: "dq_ShutDown asked = Some ?d" "dq_pc ?d = LoopTop"
    by (simp_all add: dq_ShutDown_def asked_def newDelayingQueue_def)
  have "dq_trace ?d (Suc 0) 0 (loopTop 0 ?d)" by (rule dq_trace.top [OF dq_trace.start d(2)])
  from ShutDown_ends_loop [OF d(1) this, of 0] ShutDown_ends_loop [OF d(1) dq_trace.start, of 0] d(2)
  show ?thesis by (simp add: Let_def)
qed

end
