(* ===== verification/Rate_Limiters.thy ===== *)
theory Rate_Limiters
  imports Delaying_Queue
begin

text \<open>
  The rate limiters of \<open>client-go/util/workqueue/default_rate_limiters.go\<close> and the rate limiting queue
  of \<open>rate_limitting_queue.go\<close>.  Durations are nanoseconds.  The token bucket of
  \<open>golang.org/x/time/rate\<close> is an argument: \<open>reserve\<close> takes its state to the delay of the next reservation
  and the new state.  Every method runs under the lock of its limiter.  The failure counters, of type int in
  the code, are unbounded: they grow by one with each failure.
\<close>

section \<open>Floating point numbers\<close>

text \<open>
  The values of type float64 that the backoff goes through: it is a rounded integer times a power of
  two, so a finite value is an integer.  The conversion of a value out of range to a 64-bit integer is
  not defined by the language; its result is the argument \<open>overflowed\<close>.
\<close>

datatype float64 = Finite int | PosInf | NegInf | NaN

fun excess :: "nat \<Rightarrow> nat" where
  "excess m = (if m < 2 ^ 53 then 0 else Suc (excess (m div 2)))"

declare excess.simps [simp del]

definition round53 :: "nat \<Rightarrow> nat" where
  "round53 m =
     (let k = excess m; q = m div 2 ^ k; r = m mod 2 ^ k
      in if 2 * r > 2 ^ k \<or> (2 * r = 2 ^ k \<and> odd q) then (q + 1) * 2 ^ k else q * 2 ^ k)"

definition float64_of_int :: "int \<Rightarrow> float64" where
  "float64_of_int i = Finite (if i < 0 then - int (round53 (nat (- i))) else int (round53 (nat i)))"

definition pow2 :: "nat \<Rightarrow> float64" where
  "pow2 e = (if e < 1024 then Finite (2 ^ e) else PosInf)"

text \<open>Multiplication with a power of two, or with infinity.\<close>

fun float64_times :: "float64 \<Rightarrow> float64 \<Rightarrow> float64" where
  "float64_times (Finite a) (Finite b) =
     (if a * b \<ge> 2 ^ 1024 then PosInf else if a * b \<le> - (2 ^ 1024) then NegInf else Finite (a * b))"
| "float64_times (Finite a) PosInf = (if a > 0 then PosInf else if a < 0 then NegInf else NaN)"
| "float64_times _ _ = NaN"

text \<open>The comparison with MaxInt64, which is the float64 value \<open>2 ^ 63\<close>.\<close>

fun exceedsMaxInt64 :: "float64 \<Rightarrow> bool" where
  "exceedsMaxInt64 (Finite a) = (a > 2 ^ 63)"
| "exceedsMaxInt64 PosInf = True"
| "exceedsMaxInt64 _ = False"

fun int64_of_float64 :: "int \<Rightarrow> float64 \<Rightarrow> int" where
  "int64_of_float64 overflowed (Finite a) = (if - (2 ^ 63) \<le> a \<and> a < 2 ^ 63 then a else overflowed)"
| "int64_of_float64 overflowed _ = overflowed"

section \<open>Limiters\<close>

record 'i ItemExponentialFailureRateLimiter =
  ie_failures :: "'i \<rightharpoonup> nat"
  baseDelay :: int
  maxDelay :: int

record 'i ItemFastSlowRateLimiter =
  fs_failures :: "'i \<rightharpoonup> nat"
  maxFastAttempts :: int
  fastDelay :: int
  slowDelay :: int

datatype ('i, 'b) RateLimiter =
    BucketRateLimiter 'b
  | ItemExponential "'i ItemExponentialFailureRateLimiter"
  | ItemFastSlow "'i ItemFastSlowRateLimiter"
  | MaxOfRateLimiter "('i, 'b) RateLimiter list"

definition failuresOf :: "('i \<rightharpoonup> nat) \<Rightarrow> 'i \<Rightarrow> nat" where
  "failuresOf m item = (case m item of Some n \<Rightarrow> n | None \<Rightarrow> 0)"

definition NewItemExponentialFailureRateLimiter :: "int \<Rightarrow> int \<Rightarrow> ('i, 'b) RateLimiter" where
  "NewItemExponentialFailureRateLimiter base mx =
     ItemExponential \<lparr>ie_failures = Map.empty, baseDelay = base, maxDelay = mx\<rparr>"

definition NewItemFastSlowRateLimiter :: "int \<Rightarrow> int \<Rightarrow> int \<Rightarrow> ('i, 'b) RateLimiter" where
  "NewItemFastSlowRateLimiter fast slow attempts =
     ItemFastSlow \<lparr>fs_failures = Map.empty, maxFastAttempts = attempts, fastDelay = fast, slowDelay = slow\<rparr>"

definition ie_When ::
  "int \<Rightarrow> 'i \<Rightarrow> 'i ItemExponentialFailureRateLimiter \<Rightarrow> int \<times> 'i ItemExponentialFailureRateLimiter" where
  "ie_When overflowed item r =
     (let exp = failuresOf (ie_failures r) item;
          r' = r\<lparr>ie_failures := (ie_failures r)(item \<mapsto> exp + 1)\<rparr>;
          backoff = float64_times (float64_of_int (baseDelay r')) (pow2 exp)
      in if exceedsMaxInt64 backoff then (maxDelay r', r')
         else
           (let calculated = int64_of_float64 overflowed backoff
            in if calculated > maxDelay r' then (maxDelay r', r') else (calculated, r')))"

definition fs_When :: "'i \<Rightarrow> 'i ItemFastSlowRateLimiter \<Rightarrow> int \<times> 'i ItemFastSlowRateLimiter" where
  "fs_When item r =
     (let n = failuresOf (fs_failures r) item + 1;
          r' = r\<lparr>fs_failures := (fs_failures r)(item \<mapsto> n)\<rparr>
      in if int n \<le> maxFastAttempts r' then (fastDelay r', r') else (slowDelay r', r'))"

fun When :: "('b \<Rightarrow> int \<times> 'b) \<Rightarrow> int \<Rightarrow> 'i \<Rightarrow> ('i, 'b) RateLimiter \<Rightarrow> int \<times> ('i, 'b) RateLimiter"
  and WhenLoop :: "('b \<Rightarrow> int \<times> 'b) \<Rightarrow> int \<Rightarrow> 'i \<Rightarrow> ('i, 'b) RateLimiter list \<Rightarrow> int
     \<Rightarrow> int \<times> ('i, 'b) RateLimiter list" where
  "When reserve overflowed item (BucketRateLimiter b) =
     (case reserve b of (delay, b') \<Rightarrow> (delay, BucketRateLimiter b'))"
| "When reserve overflowed item (ItemExponential r) =
     (case ie_When overflowed item r of (delay, r') \<Rightarrow> (delay, ItemExponential r'))"
| "When reserve overflowed item (ItemFastSlow r) =
     (case fs_When item r of (delay, r') \<Rightarrow> (delay, ItemFastSlow r'))"
| "When reserve overflowed item (MaxOfRateLimiter limiters) =
     (case WhenLoop reserve overflowed item limiters 0 of (ret, ls) \<Rightarrow> (ret, MaxOfRateLimiter ls))"
| "WhenLoop reserve overflowed item [] ret = (ret, [])"
| "WhenLoop reserve overflowed item (limiter # limiters) ret =
     (case When reserve overflowed item limiter of
        (cur, l) \<Rightarrow>
          (case WhenLoop reserve overflowed item limiters (if cur > ret then cur else ret) of
             (ret', ls) \<Rightarrow> (ret', l # ls)))"

fun NumRequeues :: "'i \<Rightarrow> ('i, 'b) RateLimiter \<Rightarrow> nat"
  and NumRequeuesLoop :: "'i \<Rightarrow> ('i, 'b) RateLimiter list \<Rightarrow> nat \<Rightarrow> nat" where
  "NumRequeues item (BucketRateLimiter b) = 0"
| "NumRequeues item (ItemExponential r) = failuresOf (ie_failures r) item"
| "NumRequeues item (ItemFastSlow r) = failuresOf (fs_failures r) item"
| "NumRequeues item (MaxOfRateLimiter limiters) = NumRequeuesLoop item limiters 0"
| "NumRequeuesLoop item [] ret = ret"
| "NumRequeuesLoop item (limiter # limiters) ret =
     NumRequeuesLoop item limiters (let cur = NumRequeues item limiter in if cur > ret then cur else ret)"

fun Forget :: "'i \<Rightarrow> ('i, 'b) RateLimiter \<Rightarrow> ('i, 'b) RateLimiter" where
  "Forget item (BucketRateLimiter b) = BucketRateLimiter b"
| "Forget item (ItemExponential r) = ItemExponential (r\<lparr>ie_failures := (ie_failures r)(item := None)\<rparr>)"
| "Forget item (ItemFastSlow r) = ItemFastSlow (r\<lparr>fs_failures := (fs_failures r)(item := None)\<rparr>)"
| "Forget item (MaxOfRateLimiter limiters) = MaxOfRateLimiter (map (Forget item) limiters)"

definition DefaultControllerRateLimiter :: "'b \<Rightarrow> ('i, 'b) RateLimiter" where
  "DefaultControllerRateLimiter bucket =
     MaxOfRateLimiter
       [NewItemExponentialFailureRateLimiter (5 * 1000000) (1000 * 1000000000), BucketRateLimiter bucket]"

definition DefaultItemBasedRateLimiter :: "('i, 'b) RateLimiter" where
  "DefaultItemBasedRateLimiter = NewItemExponentialFailureRateLimiter 1000000 (1000 * 1000000000)"

section \<open>The rate limiting queue\<close>

record ('i, 'b) rateLimitingType =
  rl_DelayingInterface :: "'i delayingType"
  rl_rateLimiter :: "('i, 'b) RateLimiter"

definition NewRateLimitingQueue :: "('i, 'b) RateLimiter \<Rightarrow> ('i, 'b) rateLimitingType" where
  "NewRateLimitingQueue l = \<lparr>rl_DelayingInterface = newDelayingQueue, rl_rateLimiter = l\<rparr>"

text \<open>\<open>None\<close>: the caller blocks in AddAfter, with the failure already counted.\<close>

definition AddRateLimited ::
  "('b \<Rightarrow> int \<times> 'b) \<Rightarrow> int \<Rightarrow> int \<Rightarrow> 'i \<Rightarrow> ('i, 'b) rateLimitingType \<Rightarrow> ('i, 'b) rateLimitingType option" where
  "AddRateLimited reserve overflowed now item q =
     (case When reserve overflowed item (rl_rateLimiter q) of
        (delay, l) \<Rightarrow>
          map_option (\<lambda>d. q\<lparr>rl_DelayingInterface := d, rl_rateLimiter := l\<rparr>)
            (AddAfter now item delay (rl_DelayingInterface q)))"

definition rl_Forget :: "'i \<Rightarrow> ('i, 'b) rateLimitingType \<Rightarrow> ('i, 'b) rateLimitingType" where
  "rl_Forget item q = q\<lparr>rl_rateLimiter := Forget item (rl_rateLimiter q)\<rparr>"

definition rl_NumRequeues :: "'i \<Rightarrow> ('i, 'b) rateLimitingType \<Rightarrow> nat" where
  "rl_NumRequeues item q = NumRequeues item (rl_rateLimiter q)"

section \<open>The exponential backoff\<close>

lemma round53_exact: "m < 2 ^ 53 \<Longrightarrow> round53 m = m"
  by (simp add: round53_def excess.simps [of m])

lemma float64_of_int_exact: "0 \<le> i \<Longrightarrow> i < 2 ^ 53 \<Longrightarrow> float64_of_int i = Finite i"
  by (simp add: float64_of_int_def round53_exact nat_less_iff)

text \<open>What the backoff is: the base delay doubled with every failure, up to the limit.\<close>

definition backoffDelay :: "int \<Rightarrow> int \<Rightarrow> nat \<Rightarrow> int" where
  "backoffDelay base mx n = min (base * 2 ^ n) mx"

lemma large_power:
  assumes "0 < base" and "1024 \<le> n"
  shows "(2::int) ^ 1024 \<le> base * 2 ^ n"
proof -
  have "(2::int) ^ 1024 \<le> 2 ^ n" using assms(2) by (intro power_increasing) simp_all
  also have "\<dots> \<le> base * 2 ^ n" using assms(1) by (simp add: mult_le_cancel_right1)
  finally show ?thesis .
qed

lemma ie_When_spec:
  assumes "0 < baseDelay r" and "baseDelay r < 2 ^ 53" and "maxDelay r < 2 ^ 63"
    and "baseDelay r * 2 ^ failuresOf (ie_failures r) item \<noteq> 2 ^ 63"
  shows "ie_When overflowed item r =
    (backoffDelay (baseDelay r) (maxDelay r) (failuresOf (ie_failures r) item),
     r\<lparr>ie_failures := (ie_failures r)(item \<mapsto> failuresOf (ie_failures r) item + 1)\<rparr>)"
proof -
  define n where "n = failuresOf (ie_failures r) item"
  define v where "v = baseDelay r * 2 ^ n"
  have v: "0 < v" "v \<noteq> 2 ^ 63" using assms(1,4) by (simp_all add: v_def n_def)
  have f: "float64_of_int (baseDelay r) = Finite (baseDelay r)"
    using assms(1,2) by (intro float64_of_int_exact) simp_all
  show ?thesis
  proof (cases "v > 2 ^ 63")
    case True
    have "exceedsMaxInt64 (float64_times (Finite (baseDelay r)) (pow2 n))"
      using True assms(1) by (auto simp: pow2_def v_def)
    moreover have "min v (maxDelay r) = maxDelay r" using True assms(3) by simp
    ultimately show ?thesis
      by (simp add: ie_When_def Let_def f backoffDelay_def flip: n_def v_def)
  next
    case False
    then have lt: "v < 2 ^ 63" using v(2) by simp
    have n: "n < 1024"
    proof (rule ccontr)
      assume "\<not> n < 1024"
      then have "(2::int) ^ 1024 \<le> v" unfolding v_def using assms(1) by (intro large_power) simp_all
      with lt show False by simp
    qed
    have "float64_times (Finite (baseDelay r)) (pow2 n) = Finite v"
      using lt v(1) n by (simp add: pow2_def flip: v_def)
    then show ?thesis
      using lt v(1) by (simp add: ie_When_def Let_def f backoffDelay_def min_def flip: n_def v_def)
  qed
qed

lemma five_not_dvd: "\<not> 5 dvd (2::int) ^ k"
proof (induction k)
  case (Suc k)
  have "5 dvd 2 * x \<longleftrightarrow> 5 dvd x" for x :: int by presburger
  with Suc show ?case by (simp only: power_Suc) simp
qed simp

lemma not_power_of_two: "5 dvd (base::int) \<Longrightarrow> base * 2 ^ n \<noteq> 2 ^ k"
proof
  assume base: "5 dvd base" and eq: "base * 2 ^ n = 2 ^ k"
  have "5 dvd base * 2 ^ n" using base by (rule dvd_mult2)
  then show False unfolding eq using five_not_dvd by blast
qed

text \<open>
  Runs of the limiter that controllers use: \<open>F\<close> counts the failures of an item since it was last
  forgotten, \<open>b\<close> is the state of the token bucket.
\<close>

inductive limiter_run ::
  "('b \<Rightarrow> int \<times> 'b) \<Rightarrow> int \<Rightarrow> ('i, 'b) RateLimiter \<Rightarrow> ('i \<Rightarrow> nat) \<Rightarrow> 'b \<Rightarrow> bool"
  for reserve :: "'b \<Rightarrow> int \<times> 'b" and overflowed :: int where
  default: "limiter_run reserve overflowed (DefaultControllerRateLimiter b) (\<lambda>x. 0) b"
| asked: "limiter_run reserve overflowed l F b \<Longrightarrow>
    limiter_run reserve overflowed (snd (When reserve overflowed x l)) (F(x := F x + 1)) (snd (reserve b))"
| forget: "limiter_run reserve overflowed l F b \<Longrightarrow>
    limiter_run reserve overflowed (Forget x l) (F(x := 0)) b"

definition defaultBackoff :: "nat \<Rightarrow> int" where
  "defaultBackoff n = backoffDelay 5000000 1000000000000 n"

text \<open>The form the limiter keeps.\<close>

definition default_form :: "('i, 'b) RateLimiter \<Rightarrow> ('i \<Rightarrow> nat) \<Rightarrow> 'b \<Rightarrow> bool" where
  "default_form l F b \<longleftrightarrow>
     (\<exists>r. l = MaxOfRateLimiter [ItemExponential r, BucketRateLimiter b] \<and> baseDelay r = 5000000
       \<and> maxDelay r = 1000000000000 \<and> (\<forall>x. failuresOf (ie_failures r) x = F x))"

lemma failuresOf_simps:
  "failuresOf (m(x \<mapsto> n)) y = (if y = x then n else failuresOf m y)"
  "failuresOf (m(x := None)) y = (if y = x then 0 else failuresOf m y)"
  by (simp_all add: failuresOf_def)

lemma defaultBackoff_pos: "0 < defaultBackoff n" "5000000 \<le> defaultBackoff n" "defaultBackoff n \<le> 1000000000000"
proof -
  have "(1::int) \<le> 2 ^ n" by simp
  then show "5000000 \<le> defaultBackoff n" "defaultBackoff n \<le> 1000000000000"
    by (simp_all add: defaultBackoff_def backoffDelay_def)
  then show "0 < defaultBackoff n" by simp
qed

lemma default_When:
  assumes "default_form l F b"
  shows "fst (When reserve overflowed x l) = max (defaultBackoff (F x)) (fst (reserve b))"
    and "default_form (snd (When reserve overflowed x l)) (F(x := F x + 1)) (snd (reserve b))"
    and "NumRequeues x l = F x"
proof -
  obtain r where r: "l = MaxOfRateLimiter [ItemExponential r, BucketRateLimiter b]" "baseDelay r = 5000000"
      "maxDelay r = 1000000000000" "\<And>x. failuresOf (ie_failures r) x = F x"
    using assms by (auto simp: default_form_def)
  have "baseDelay r * 2 ^ failuresOf (ie_failures r) x \<noteq> 2 ^ 63"
    unfolding r(2) by (rule not_power_of_two) simp
  then have w: "ie_When overflowed x r = (defaultBackoff (F x), r\<lparr>ie_failures := (ie_failures r)(x \<mapsto> F x + 1)\<rparr>)"
    using ie_When_spec [of r x overflowed] r by (simp add: defaultBackoff_def)
  show "fst (When reserve overflowed x l) = max (defaultBackoff (F x)) (fst (reserve b))"
    using defaultBackoff_pos(1) [of "F x"] by (auto simp: r(1) w case_prod_beta max_def)
  show "default_form (snd (When reserve overflowed x l)) (F(x := F x + 1)) (snd (reserve b))"
    using r(2-4) by (auto simp: default_form_def r(1) w case_prod_beta failuresOf_simps)
  show "NumRequeues x l = F x" by (simp add: r Let_def)
qed

lemma limiter_run_form: "limiter_run reserve overflowed l F b \<Longrightarrow> default_form l F b"
proof (induction rule: limiter_run.induct)
  case (default b)
  then show ?case
    by (simp add: default_form_def DefaultControllerRateLimiter_def NewItemExponentialFailureRateLimiter_def failuresOf_def)
next
  case (asked l F b x)
  then show ?case by (intro default_When(2))
next
  case (forget l F b x)
  then show ?case by (auto simp: default_form_def failuresOf_simps)
qed

text \<open>C28. The delay the controllers' limiter asks for is the larger of the token bucket's and of the
  exponential backoff: 5 milliseconds doubled with every failure since the item was last forgotten, and
  never more than 1000 seconds.  No sequence of failures makes the floating point computation overflow,
  whatever an overflowing conversion would yield, and the failures of one item leave the others alone.\<close>

theorem default_limiter_delay:
  assumes "limiter_run reserve overflowed l F b"
  shows "fst (When reserve overflowed x l) = max (min (5000000 * 2 ^ F x) 1000000000000) (fst (reserve b))
    \<and> NumRequeues x l = F x"
  using default_When(1,3) [OF limiter_run_form [OF assms]]
  by (simp add: defaultBackoff_def backoffDelay_def)

theorem default_limiter_delay_witness:
  "fst (When (\<lambda>b. (0, b)) 0 (7::nat) (snd (When (\<lambda>b. (0, b)) 0 7 (DefaultControllerRateLimiter ())))) = 10000000"
  using default_limiter_delay [OF limiter_run.asked [OF limiter_run.default], of "\<lambda>b. (0, b)" 0 "7::nat" "7" "()"] by simp




text \<open>C29. With the controllers' limiter, when the queue is not shutting down and the channel of the waiting loop has
  room, adding an item with the rate limiter sends it to the waiting loop with the time its backoff ends, and counts the
  failure until the item is forgotten.  Together with the delays the loop keeps, a failing item comes back after its
  backoff.\<close>

theorem AddRateLimited_backs_off:
  assumes "limiter_run reserve overflowed (rl_rateLimiter q) F b"
    and "\<not> wq_shuttingDown (dq_Interface (rl_DelayingInterface q))"
    and "length (dq_waitingForAddCh (rl_DelayingInterface q)) < 1000"
  shows "\<exists>q'. AddRateLimited reserve overflowed now item q = Some q' \<and>
    dq_waitingForAddCh (rl_DelayingInterface q') = dq_waitingForAddCh (rl_DelayingInterface q) @
      [(item, now + max (min (5000000 * 2 ^ F item) 1000000000000) (fst (reserve b)))] \<and>
    rl_NumRequeues item q' = F item + 1 \<and> rl_NumRequeues item (rl_Forget item q') = 0"
proof -
  note form = limiter_run_form [OF assms(1)]
  note w = default_When(1) [OF form, of reserve overflowed item]
  let ?l = "snd (When reserve overflowed item (rl_rateLimiter q))"
  have next_run: "limiter_run reserve overflowed ?l (F(item := F item + 1)) (snd (reserve b))"
    by (rule limiter_run.asked [OF assms(1)])
  have n: "NumRequeues item ?l = F item + 1"
    using default_When(3) [OF limiter_run_form [OF next_run], of item] by simp
  have z: "NumRequeues item (Forget item ?l) = 0"
    using default_When(3) [OF limiter_run_form [OF limiter_run.forget [OF next_run, of item]], of item] by simp
  define D where "D = max (defaultBackoff (F item)) (fst (reserve b))"
  have D: "\<not> D \<le> 0" using defaultBackoff_pos(1) [of "F item"] unfolding D_def by linarith
  have eq: "D = max (min (5000000 * 2 ^ F item) 1000000000000) (fst (reserve b))"
    by (simp add: D_def defaultBackoff_def backoffDelay_def)
  show ?thesis
    unfolding eq [symmetric]
    using w [folded D_def] D assms(2,3) n z
    by (simp add: AddRateLimited_def AddAfter_def case_prod_beta rl_NumRequeues_def rl_Forget_def)
qed

theorem AddRateLimited_backs_off_witness:
  "\<exists>q'. AddRateLimited (\<lambda>b. (0, b)) 0 100 (7::nat) (NewRateLimitingQueue (DefaultControllerRateLimiter ())) = Some q' \<and>
    dq_waitingForAddCh (rl_DelayingInterface q') = [(7, 5000100)]"
  using AddRateLimited_backs_off [of "\<lambda>b. (0, b)" 0 "NewRateLimitingQueue (DefaultControllerRateLimiter ())" "\<lambda>x. 0" "()" 100 "7::nat"]
    limiter_run.default [of "\<lambda>b. (0, b)" 0 "()"]
  by (auto simp: NewRateLimitingQueue_def newDelayingQueue_def newQueue_def)

end
