(* ===== verification/Bitmap_Allocator.thy ===== *)
theory Bitmap_Allocator
  imports K8s_Prelude "HOL-Library.Word"
begin

text \<open>
  The allocator of offsets in a range: AllocationBitmap of
  \<open>pkg/registry/core/service/allocator/bitmap.go\<close> and countBits of \<open>utils.go\<close>.  The big integer that
  holds the allocated bits is a natural number; every method runs under the lock.  The pseudo-random
  number of the random strategy is an argument \<open>rnd\<close> of AllocateNext, and \<open>rnd mod max\<close> is what Intn returns.
\<close>

section \<open>Big integers\<close>

fun bytesLE :: "nat \<Rightarrow> nat list" where
  "bytesLE n = (if n = 0 then [] else n mod 256 # bytesLE (n div 256))"

declare bytesLE.simps [simp del]

text \<open>The bytes of a big integer, most significant first, without leading zeros, and back.\<close>

definition big_Bytes :: "nat \<Rightarrow> nat list" where
  "big_Bytes n = rev (bytesLE n)"

definition big_SetBytes :: "nat list \<Rightarrow> nat" where
  "big_SetBytes bs = foldl (\<lambda>acc b. acc * 256 + b) 0 bs"

text \<open>The 64-bit words of a big integer, least significant first.\<close>

function big_Bits :: "nat \<Rightarrow> nat list" where
  "big_Bits n = (if n = 0 then [] else n mod 2 ^ 64 # big_Bits (n div 2 ^ 64))"
  by pat_completeness auto
termination by (relation "measure (\<lambda>n. n)") (simp_all add: div_less_dividend)

declare big_Bits.simps [simp del]

definition bitCounts :: "nat list" where
  "bitCounts =
    [
     0, 1, 1, 2, 1, 2, 2, 3, 1, 2, 2, 3, 2, 3, 3, 4, 1, 2, 2, 3, 2, 3, 3, 4, 2, 3, 3, 4, 3, 4, 4, 5,
     1, 2, 2, 3, 2, 3, 3, 4, 2, 3, 3, 4, 3, 4, 4, 5, 2, 3, 3, 4, 3, 4, 4, 5, 3, 4, 4, 5, 4, 5, 5, 6,
     1, 2, 2, 3, 2, 3, 3, 4, 2, 3, 3, 4, 3, 4, 4, 5, 2, 3, 3, 4, 3, 4, 4, 5, 3, 4, 4, 5, 4, 5, 5, 6,
     2, 3, 3, 4, 3, 4, 4, 5, 3, 4, 4, 5, 4, 5, 5, 6, 3, 4, 4, 5, 4, 5, 5, 6, 4, 5, 5, 6, 5, 6, 6, 7,
     1, 2, 2, 3, 2, 3, 3, 4, 2, 3, 3, 4, 3, 4, 4, 5, 2, 3, 3, 4, 3, 4, 4, 5, 3, 4, 4, 5, 4, 5, 5, 6,
     2, 3, 3, 4, 3, 4, 4, 5, 3, 4, 4, 5, 4, 5, 5, 6, 3, 4, 4, 5, 4, 5, 5, 6, 4, 5, 5, 6, 5, 6, 6, 7,
     2, 3, 3, 4, 3, 4, 4, 5, 3, 4, 4, 5, 4, 5, 5, 6, 3, 4, 4, 5, 4, 5, 5, 6, 4, 5, 5, 6, 5, 6, 6, 7,
     3, 4, 4, 5, 4, 5, 5, 6, 4, 5, 5, 6, 5, 6, 6, 7, 4, 5, 5, 6, 5, 6, 6, 7, 5, 6, 6, 7, 6, 7, 7, 8]"

definition countBits :: "nat \<Rightarrow> nat" where
  "countBits n = sum_list (map (\<lambda>b. bitCounts ! b) (big_Bytes n))"

section \<open>The allocator\<close>

datatype bitAllocator = randomScanStrategy | contiguousScanStrategy

record AllocationBitmap =
  ab_strategy :: bitAllocator
  ab_max :: int
  ab_rangeSpec :: string
  ab_count :: int
  ab_allocated :: nat

definition NewAllocationMap :: "int \<Rightarrow> string \<Rightarrow> AllocationBitmap" where
  "NewAllocationMap mx spec =
     \<lparr>ab_strategy = randomScanStrategy, ab_max = mx, ab_rangeSpec = spec, ab_count = 0, ab_allocated = 0\<rparr>"

definition NewContiguousAllocationMap :: "int \<Rightarrow> string \<Rightarrow> AllocationBitmap" where
  "NewContiguousAllocationMap mx spec =
     \<lparr>ab_strategy = contiguousScanStrategy, ab_max = mx, ab_rangeSpec = spec, ab_count = 0, ab_allocated = 0\<rparr>"

text \<open>The loop over the candidates \<open>at i\<close>.\<close>

function scan :: "nat \<Rightarrow> (nat \<Rightarrow> nat) \<Rightarrow> nat \<Rightarrow> nat \<Rightarrow> nat option" where
  "scan allocated at i n =
     (if i < n then (if \<not> bit allocated (at i) then Some (at i) else scan allocated at (i + 1) n) else None)"
  by pat_completeness auto
termination by (relation "measure (\<lambda>(allocated, at, i, n). n - i)") auto

declare scan.simps [simp del]

definition AllocateBit :: "bitAllocator \<Rightarrow> nat \<Rightarrow> nat \<Rightarrow> int \<Rightarrow> int \<Rightarrow> nat option" where
  "AllocateBit strategy rnd allocated mx count =
     (if count \<ge> mx then None
      else
        (case strategy of
           randomScanStrategy \<Rightarrow>
             (let offset = rnd mod nat mx in scan allocated (\<lambda>i. (offset + i) mod nat mx) 0 (nat mx))
         | contiguousScanStrategy \<Rightarrow> scan allocated (\<lambda>i. i) 0 (nat mx)))"

definition ab_Allocate :: "nat \<Rightarrow> AllocationBitmap \<Rightarrow> bool \<times> AllocationBitmap" where
  "ab_Allocate offset r =
     (if bit (ab_allocated r) offset then (False, r)
      else (True, r\<lparr>ab_allocated := set_bit offset (ab_allocated r), ab_count := ab_count r + 1\<rparr>))"

definition ab_AllocateNext :: "nat \<Rightarrow> AllocationBitmap \<Rightarrow> nat option \<times> AllocationBitmap" where
  "ab_AllocateNext rnd r =
     (case AllocateBit (ab_strategy r) rnd (ab_allocated r) (ab_max r) (ab_count r) of
        None \<Rightarrow> (None, r)
      | Some nxt \<Rightarrow>
          (Some nxt, r\<lparr>ab_count := ab_count r + 1, ab_allocated := set_bit nxt (ab_allocated r)\<rparr>))"

definition ab_Release :: "nat \<Rightarrow> AllocationBitmap \<Rightarrow> AllocationBitmap" where
  "ab_Release offset r =
     (if \<not> bit (ab_allocated r) offset then r
      else r\<lparr>ab_allocated := unset_bit offset (ab_allocated r), ab_count := ab_count r - 1\<rparr>)"

text \<open>ForEach, as the list of the offsets it calls its function with.\<close>

fun wordBits :: "nat \<Rightarrow> nat \<Rightarrow> nat \<Rightarrow> nat list" where
  "wordBits wordIdx b word =
     (if word > 0 then (if odd word then [wordIdx * 64 + b] else []) @ wordBits wordIdx (b + 1) (word div 2)
      else [])"

declare wordBits.simps [simp del]

fun forEachWord :: "nat \<Rightarrow> nat list \<Rightarrow> nat list" where
  "forEachWord wordIdx [] = []"
| "forEachWord wordIdx (word # words) = wordBits wordIdx 0 word @ forEachWord (wordIdx + 1) words"

definition ab_ForEach :: "AllocationBitmap \<Rightarrow> nat list" where
  "ab_ForEach r = forEachWord 0 (big_Bits (ab_allocated r))"

definition ab_Has :: "nat \<Rightarrow> AllocationBitmap \<Rightarrow> bool" where
  "ab_Has offset r \<longleftrightarrow> bit (ab_allocated r) offset"

definition ab_Free :: "AllocationBitmap \<Rightarrow> int" where
  "ab_Free r = ab_max r - ab_count r"

definition ab_Snapshot :: "AllocationBitmap \<Rightarrow> string \<times> nat list" where
  "ab_Snapshot r = (ab_rangeSpec r, big_Bytes (ab_allocated r))"

text \<open>\<open>None\<close>: the range does not match.\<close>

definition ab_Restore :: "string \<Rightarrow> nat list \<Rightarrow> AllocationBitmap \<Rightarrow> AllocationBitmap option" where
  "ab_Restore spec data r =
     (if ab_rangeSpec r \<noteq> spec then None
      else
        (let allocated = big_SetBytes data
         in Some (r\<lparr>ab_allocated := allocated, ab_count := int (countBits allocated)\<rparr>)))"

section \<open>The bits of a number\<close>

definition bitset :: "nat \<Rightarrow> nat set" where
  "bitset n = {i. bit n i}"

lemma bit_bitset: "bit n i \<longleftrightarrow> i \<in> bitset n"
  by (simp add: bitset_def)

lemma bitset_simps [simp]:
  "bitset 0 = {}" "bitset (set_bit i n) = insert i (bitset n)" "bitset (unset_bit i n) = bitset n - {i}"
  by (auto simp: bitset_def bit_set_bit_iff bit_unset_bit_iff)

lemma bit_div: "bit ((n::nat) div 2 ^ k) j \<longleftrightarrow> bit n (k + j)"
  by (simp add: bit_drop_bit_eq flip: drop_bit_eq_div)

lemma bit_mod: "bit ((n::nat) mod 2 ^ k) j \<longleftrightarrow> j < k \<and> bit n j"
  by (simp add: bit_take_bit_iff flip: take_bit_eq_mod)

lemma bitset_split: "bitset n = bitset (n mod 2 ^ k) \<union> (\<lambda>i. i + k) ` bitset (n div 2 ^ k)"
proof (rule set_eqI)
  fix i
  show "i \<in> bitset n \<longleftrightarrow> i \<in> bitset (n mod 2 ^ k) \<union> (\<lambda>i. i + k) ` bitset (n div 2 ^ k)"
  proof (cases "i < k")
    case True
    then show ?thesis by (auto simp: bitset_def bit_mod)
  next
    case False
    then have "i \<in> (\<lambda>i. i + k) ` bitset (n div 2 ^ k) \<longleftrightarrow> i - k \<in> bitset (n div 2 ^ k)"
      by (auto intro: image_eqI [of _ _ "i - k"])
    with False show ?thesis by (simp add: bitset_def bit_mod bit_div)
  qed
qed

lemma bitset_mod: "bitset (n mod 2 ^ k) \<subseteq> {..<k}"
  by (auto simp: bitset_def bit_mod)

lemma finite_bitset [simp]: "finite (bitset n)"
proof -
  have "i < n" if "bit n i" for i
  proof (rule ccontr)
    assume "\<not> i < n"
    then have "n < 2 ^ i" using less_exp [of i] by linarith
    then show False using that by (simp add: bit_iff_odd)
  qed
  then show ?thesis using finite_subset [of "bitset n" "{..<n}"] by (auto simp: bitset_def)
qed

lemma card_bitset_split: "card (bitset n) = card (bitset (n mod 2 ^ k)) + card (bitset (n div 2 ^ k))"
proof -
  have "card (bitset n) = card (bitset (n mod 2 ^ k)) + card ((\<lambda>i. i + k) ` bitset (n div 2 ^ k))"
    using bitset_mod [of n k] by (subst bitset_split [of n k]) (auto intro!: card_Un_disjoint)
  also have "card ((\<lambda>i. i + k) ` bitset (n div 2 ^ k)) = card (bitset (n div 2 ^ k))"
    by (rule card_image) (simp add: inj_on_def)
  finally show ?thesis .
qed

text \<open>The table of bit counts.\<close>

fun popcount :: "nat \<Rightarrow> nat" where
  "popcount n = (if n = 0 then 0 else n mod 2 + popcount (n div 2))"

declare popcount.simps [simp del]

lemma popcount_bitset: "popcount n = card (bitset n)"
proof (induction n rule: popcount.induct)
  case (1 n)
  show ?case
  proof (cases "n = 0")
    case False
    have "card (bitset (n mod 2)) = n mod 2"
      by (cases "even n") (auto simp: bitset_def bit_Suc_0_iff odd_iff_mod_2_eq_one)
    with 1 False card_bitset_split [of n 1] show ?thesis by (simp add: popcount.simps [of n])
  qed (simp add: popcount.simps)
qed

lemma of_zero [simp]: "bytesLE 0 = []" "big_Bits 0 = []" "wordBits w b 0 = []"
  by (simp_all add: bytesLE.simps big_Bits.simps wordBits.simps)

lemma popcount_numeral [simp]:
  "popcount 0 = 0" "popcount (Suc 0) = 1" "popcount (numeral (Num.Bit0 n)) = popcount (numeral n)"
  "popcount (numeral (Num.Bit1 n)) = Suc (popcount (numeral n))" "popcount (numeral Num.One) = 1"
  by (simp_all add: popcount.simps [of 0] popcount.simps [of "Suc 0"] popcount.simps [of "numeral (Num.Bit0 n)"]
      popcount.simps [of "numeral (Num.Bit1 n)"])

fun popcounts_from :: "int \<Rightarrow> nat list \<Rightarrow> bool" where
  "popcounts_from i [] = True"
| "popcounts_from i (c # cs) = (c = popcount (nat i) \<and> popcounts_from (i + 1) cs)"

lemma popcounts_nth: "popcounts_from (int i) cs \<Longrightarrow> j < length cs \<Longrightarrow> cs ! j = popcount (i + j)"
proof (induction cs arbitrary: i j)
  case (Cons c cs)
  then have next_count: "popcounts_from (int (Suc i)) cs" by (simp add: add.commute)
  show ?case using Cons.IH [OF next_count] Cons.prems by (cases j) auto
qed simp

lemma bitCounts_popcounts: "popcounts_from 0 bitCounts" "length bitCounts = 256"
  by (simp_all add: bitCounts_def)

lemma bitCounts_nth: "b < 256 \<Longrightarrow> bitCounts ! b = card (bitset b)"
  using popcounts_nth [of 0 bitCounts b] by (simp add: bitCounts_popcounts popcount_bitset)

text \<open>Bytes and numbers.\<close>

lemma bytesLE_bytes: "b \<in> set (bytesLE n) \<Longrightarrow> b < 256"
proof (induction n rule: bytesLE.induct)
  case (1 n)
  then show ?case by (cases "n = 0") (auto simp: bytesLE.simps [of n])
qed

lemma bytesLE_value: "foldr (\<lambda>b acc. acc * 256 + b) (bytesLE n) 0 = n"
proof (induction n rule: bytesLE.induct)
  case (1 n)
  then show ?case by (cases "n = 0") (simp_all add: bytesLE.simps [of n])
qed

lemma SetBytes_Bytes [simp]: "big_SetBytes (big_Bytes n) = n"
  using bytesLE_value [of n] by (simp add: big_SetBytes_def big_Bytes_def foldl_conv_foldr)

lemma countBits_card: "countBits n = card (bitset n)"
proof -
  have "sum_list (map (\<lambda>b. bitCounts ! b) (bytesLE n)) = card (bitset n)"
  proof (induction n rule: bytesLE.induct)
    case (1 n)
    then show ?case
      using card_bitset_split [of n 8] by (cases "n = 0") (simp_all add: bytesLE.simps [of n] bitCounts_nth)
  qed
  then show ?thesis by (simp add: countBits_def big_Bytes_def rev_map [symmetric])
qed

text \<open>The offsets of ForEach, in ascending order.\<close>

lemma wordBits_set: "set (wordBits w b word) = (\<lambda>i. w * 64 + b + i) ` bitset word"
proof (induction w b word rule: wordBits.induct)
  case (1 w b word)
  show ?case
  proof (cases "word = 0")
    case False
    have "bitset word = bitset (word mod 2) \<union> Suc ` bitset (word div 2)" using bitset_split [of word 1] by simp
    moreover have "bitset (word mod 2) = (if odd word then {0} else {})"
      by (auto simp: bitset_def bit_Suc_0_iff odd_iff_mod_2_eq_one even_iff_mod_2_eq_zero)
    ultimately show ?thesis
      using 1 False by (auto simp: wordBits.simps [of w b word] image_image)
  qed simp
qed

lemma wordBits_sorted: "sorted_wrt (<) (wordBits w b word)"
proof (induction w b word rule: wordBits.induct)
  case (1 w b word)
  then show ?case
    by (cases "word = 0") (auto simp: wordBits.simps [of w b word] wordBits_set sorted_wrt_append)
qed

lemma forEachWord_spec:
  "set (forEachWord w (big_Bits n)) = (\<lambda>i. w * 64 + i) ` bitset n \<and> sorted_wrt (<) (forEachWord w (big_Bits n))"
proof (induction n arbitrary: w rule: big_Bits.induct)
  case (1 n)
  show ?case
  proof (cases "n = 0")
    case False
    define lo hi where "lo = n mod 2 ^ 64" and "hi = n div 2 ^ 64"
    have ih: "set (forEachWord (w + 1) (big_Bits hi)) = (\<lambda>i. (w + 1) * 64 + i) ` bitset hi"
        "sorted_wrt (<) (forEachWord (w + 1) (big_Bits hi))"
      using 1 [OF False, of "w + 1"] unfolding hi_def [symmetric] by blast+
    have unf: "forEachWord w (big_Bits n) = wordBits w 0 lo @ forEachWord (w + 1) (big_Bits hi)"
      using False by (subst big_Bits.simps) (simp add: lo_def hi_def)
    have "(\<lambda>i. w * 64 + i) ` bitset n = (\<lambda>i. w * 64 + i) ` (bitset lo \<union> (\<lambda>i. i + 64) ` bitset hi)"
      using bitset_split [of n 64] unfolding lo_def [symmetric] hi_def [symmetric] by simp
    also have "\<dots> = (\<lambda>i. w * 64 + i) ` bitset lo \<union> (\<lambda>i. (w + 1) * 64 + i) ` bitset hi"
      by (simp add: image_Un image_image algebra_simps)
    finally have split: "(\<lambda>i. w * 64 + i) ` bitset n = \<dots>" .
    have lo: "i < 64" if "i \<in> bitset lo" for i using that bitset_mod [of n 64] unfolding lo_def [symmetric] by blast
    have "x < y" if "x \<in> set (wordBits w 0 lo)" "y \<in> set (forEachWord (w + 1) (big_Bits hi))" for x y
      using that lo unfolding wordBits_set ih by fastforce
    then have "sorted_wrt (<) (forEachWord w (big_Bits n))"
      unfolding unf sorted_wrt_append using wordBits_sorted ih(2) by blast
    moreover have "set (forEachWord w (big_Bits n)) = (\<lambda>i. w * 64 + i) ` bitset n"
      unfolding split unf set_append ih(1) wordBits_set by simp
    ultimately show ?thesis by simp
  qed simp
qed

section \<open>The contract of an allocator\<close>

text \<open>What the allocators of addresses and ports rely on.\<close>

locale offset_allocator =
  fixes alloc_inv :: "'a \<Rightarrow> bool" and used :: "'a \<Rightarrow> nat set" and capacity :: "'a \<Rightarrow> nat"
    and allocate :: "nat \<Rightarrow> 'a \<Rightarrow> bool \<times> 'a" and allocate_next :: "nat \<Rightarrow> 'a \<Rightarrow> nat option \<times> 'a"
    and release :: "nat \<Rightarrow> 'a \<Rightarrow> 'a" and has_offset :: "nat \<Rightarrow> 'a \<Rightarrow> bool"
  assumes used_bound: "alloc_inv a \<Longrightarrow> used a \<subseteq> {..<capacity a}"
    and allocate_law: "alloc_inv a \<Longrightarrow> x < capacity a \<Longrightarrow>
      fst (allocate x a) = (x \<notin> used a) \<and> alloc_inv (snd (allocate x a)) \<and>
      used (snd (allocate x a)) = insert x (used a) \<and> capacity (snd (allocate x a)) = capacity a"
    and next_law: "alloc_inv a \<Longrightarrow> used a \<noteq> {..<capacity a} \<Longrightarrow>
      \<exists>x a'. allocate_next r a = (Some x, a') \<and> x < capacity a \<and> x \<notin> used a \<and> alloc_inv a' \<and>
        used a' = insert x (used a) \<and> capacity a' = capacity a"
    and full_law: "alloc_inv a \<Longrightarrow> used a = {..<capacity a} \<Longrightarrow> allocate_next r a = (None, a)"
    and release_law: "alloc_inv a \<Longrightarrow>
      alloc_inv (release x a) \<and> used (release x a) = used a - {x} \<and> capacity (release x a) = capacity a"
    and has_law: "alloc_inv a \<Longrightarrow> has_offset x a \<longleftrightarrow> x \<in> used a"
begin

text \<open>Releasing what was allocated gives the allocator's set back.\<close>

lemma release_all:
  "alloc_inv a \<Longrightarrow> alloc_inv (fold release xs a) \<and> used (fold release xs a) = used a - set xs
    \<and> capacity (fold release xs a) = capacity a"
proof (induction xs arbitrary: a)
  case (Cons x xs)
  note r = release_law [OF Cons.prems, of x]
  show ?case using Cons.IH [of "release x a"] r by auto
qed simp

lemma used_finite: "alloc_inv a \<Longrightarrow> finite (used a)"
  by (rule finite_subset [OF used_bound]) simp_all

lemma full_iff:
  assumes "alloc_inv a"
  shows "used a = {..<capacity a} \<longleftrightarrow> card (used a) = capacity a"
proof
  assume "card (used a) = capacity a"
  then show "used a = {..<capacity a}" using card_subset_eq [OF _ used_bound [OF assms]] by simp
qed simp

end

definition ab_inv :: "AllocationBitmap \<Rightarrow> bool" where
  "ab_inv r \<longleftrightarrow> 0 \<le> ab_max r \<and> bitset (ab_allocated r) \<subseteq> {..<nat (ab_max r)} \<and>
     ab_count r = int (card (bitset (ab_allocated r)))"

definition ab_used :: "AllocationBitmap \<Rightarrow> nat set" where
  "ab_used r = bitset (ab_allocated r)"

definition ab_capacity :: "AllocationBitmap \<Rightarrow> nat" where
  "ab_capacity r = nat (ab_max r)"

lemma scan_Some: "scan allocated at i n = Some x \<Longrightarrow> \<exists>j \<ge> i. j < n \<and> x = at j \<and> \<not> bit allocated x"
proof (induction allocated at i n rule: scan.induct)
  case (1 allocated at i n)
  note unf = 1(2) [unfolded scan.simps [of allocated at i n]]
  show ?case
  proof (cases "i < n \<and> bit allocated (at i)")
    case True
    then have "scan allocated at (i + 1) n = Some x" using unf by simp
    from 1(1) [OF _ _ this] True obtain j where "i + 1 \<le> j \<and> j < n \<and> x = at j \<and> \<not> bit allocated x" by blast
    then show ?thesis by (intro exI [of _ j]) auto
  next
    case False
    then have "i < n" "x = at i" "\<not> bit allocated x" using unf by (auto split: if_splits)
    then show ?thesis by blast
  qed
qed

lemma scan_None: "scan allocated at i n = None \<Longrightarrow> i \<le> j \<Longrightarrow> j < n \<Longrightarrow> bit allocated (at j)"
proof (induction allocated at i n rule: scan.induct)
  case (1 allocated at i n)
  note unf = 1(2) [unfolded scan.simps [of allocated at i n]]
  have i: "i < n" using 1(3,4) by simp
  then have at_i: "bit allocated (at i)" "scan allocated at (i + 1) n = None" using unf by (simp_all split: if_splits)
  show ?case
  proof (cases "j = i")
    case True
    then show ?thesis using at_i by simp
  next
    case False
    then have "i + 1 \<le> j" using 1(3) by simp
    with 1(1) [OF i _ at_i(2)] at_i(1) 1(4) show ?thesis by blast
  qed
qed

lemma rotation: "off < m \<Longrightarrow> x < (m::nat) \<Longrightarrow> \<exists>i < m. (off + i) mod m = x"
  by (rule exI [of _ "if off \<le> x then x - off else x + m - off"]) auto

lemma AllocateBit_Some:
  assumes "AllocateBit st rnd allocated mx count = Some x"
  shows "x < nat mx \<and> x \<notin> bitset allocated"
proof -
  have "0 < mx \<or> nat mx = 0" by auto
  with assms show ?thesis
    by (cases st) (auto simp: AllocateBit_def Let_def bitset_def dest!: scan_Some split: if_splits)
qed

lemma AllocateBit_None:
  assumes "AllocateBit st rnd allocated mx count = None" and "count < mx" and "0 \<le> count"
  shows "{..<nat mx} \<subseteq> bitset allocated"
proof
  fix x
  assume "x \<in> {..<nat mx}"
  then have x: "x < nat mx" by simp
  show "x \<in> bitset allocated"
  proof (cases st)
    case randomScanStrategy
    have "rnd mod nat mx < nat mx" using assms(2,3) by simp
    from rotation [OF this x] obtain i where "i < nat mx" "(rnd mod nat mx + i) mod nat mx = x" by blast
    then show ?thesis
      using scan_None [of allocated "\<lambda>i. (rnd mod nat mx + i) mod nat mx" 0 "nat mx" i] assms randomScanStrategy
      by (simp add: AllocateBit_def bitset_def)
  next
    case contiguousScanStrategy
    then show ?thesis
      using scan_None [of allocated "\<lambda>i. i" 0 "nat mx" x] assms x by (simp add: AllocateBit_def bitset_def)
  qed
qed

lemma ab_next:
  assumes "ab_inv a"
  shows "ab_used a \<noteq> {..<ab_capacity a} \<Longrightarrow>
      \<exists>x a'. ab_AllocateNext r a = (Some x, a') \<and> x < ab_capacity a \<and> x \<notin> ab_used a \<and> ab_inv a' \<and>
        ab_used a' = insert x (ab_used a) \<and> ab_capacity a' = ab_capacity a"
    and "ab_used a = {..<ab_capacity a} \<Longrightarrow> ab_AllocateNext r a = (None, a)"
proof -
  let ?u = "bitset (ab_allocated a)"
  have inv: "0 \<le> ab_max a" "?u \<subseteq> {..<nat (ab_max a)}" "ab_count a = int (card ?u)"
    using assms by (simp_all add: ab_inv_def)
  have count: "ab_count a < ab_max a \<longleftrightarrow> ?u \<noteq> {..<nat (ab_max a)}"
  proof (cases "?u = {..<nat (ab_max a)}")
    case True
    then show ?thesis using inv(1,3) by simp
  next
    case False
    then have "card ?u < card {..<nat (ab_max a)}" using inv(2) by (intro psubset_card_mono) auto
    then have "int (card ?u) < ab_max a" using inv(1) by simp
    with False inv(3) show ?thesis by simp
  qed
  show "ab_AllocateNext r a = (None, a)" if "ab_used a = {..<ab_capacity a}"
    using that count by (simp add: ab_AllocateNext_def AllocateBit_def ab_used_def ab_capacity_def)
  show "\<exists>x a'. ab_AllocateNext r a = (Some x, a') \<and> x < ab_capacity a \<and> x \<notin> ab_used a \<and> ab_inv a' \<and>
        ab_used a' = insert x (ab_used a) \<and> ab_capacity a' = ab_capacity a" if ne: "ab_used a \<noteq> {..<ab_capacity a}"
  proof (cases "AllocateBit (ab_strategy a) r (ab_allocated a) (ab_max a) (ab_count a)")
    case None
    have "ab_count a < ab_max a" using ne count by (simp add: ab_used_def ab_capacity_def)
    then have "{..<nat (ab_max a)} \<subseteq> ?u" using AllocateBit_None [OF None] inv(3) by simp
    with inv(2) have "?u = {..<nat (ab_max a)}" by (rule subset_antisym)
    with ne show ?thesis by (simp add: ab_used_def ab_capacity_def)
  next
    case (Some x)
    let ?a = "a\<lparr>ab_count := ab_count a + 1, ab_allocated := set_bit x (ab_allocated a)\<rparr>"
    have x: "x < nat (ab_max a)" "x \<notin> ?u" using AllocateBit_Some [OF Some] by simp_all
    have "ab_AllocateNext r a = (Some x, ?a)" using Some by (simp add: ab_AllocateNext_def)
    moreover have "ab_inv ?a" using x inv by (simp add: ab_inv_def)
    ultimately show ?thesis using x by (simp add: ab_used_def ab_capacity_def)
  qed
qed

lemma int_card_minus1: "finite S \<Longrightarrow> x \<in> S \<Longrightarrow> int (card (S - {x})) = int (card S) - 1"
  using card_Suc_Diff1 [of S x] by (metis add_diff_cancel_left' of_nat_Suc)

interpretation bitmap: offset_allocator ab_inv ab_used ab_capacity ab_Allocate ab_AllocateNext ab_Release ab_Has
proof
  fix a x r
  assume inv: "ab_inv a"
  then show "ab_used a \<subseteq> {..<ab_capacity a}" by (simp add: ab_inv_def ab_used_def ab_capacity_def)
  show "fst (ab_Allocate x a) = (x \<notin> ab_used a) \<and> ab_inv (snd (ab_Allocate x a)) \<and>
      ab_used (snd (ab_Allocate x a)) = insert x (ab_used a) \<and> ab_capacity (snd (ab_Allocate x a)) = ab_capacity a"
    if "x < ab_capacity a"
    using inv that by (auto simp: ab_Allocate_def ab_inv_def ab_used_def ab_capacity_def bit_bitset)
  show "ab_inv (ab_Release x a) \<and> ab_used (ab_Release x a) = ab_used a - {x} \<and> ab_capacity (ab_Release x a) = ab_capacity a"
    using inv by (auto simp: ab_Release_def ab_inv_def ab_used_def ab_capacity_def bit_bitset int_card_minus1 simp del: card_Diff_insert)
  show "ab_Has x a \<longleftrightarrow> x \<in> ab_used a" by (simp add: ab_Has_def ab_used_def bitset_def)
qed (use ab_next in auto)

section \<open>Runs of the allocator\<close>

text \<open>
  \<open>ab_run a S\<close>: a sequence of operations leads to \<open>a\<close>, where \<open>S\<close> are the offsets that were allocated and not
  released since.  The callers check that an offset they ask for is in the range; a restored
  snapshot is one that an allocator of the same size took.
\<close>

inductive ab_run :: "AllocationBitmap \<Rightarrow> nat set \<Rightarrow> bool" where
  random: "0 \<le> mx \<Longrightarrow> ab_run (NewAllocationMap mx spec) {}"
| contiguous: "0 \<le> mx \<Longrightarrow> ab_run (NewContiguousAllocationMap mx spec) {}"
| allocate: "ab_run a S \<Longrightarrow> int x < ab_max a \<Longrightarrow> ab_run (snd (ab_Allocate x a)) (insert x S)"
| allocateNext: "ab_run a S \<Longrightarrow> ab_AllocateNext rnd a = (Some x, a') \<Longrightarrow> ab_run a' (insert x S)"
| release: "ab_run a S \<Longrightarrow> ab_run (ab_Release x a) (S - {x})"
| restore: "ab_run a S \<Longrightarrow> ab_run b T \<Longrightarrow> ab_max a = ab_max b \<Longrightarrow>
    ab_Restore spec (snd (ab_Snapshot b)) a = Some a' \<Longrightarrow> ab_run a' T"

lemma ab_max_kept:
  "ab_max (snd (ab_Allocate x a)) = ab_max a" "ab_max (snd (ab_AllocateNext rnd a)) = ab_max a"
  "ab_max (ab_Release x a) = ab_max a"
  by (simp_all add: ab_Allocate_def ab_AllocateNext_def ab_Release_def split: option.split)

lemma ab_inv_new: "0 \<le> mx \<Longrightarrow> ab_inv (NewAllocationMap mx spec) \<and> ab_used (NewAllocationMap mx spec) = {}"
  "0 \<le> mx \<Longrightarrow> ab_inv (NewContiguousAllocationMap mx spec) \<and> ab_used (NewContiguousAllocationMap mx spec) = {}"
  by (simp_all add: ab_inv_def ab_used_def NewAllocationMap_def NewContiguousAllocationMap_def)

lemma Restore_Snapshot:
  assumes "ab_inv b" and "ab_max a = ab_max b" and "ab_Restore spec (snd (ab_Snapshot b)) a = Some a'"
  shows "ab_inv a' \<and> ab_used a' = ab_used b"
  using assms by (auto simp: ab_Restore_def ab_Snapshot_def Let_def ab_inv_def ab_used_def countBits_card split: if_splits)

lemma ab_run_inv: "ab_run a S \<Longrightarrow> ab_inv a \<and> ab_used a = S"
proof (induction rule: ab_run.induct)
  case (allocate a S x)
  then have "x < ab_capacity a" by (simp add: ab_capacity_def)
  then show ?case using bitmap.allocate_law [of a x] allocate by simp
next
  case (allocateNext a S rnd x a')
  then have "ab_used a \<noteq> {..<ab_capacity a}" using bitmap.full_law [of a rnd] by auto
  then show ?case using bitmap.next_law [of a rnd] allocateNext by auto
next
  case (release a S x)
  then show ?case using bitmap.release_law [of a x] by simp
next
  case (restore a S b T spec a')
  then show ?case using Restore_Snapshot [of b a spec a'] by simp
qed (simp_all add: ab_inv_new)

text \<open>C31. Whatever sequence of operations ran, the bitmap holds exactly the offsets that are allocated and its
  count is their number.  AllocateNext, with either strategy and whatever random number, returns an offset
  of the range that is not allocated, and fails only when all are allocated.\<close>

theorem bitmap_allocator_correct:
  assumes "ab_run a S"
  shows "S \<subseteq> {..<nat (ab_max a)} \<and> ab_Free a = ab_max a - int (card S) \<and> (\<forall>x. ab_Has x a \<longleftrightarrow> x \<in> S)
    \<and> (case ab_AllocateNext rnd a of
         (Some x, a') \<Rightarrow> int x < ab_max a \<and> x \<notin> S \<and> (\<forall>y. ab_Has y a' \<longleftrightarrow> y \<in> insert x S)
       | (None, a') \<Rightarrow> a' = a \<and> S = {..<nat (ab_max a)})"
proof -
  have inv: "ab_inv a" "ab_used a = S" using ab_run_inv [OF assms] by simp_all
  have "S \<subseteq> {..<nat (ab_max a)}" using bitmap.used_bound [OF inv(1)] inv(2) by (simp add: ab_capacity_def)
  moreover have "ab_Free a = ab_max a - int (card S)"
    using inv by (simp add: ab_inv_def ab_used_def ab_Free_def)
  moreover have "\<forall>x. ab_Has x a \<longleftrightarrow> x \<in> S" using bitmap.has_law [OF inv(1)] inv(2) by simp
  moreover have "case ab_AllocateNext rnd a of
         (Some x, a') \<Rightarrow> int x < ab_max a \<and> x \<notin> S \<and> (\<forall>y. ab_Has y a' \<longleftrightarrow> y \<in> insert x S)
       | (None, a') \<Rightarrow> a' = a \<and> S = {..<nat (ab_max a)}"
  proof (cases "ab_used a = {..<ab_capacity a}")
    case True
    then show ?thesis using bitmap.full_law [OF inv(1) True, of rnd] inv(2) by (simp add: ab_capacity_def)
  next
    case False
    from bitmap.next_law [OF inv(1) False, of rnd] obtain x a'
      where n: "ab_AllocateNext rnd a = (Some x, a')" "x < ab_capacity a" "x \<notin> ab_used a" "ab_inv a'"
        "ab_used a' = insert x (ab_used a)" by blast
    have "int x < ab_max a" using n(2) by (simp add: ab_capacity_def)
    then show ?thesis using n bitmap.has_law [OF n(4)] inv(2) by simp
  qed
  ultimately show ?thesis by blast
qed

text \<open>Three offsets, the first of which is taken.\<close>

definition example_bitmap :: AllocationBitmap where
  "example_bitmap = snd (ab_Allocate 0 (NewAllocationMap 3 ''r''))"

lemma example_run: "ab_run example_bitmap {0}"
  using ab_run.allocate [OF ab_run.random [of 3 "''r''"], of 0]
  by (simp add: example_bitmap_def NewAllocationMap_def)

theorem bitmap_allocator_correct_witness: "ab_Free example_bitmap = 2 \<and> fst (ab_AllocateNext 5 example_bitmap) = Some 2"
  using bitmap_allocator_correct [OF example_run, of 5]
  by (simp add: example_bitmap_def ab_Allocate_def NewAllocationMap_def ab_AllocateNext_def AllocateBit_def scan.simps
      bit_iff_odd set_bit_0)

text \<open>C32. A snapshot gives the allocator back: restoring what Snapshot wrote reproduces the allocated offsets and
  their number, which countBits reads from its table byte by byte.  ForEach visits exactly the allocated
  offsets, each once and in ascending order.\<close>

theorem snapshot_round_trip:
  assumes "ab_run b T" and "ab_rangeSpec a = ab_rangeSpec b"
  shows "ab_Restore (fst (ab_Snapshot b)) (snd (ab_Snapshot b)) a = Some (a\<lparr>ab_allocated := ab_allocated b, ab_count := ab_count b\<rparr>)
    \<and> set (ab_ForEach b) = T \<and> sorted_wrt (<) (ab_ForEach b)"
proof -
  have inv: "ab_inv b" "ab_used b = T" using ab_run_inv [OF assms(1)] by simp_all
  have "ab_count b = int (countBits (ab_allocated b))" using inv(1) by (simp add: ab_inv_def countBits_card)
  then have "ab_Restore (fst (ab_Snapshot b)) (snd (ab_Snapshot b)) a =
      Some (a\<lparr>ab_allocated := ab_allocated b, ab_count := ab_count b\<rparr>)"
    using assms(2) by (simp add: ab_Restore_def ab_Snapshot_def Let_def)
  then show ?thesis using forEachWord_spec [of 0 "ab_allocated b"] inv(2) by (simp add: ab_ForEach_def ab_used_def)
qed

theorem snapshot_round_trip_witness:
  "ab_Restore ''r'' (snd (ab_Snapshot example_bitmap)) (NewAllocationMap 3 ''r'') = Some example_bitmap"
  using snapshot_round_trip [OF example_run, of "NewAllocationMap 3 ''r''"]
  by (simp add: example_bitmap_def NewAllocationMap_def ab_Allocate_def ab_Snapshot_def)

end
