(* ===== verification/Port_Allocator.thy ===== *)
theory Port_Allocator
  imports Bitmap_Allocator
begin

text \<open>
  The allocator of node ports, \<open>pkg/registry/core/service/portallocator/allocator.go\<close>, and the
  transactions on it, \<open>operation.go\<close>, over the bitmap allocator of the previous theory.
  A port range is the PortRange of \<open>apimachinery/pkg/util/net/port_range.go\<close>; its string form, which only
  serves as a name of the range, is an argument where it is used.

  The field \<open>alloc\<close>, an interface in the code, is the bitmap in memory that NewPortAllocator puts there.  Its
  Allocate, AllocateNext and Release return no error, so the branches of pa_Allocate and pa_AllocateNext that
  forward one cannot be taken, and the lists of errors that Rollback and Commit collect are empty and left out.
\<close>

section \<open>Ports of a range\<close>

record PortRange =
  pr_Base :: int
  pr_Size :: int

definition pr_Contains :: "int \<Rightarrow> PortRange \<Rightarrow> bool" where
  "pr_Contains p pr \<longleftrightarrow> p \<ge> pr_Base pr \<and> p - pr_Base pr < pr_Size pr"

text \<open>\<open>ErrBitmapMismatch\<close> is the error of the bitmap's own Restore, which Restore passes on.\<close>

datatype range_error = ErrFull | ErrAllocated | ErrMismatchedNetwork | ErrNotInRange | ErrBitmapMismatch

record PortAllocator =
  pa_portRange :: PortRange
  pa_alloc :: AllocationBitmap

definition NewPortAllocator :: "(PortRange \<Rightarrow> string) \<Rightarrow> PortRange \<Rightarrow> PortAllocator" where
  "NewPortAllocator pr_String pr =
     \<lparr>pa_portRange = pr, pa_alloc = NewAllocationMap (pr_Size pr) (pr_String pr)\<rparr>"

definition pa_contains :: "int \<Rightarrow> PortAllocator \<Rightarrow> nat option" where
  "pa_contains port r =
     (if \<not> pr_Contains port (pa_portRange r) then None else Some (nat (port - pr_Base (pa_portRange r))))"

definition pa_Free :: "PortAllocator \<Rightarrow> int" where
  "pa_Free r = ab_Free (pa_alloc r)"

definition pa_Used :: "PortAllocator \<Rightarrow> int" where
  "pa_Used r = pr_Size (pa_portRange r) - ab_Free (pa_alloc r)"

definition pa_Allocate :: "int \<Rightarrow> PortAllocator \<Rightarrow> range_error option \<times> PortAllocator" where
  "pa_Allocate port r =
     (case pa_contains port r of
        None \<Rightarrow> (Some ErrNotInRange, r)
      | Some offset \<Rightarrow>
          (case ab_Allocate offset (pa_alloc r) of
             (allocated, a) \<Rightarrow> (if \<not> allocated then Some ErrAllocated else None, r\<lparr>pa_alloc := a\<rparr>)))"

definition pa_AllocateNext :: "nat \<Rightarrow> PortAllocator \<Rightarrow> (range_error + int) \<times> PortAllocator" where
  "pa_AllocateNext rnd r =
     (case ab_AllocateNext rnd (pa_alloc r) of
        (None, a) \<Rightarrow> (Inl ErrFull, r\<lparr>pa_alloc := a\<rparr>)
      | (Some offset, a) \<Rightarrow> (Inr (pr_Base (pa_portRange r) + int offset), r\<lparr>pa_alloc := a\<rparr>))"

definition pa_ForEach :: "PortAllocator \<Rightarrow> int list" where
  "pa_ForEach r = map (\<lambda>offset. pr_Base (pa_portRange r) + int offset) (ab_ForEach (pa_alloc r))"

definition pa_Release :: "int \<Rightarrow> PortAllocator \<Rightarrow> PortAllocator" where
  "pa_Release port r =
     (case pa_contains port r of
        None \<Rightarrow> r
      | Some offset \<Rightarrow> r\<lparr>pa_alloc := ab_Release offset (pa_alloc r)\<rparr>)"

definition pa_Has :: "int \<Rightarrow> PortAllocator \<Rightarrow> bool" where
  "pa_Has port r = (case pa_contains port r of None \<Rightarrow> False | Some offset \<Rightarrow> ab_Has offset (pa_alloc r))"

definition pa_Snapshot :: "PortAllocator \<Rightarrow> string \<times> nat list" where
  "pa_Snapshot r = ab_Snapshot (pa_alloc r)"

definition pa_Restore ::
  "(PortRange \<Rightarrow> string) \<Rightarrow> PortRange \<Rightarrow> nat list \<Rightarrow> PortAllocator \<Rightarrow> range_error option \<times> PortAllocator" where
  "pa_Restore pr_String pr data r =
     (if pr_String pr \<noteq> pr_String (pa_portRange r) then (Some ErrMismatchedNetwork, r)
      else (case ab_Restore (pr_String pr) data (pa_alloc r) of
              None \<Rightarrow> (Some ErrBitmapMismatch, r)
            | Some a \<Rightarrow> (None, r\<lparr>pa_alloc := a\<rparr>)))"

section \<open>Transactions\<close>

record PortAllocationOperation =
  op_allocated :: "int list"
  op_releaseDeferred :: "int list"
  op_shouldRollback :: bool
  op_dryRun :: bool

definition StartOperation :: "bool \<Rightarrow> PortAllocationOperation" where
  "StartOperation dryRun =
     \<lparr>op_allocated = [], op_releaseDeferred = [], op_shouldRollback = True, op_dryRun = dryRun\<rparr>"

definition op_Rollback :: "PortAllocationOperation \<Rightarrow> PortAllocator \<Rightarrow> PortAllocator" where
  "op_Rollback op pa = (if op_dryRun op then pa else fold pa_Release (op_allocated op) pa)"

definition op_Commit ::
  "PortAllocationOperation \<Rightarrow> PortAllocator \<Rightarrow> PortAllocationOperation \<times> PortAllocator" where
  "op_Commit op pa =
     (if op_dryRun op then (op, pa)
      else (op\<lparr>op_shouldRollback := False\<rparr>, fold pa_Release (op_releaseDeferred op) pa))"

definition op_Finish :: "PortAllocationOperation \<Rightarrow> PortAllocator \<Rightarrow> PortAllocator" where
  "op_Finish op pa = (if op_shouldRollback op then op_Rollback op pa else pa)"

definition op_Allocate :: "int \<Rightarrow> PortAllocationOperation \<Rightarrow> PortAllocator
    \<Rightarrow> range_error option \<times> PortAllocationOperation \<times> PortAllocator" where
  "op_Allocate port op pa =
     (if op_dryRun op then
        (if pa_Has port pa then (Some ErrAllocated, op, pa)
         else if port \<in> set (op_allocated op) then (Some ErrAllocated, op, pa)
         else (None, op\<lparr>op_allocated := op_allocated op @ [port]\<rparr>, pa))
      else
        (case pa_Allocate port pa of
           (None, pa') \<Rightarrow> (None, op\<lparr>op_allocated := op_allocated op @ [port]\<rparr>, pa')
         | (Some err, pa') \<Rightarrow> (Some err, op, pa')))"

text \<open>The loops of the dry run: the largest allocated port, and the search for a port below 100.\<close>

definition lastPort :: "int list \<Rightarrow> int" where
  "lastPort ports =
     (if length ports = 0 then 32768 else foldl (\<lambda>m p. if p > m then p else m) 0 ports)"

function dryRunLoop :: "int \<Rightarrow> PortAllocationOperation \<Rightarrow> PortAllocator \<Rightarrow> (int \<times> PortAllocationOperation) option" where
  "dryRunLoop port op pa =
     (if port < 100 then
        (case op_Allocate port op pa of
           (None, op', pa') \<Rightarrow> Some (port, op')
         | (Some err, op', pa') \<Rightarrow> dryRunLoop (port + 1) op' pa')
      else None)"
  by pat_completeness auto
termination by (relation "measure (\<lambda>(port, op, pa). nat (100 - port))") auto

declare dryRunLoop.simps [simp del]

definition op_AllocateNext :: "nat \<Rightarrow> PortAllocationOperation \<Rightarrow> PortAllocator
    \<Rightarrow> (range_error + int) \<times> PortAllocationOperation \<times> PortAllocator" where
  "op_AllocateNext rnd op pa =
     (if op_dryRun op then
        (let last = lastPort (op_allocated op)
         in case dryRunLoop (last + 1) op pa of
              Some (port, op') \<Rightarrow> (Inr port, op', pa)
            | None \<Rightarrow> (Inr (last + 1), op\<lparr>op_allocated := op_allocated op @ [last + 1]\<rparr>, pa))
      else
        (case pa_AllocateNext rnd pa of
           (Inr port, pa') \<Rightarrow> (Inr port, op\<lparr>op_allocated := op_allocated op @ [port]\<rparr>, pa')
         | (Inl err, pa') \<Rightarrow> (Inl err, op, pa')))"

definition op_ReleaseDeferred :: "int \<Rightarrow> PortAllocationOperation \<Rightarrow> PortAllocationOperation" where
  "op_ReleaseDeferred port op = op\<lparr>op_releaseDeferred := op_releaseDeferred op @ [port]\<rparr>"

section \<open>The ports in use\<close>

definition pa_inv :: "PortAllocator \<Rightarrow> bool" where
  "pa_inv r \<longleftrightarrow> ab_inv (pa_alloc r) \<and> ab_max (pa_alloc r) = pr_Size (pa_portRange r)"

definition pa_ports :: "PortAllocator \<Rightarrow> int set" where
  "pa_ports r = (\<lambda>x. pr_Base (pa_portRange r) + int x) ` ab_used (pa_alloc r)"

lemma pa_invD: "pa_inv r \<Longrightarrow> ab_inv (pa_alloc r)" "pa_inv r \<Longrightarrow> ab_max (pa_alloc r) = pr_Size (pa_portRange r)"
  by (simp_all add: pa_inv_def)

lemma pa_contains_Some:
  assumes "pa_inv r" and "pa_contains port r = Some x"
  shows "port = pr_Base (pa_portRange r) + int x" and "x < ab_capacity (pa_alloc r)"
  using assms by (auto simp: pa_contains_def pr_Contains_def pa_inv_def ab_capacity_def split: if_splits)

lemma pa_ports_offset: "pr_Base (pa_portRange r) + int x \<in> pa_ports r \<longleftrightarrow> x \<in> ab_used (pa_alloc r)"
  by (auto simp: pa_ports_def)

lemma pa_outside:
  assumes "pa_inv r" and "pa_contains port r = None"
  shows "port \<notin> pa_ports r"
proof
  assume "port \<in> pa_ports r"
  then obtain x where x: "port = pr_Base (pa_portRange r) + int x" "x \<in> ab_used (pa_alloc r)" by (auto simp: pa_ports_def)
  have "x < ab_capacity (pa_alloc r)" using subsetD [OF bitmap.used_bound [OF pa_invD(1) [OF assms(1)]] x(2)] by simp
  then have "pr_Contains port (pa_portRange r)"
    using pa_invD(2) [OF assms(1)] x(1) by (simp add: pr_Contains_def ab_capacity_def)
  then show False using assms(2) by (simp add: pa_contains_def)
qed

lemma pa_Has_iff: "pa_inv r \<Longrightarrow> pa_Has port r \<longleftrightarrow> port \<in> pa_ports r"
proof (cases "pa_contains port r")
  case None
  assume "pa_inv r"
  then show ?thesis using None pa_outside [of r port] by (simp add: pa_Has_def)
next
  case (Some x)
  assume inv: "pa_inv r"
  then show ?thesis
    using Some pa_contains_Some(1) [OF inv Some] bitmap.has_law [OF pa_invD(1) [OF inv], of x] pa_ports_offset [of r x]
    by (simp add: pa_Has_def)
qed

lemma pa_Release_law:
  assumes "pa_inv r"
  shows "pa_inv (pa_Release port r)" and "pa_ports (pa_Release port r) = pa_ports r - {port}"
    and "pa_portRange (pa_Release port r) = pa_portRange r"
proof -
  have "pa_inv (pa_Release port r) \<and> pa_ports (pa_Release port r) = pa_ports r - {port} \<and>
      pa_portRange (pa_Release port r) = pa_portRange r"
  proof (cases "pa_contains port r")
    case None
    then show ?thesis using assms pa_outside [OF assms None] by (simp add: pa_Release_def)
  next
    case (Some x)
    note l = bitmap.release_law [OF pa_invD(1) [OF assms], of x]
    have mx: "ab_max (ab_Release x (pa_alloc r)) = ab_max (pa_alloc r)" by (rule ab_max_kept(3))
    have "(\<lambda>x. pr_Base (pa_portRange r) + int x) ` (ab_used (pa_alloc r) - {x}) = pa_ports r - {port}"
      using pa_contains_Some(1) [OF assms Some] by (auto simp: pa_ports_def)
    then show ?thesis using Some l assms mx by (simp add: pa_Release_def pa_inv_def pa_ports_def)
  qed
  then show "pa_inv (pa_Release port r)" and "pa_ports (pa_Release port r) = pa_ports r - {port}"
    and "pa_portRange (pa_Release port r) = pa_portRange r" by simp_all
qed

lemma pa_Allocate_law:
  assumes "pa_inv r"
  shows "fst (pa_Allocate port r) =
      (if \<not> pr_Contains port (pa_portRange r) then Some ErrNotInRange
       else if port \<in> pa_ports r then Some ErrAllocated else None)"
    and "pa_inv (snd (pa_Allocate port r))"
    and "pa_ports (snd (pa_Allocate port r)) =
      (if pr_Contains port (pa_portRange r) then insert port (pa_ports r) else pa_ports r)"
    and "pa_portRange (snd (pa_Allocate port r)) = pa_portRange r"
proof -
  have "fst (pa_Allocate port r) =
      (if \<not> pr_Contains port (pa_portRange r) then Some ErrNotInRange
       else if port \<in> pa_ports r then Some ErrAllocated else None) \<and>
    pa_inv (snd (pa_Allocate port r)) \<and> pa_ports (snd (pa_Allocate port r)) =
      (if pr_Contains port (pa_portRange r) then insert port (pa_ports r) else pa_ports r) \<and>
    pa_portRange (snd (pa_Allocate port r)) = pa_portRange r"
  proof (cases "pr_Contains port (pa_portRange r)")
    case False
    then show ?thesis using assms by (simp add: pa_Allocate_def pa_contains_def)
  next
    case True
    define x where "x = nat (port - pr_Base (pa_portRange r))"
    have c: "pa_contains port r = Some x" using True by (simp add: pa_contains_def x_def)
    note x = pa_contains_Some [OF assms c]
    note l = bitmap.allocate_law [OF pa_invD(1) [OF assms] x(2)]
    have "port \<in> pa_ports r \<longleftrightarrow> x \<in> ab_used (pa_alloc r)" using pa_ports_offset [of r x] x(1) by simp
    moreover have "(\<lambda>x. pr_Base (pa_portRange r) + int x) ` insert x (ab_used (pa_alloc r)) = insert port (pa_ports r)"
      using x(1) by (simp add: pa_ports_def)
    ultimately show ?thesis
      using True c l assms ab_max_kept(1) [of x "pa_alloc r"]
      by (simp add: pa_Allocate_def case_prod_beta pa_inv_def pa_ports_def)
  qed
  then show "fst (pa_Allocate port r) =
      (if \<not> pr_Contains port (pa_portRange r) then Some ErrNotInRange
       else if port \<in> pa_ports r then Some ErrAllocated else None)"
    and "pa_inv (snd (pa_Allocate port r))"
    and "pa_ports (snd (pa_Allocate port r)) =
      (if pr_Contains port (pa_portRange r) then insert port (pa_ports r) else pa_ports r)"
    and "pa_portRange (snd (pa_Allocate port r)) = pa_portRange r" by simp_all
qed

lemma pa_AllocateNext_cases:
  assumes "pa_inv r"
  obtains (got) port r' where "pa_AllocateNext rnd r = (Inr port, r')" and "pr_Contains port (pa_portRange r)"
      and "port \<notin> pa_ports r" and "pa_inv r'" and "pa_ports r' = insert port (pa_ports r)" and "pa_portRange r' = pa_portRange r"
    | (full) "pa_AllocateNext rnd r = (Inl ErrFull, r)" and "\<And>port. pr_Contains port (pa_portRange r) \<Longrightarrow> port \<in> pa_ports r"
proof (cases "ab_used (pa_alloc r) = {..<ab_capacity (pa_alloc r)}")
  case True
  have "pa_AllocateNext rnd r = (Inl ErrFull, r)"
    using bitmap.full_law [OF pa_invD(1) [OF assms] True, of rnd] by (simp add: pa_AllocateNext_def)
  moreover have "port \<in> pa_ports r" if p: "pr_Contains port (pa_portRange r)" for port
  proof -
    have c: "pa_contains port r = Some (nat (port - pr_Base (pa_portRange r)))" using p by (simp add: pa_contains_def)
    from pa_contains_Some [OF assms c] True pa_ports_offset [of r] show ?thesis by (metis lessThan_iff)
  qed
  ultimately show thesis by (rule full)
next
  case False
  from bitmap.next_law [OF pa_invD(1) [OF assms] False, of rnd] obtain x a
    where n: "ab_AllocateNext rnd (pa_alloc r) = (Some x, a)" "x < ab_capacity (pa_alloc r)" "x \<notin> ab_used (pa_alloc r)"
      "ab_inv a" "ab_used a = insert x (ab_used (pa_alloc r))" by blast
  let ?port = "pr_Base (pa_portRange r) + int x"
  have mx: "ab_max a = ab_max (pa_alloc r)" using ab_max_kept(2) [of rnd "pa_alloc r"] n(1) by simp
  show thesis
  proof (rule got)
    show "pa_AllocateNext rnd r = (Inr ?port, r\<lparr>pa_alloc := a\<rparr>)" using n(1) by (simp add: pa_AllocateNext_def)
    show "pr_Contains ?port (pa_portRange r)"
      using n(2) pa_invD(2) [OF assms] by (simp add: pr_Contains_def ab_capacity_def)
    show "?port \<notin> pa_ports r" using n(3) pa_ports_offset by simp
    show "pa_inv (r\<lparr>pa_alloc := a\<rparr>)" using n(4) mx assms by (simp add: pa_inv_def)
    show "pa_ports (r\<lparr>pa_alloc := a\<rparr>) = insert ?port (pa_ports r)" using n(5) by (simp add: pa_ports_def)
  qed simp
qed

section \<open>What a transaction leaves behind\<close>

text \<open>The steps of a transaction that starts with the allocator \<open>pa0\<close> and that nobody interferes with.\<close>

inductive op_run :: "bool \<Rightarrow> PortAllocator \<Rightarrow> PortAllocationOperation \<Rightarrow> PortAllocator \<Rightarrow> bool"
  for dryRun :: bool and pa0 :: PortAllocator where
  start: "op_run dryRun pa0 (StartOperation dryRun) pa0"
| allocate: "op_run dryRun pa0 op pa \<Longrightarrow> op_Allocate port op pa = (r, op', pa') \<Longrightarrow> op_run dryRun pa0 op' pa'"
| allocateNext: "op_run dryRun pa0 op pa \<Longrightarrow> op_AllocateNext rnd op pa = (r, op', pa') \<Longrightarrow> op_run dryRun pa0 op' pa'"
| releaseDeferred: "op_run dryRun pa0 op pa \<Longrightarrow> op_run dryRun pa0 (op_ReleaseDeferred port op) pa"

lemma op_Allocate_dry: "op_dryRun op \<Longrightarrow> op_Allocate port op pa = (r, op', pa') \<Longrightarrow>
    pa' = pa \<and> op_dryRun op' \<and> op_shouldRollback op' = op_shouldRollback op"
  by (auto simp: op_Allocate_def split: if_splits)

lemma dryRunLoop_dry: "op_dryRun op \<Longrightarrow> dryRunLoop port op pa = Some (p, op') \<Longrightarrow>
    op_dryRun op' \<and> op_shouldRollback op' = op_shouldRollback op"
proof (induction port op pa rule: dryRunLoop.induct)
  case (1 port op pa)
  note unf = 1(3) [unfolded dryRunLoop.simps [of port op pa]]
  obtain r op1 pa1 where a: "op_Allocate port op pa = (r, op1, pa1)" by (cases "op_Allocate port op pa") auto
  note d = op_Allocate_dry [OF 1(2) a]
  show ?case
  proof (cases r)
    case None
    then show ?thesis using unf a d by (simp split: if_splits)
  next
    case (Some err)
    have lt: "port < 100" using unf by (simp split: if_splits)
    then have "dryRunLoop (port + 1) op1 pa1 = Some (p, op')" using unf a Some by simp
    with 1(1) [OF lt a [symmetric] Some refl] d show ?thesis by simp
  qed
qed

lemma op_run_dry: "op_run True pa0 op pa \<Longrightarrow> pa = pa0 \<and> op_dryRun op \<and> op_shouldRollback op"
proof (induction rule: op_run.induct)
  case start
  then show ?case by (simp add: StartOperation_def)
next
  case (allocate op pa port r op' pa')
  then show ?case using op_Allocate_dry [of op port pa r op' pa'] by simp
next
  case (allocateNext op pa rnd r op' pa')
  then show ?case
    using dryRunLoop_dry [of op "lastPort (op_allocated op) + 1" pa]
    by (auto simp: op_AllocateNext_def Let_def split: option.splits prod.splits)
next
  case (releaseDeferred op pa port)
  then show ?case by (simp add: op_ReleaseDeferred_def)
qed

definition op_inv :: "PortAllocator \<Rightarrow> PortAllocationOperation \<Rightarrow> PortAllocator \<Rightarrow> bool" where
  "op_inv pa0 op pa \<longleftrightarrow> \<not> op_dryRun op \<and> op_shouldRollback op \<and> pa_inv pa \<and> pa_portRange pa = pa_portRange pa0 \<and>
     pa_ports pa = pa_ports pa0 \<union> set (op_allocated op) \<and> pa_ports pa0 \<inter> set (op_allocated op) = {} \<and>
     distinct (op_allocated op)"

lemma op_inv_add:
  assumes "op_inv pa0 op pa" and "port \<notin> pa_ports pa" and "pa_inv pa'" and "pa_ports pa' = insert port (pa_ports pa)"
    and "pa_portRange pa' = pa_portRange pa"
  shows "op_inv pa0 (op\<lparr>op_allocated := op_allocated op @ [port]\<rparr>) pa'"
  using assms by (simp add: op_inv_def)

lemma op_inv_same:
  "op_inv pa0 op pa \<Longrightarrow> pa_inv pa' \<Longrightarrow> pa_ports pa' = pa_ports pa \<Longrightarrow> pa_portRange pa' = pa_portRange pa \<Longrightarrow> op_inv pa0 op pa'"
  by (simp add: op_inv_def)

lemma op_run_inv: "op_run False pa0 op pa \<Longrightarrow> pa_inv pa0 \<Longrightarrow> op_inv pa0 op pa"
proof (induction rule: op_run.induct)
  case start
  then show ?case by (simp add: op_inv_def StartOperation_def)
next
  case (allocate op pa port r op' pa')
  then have inv: "op_inv pa0 op pa" "pa_inv pa" "\<not> op_dryRun op" by (simp_all add: op_inv_def)
  note l = pa_Allocate_law [OF inv(2), of port]
  obtain e pa1 where a: "pa_Allocate port pa = (e, pa1)" by fastforce
  show ?case
  proof (cases e)
    case None
    then have p: "pr_Contains port (pa_portRange pa)" "port \<notin> pa_ports pa" using l(1) a by (simp_all split: if_splits)
    have "op' = op\<lparr>op_allocated := op_allocated op @ [port]\<rparr>" "pa' = pa1"
      using allocate(2) a None inv(3) by (simp_all add: op_Allocate_def)
    then show ?thesis using op_inv_add [OF inv(1) p(2), of pa1] l(2-4) a p(1) by simp
  next
    case (Some err)
    have "op' = op" "pa' = pa1" using allocate(2) a Some inv(3) by (simp_all add: op_Allocate_def)
    moreover have "pa_ports pa1 = pa_ports pa" using l(1,3) a Some by (auto split: if_splits)
    ultimately show ?thesis using op_inv_same [OF inv(1), of pa1] l(2,4) a by simp
  qed
next
  case (allocateNext op pa rnd r op' pa')
  then have inv: "op_inv pa0 op pa" "pa_inv pa" "\<not> op_dryRun op" by (simp_all add: op_inv_def)
  show ?case
  proof (cases rule: pa_AllocateNext_cases [OF inv(2), of rnd, case_names got full])
    case (got port r')
    then have "op' = op\<lparr>op_allocated := op_allocated op @ [port]\<rparr>" "pa' = r'"
      using allocateNext(2) inv(3) by (simp_all add: op_AllocateNext_def)
    then show ?thesis using op_inv_add [OF inv(1) got(3-6)] by simp
  next
    case full
    then show ?thesis using allocateNext(2) inv by (simp add: op_AllocateNext_def)
  qed
next
  case (releaseDeferred op pa port)
  then show ?case by (simp add: op_inv_def op_ReleaseDeferred_def)
qed

lemma fold_Release: "pa_inv pa \<Longrightarrow> pa_inv (fold pa_Release ps pa) \<and> pa_ports (fold pa_Release ps pa) = pa_ports pa - set ps"
proof (induction ps arbitrary: pa)
  case (Cons p ps)
  show ?case using Cons.IH [OF pa_Release_law(1) [OF Cons.prems, of p]] pa_Release_law(2) [OF Cons.prems, of p] by auto
qed simp

text \<open>C33. A transaction that is not committed leaves nothing behind: finishing it gives back the ports that were in
  use before, whatever it allocated.  Committing keeps its allocations, releases exactly the ports whose
  release was deferred, and makes finishing a no-op.  A dry run never changes the allocator.\<close>

theorem transaction_rolls_back:
  assumes "pa_inv pa0" and "op_run dryRun pa0 op pa"
  shows "pa_ports (op_Finish op pa) = pa_ports pa0
    \<and> (case op_Commit op pa of (op', pa') \<Rightarrow> op_Finish op' pa' = pa' \<and>
         pa_ports pa' = (if dryRun then pa_ports pa0
           else (pa_ports pa0 \<union> set (op_allocated op)) - set (op_releaseDeferred op)))
    \<and> (dryRun \<longrightarrow> pa = pa0)"
proof (cases dryRun)
  case True
  then have "pa = pa0" "op_dryRun op" "op_shouldRollback op" using op_run_dry [of pa0 op pa] assms(2) by auto
  then show ?thesis using True by (simp add: op_Finish_def op_Rollback_def op_Commit_def)
next
  case False
  then have inv: "op_inv pa0 op pa" using op_run_inv [of pa0 op pa] assms by simp
  then have pa: "pa_inv pa" "\<not> op_dryRun op" "op_shouldRollback op" by (simp_all add: op_inv_def)
  note f = fold_Release [OF pa(1), of "op_allocated op"] and g = fold_Release [OF pa(1), of "op_releaseDeferred op"]
  have "pa_ports pa - set (op_allocated op) = pa_ports pa0" using inv by (auto simp: op_inv_def)
  moreover have "pa_ports pa = pa_ports pa0 \<union> set (op_allocated op)" using inv by (simp add: op_inv_def)
  ultimately show ?thesis using False f g pa by (simp add: op_Finish_def op_Rollback_def op_Commit_def)
qed

definition example_ports :: PortAllocator where
  "example_ports = NewPortAllocator (\<lambda>pr. ''30000-30009'') \<lparr>pr_Base = 30000, pr_Size = 10\<rparr>"

lemma example_ports_inv: "pa_inv example_ports" "pa_ports example_ports = {}"
  using ab_inv_new(1) [of 10 "''30000-30009''"]
  by (simp_all add: example_ports_def NewPortAllocator_def pa_inv_def pa_ports_def) (simp add: NewAllocationMap_def)

lemma example_op: "op_Allocate 30002 (StartOperation False) example_ports =
    (None, (StartOperation False)\<lparr>op_allocated := [30002]\<rparr>, snd (pa_Allocate 30002 example_ports))"
proof -
  have "pr_Contains 30002 (pa_portRange example_ports)"
    by (simp add: example_ports_def NewPortAllocator_def pr_Contains_def)
  then have "fst (pa_Allocate 30002 example_ports) = None"
    using pa_Allocate_law(1) [OF example_ports_inv(1), of 30002] example_ports_inv(2) by simp
  then obtain pa1 where "pa_Allocate 30002 example_ports = (None, pa1)" by (cases "pa_Allocate 30002 example_ports") simp
  then show ?thesis by (simp add: op_Allocate_def StartOperation_def)
qed

theorem transaction_rolls_back_witness:
  "pa_ports (op_Finish ((StartOperation False)\<lparr>op_allocated := [30002]\<rparr>) (snd (pa_Allocate 30002 example_ports))) = {}"
  using transaction_rolls_back [OF example_ports_inv(1) op_run.allocate [OF op_run.start example_op]]
  by (simp add: example_ports_inv(2))

text \<open>C34. In a dry run the first AllocateNext always returns port 32769, even when that port is in use or outside of
  the range: the loop that should look for a free port only tries ports below 100.\<close>

theorem dry_run_first_port:
  "op_AllocateNext rnd (StartOperation True) pa = (Inr 32769, (StartOperation True)\<lparr>op_allocated := [32769]\<rparr>, pa)"
  by (simp add: op_AllocateNext_def StartOperation_def lastPort_def dryRunLoop.simps)

end
