(* ===== verification/Net_Addresses.thy ===== *)
theory Net_Addresses
  imports Bitmap_Allocator
begin

text \<open>
  The part of the package net that the allocators of addresses and subnets use.  An address is the list of its
  bytes; a network is its address with the two results of Mask.Size.  A network as ParseCIDR returns it
  contains exactly the addresses of an interval.
\<close>

section \<open>Addresses and networks\<close>

type_synonym IP = "nat list"

definition To4 :: "IP \<Rightarrow> IP option" where
  "To4 ip =
     (if length ip = 4 then Some ip
      else if length ip = 16 \<and> take 10 ip = replicate 10 0 \<and> ip ! 10 = 255 \<and> ip ! 11 = 255 then Some (drop 12 ip)
      else None)"

definition To16 :: "IP \<Rightarrow> IP option" where
  "To16 ip =
     (if length ip = 4 then Some (replicate 10 0 @ [255, 255] @ ip)
      else if length ip = 16 then Some ip
      else None)"

record IPNet =
  net_IP :: IP
  mask_ones :: nat
  mask_bits :: nat

definition ip_Equal :: "IP \<Rightarrow> IP \<Rightarrow> bool" where
  "ip_Equal ip x =
     (if length ip = length x then ip = x
      else if length ip = 4 \<and> length x = 16 then To16 ip = Some x
      else if length ip = 16 \<and> length x = 4 then To16 x = Some ip
      else False)"

text \<open>
  IPNet.Contains, of a network whose mask has the length of its address: the address has the length of the
  network's and agrees with it under the mask.
\<close>

definition net_Contains :: "IP \<Rightarrow> IPNet \<Rightarrow> bool" where
  "net_Contains ip n =
     (let nn = (case To4 (net_IP n) of Some x \<Rightarrow> x | None \<Rightarrow> net_IP n);
          x = (case To4 ip of Some y \<Rightarrow> y | None \<Rightarrow> ip)
      in length x = length nn \<and>
         big_SetBytes x div 2 ^ (mask_bits n - mask_ones n) = big_SetBytes nn div 2 ^ (mask_bits n - mask_ones n))"

text \<open>The method Int64 of a big integer: its low 64 bits, read as a signed number.\<close>

definition signed64 :: "int \<Rightarrow> int" where
  "signed64 i = (let m = i mod 2 ^ 64 in if m \<ge> 2 ^ 63 then m - 2 ^ 64 else m)"

section \<open>Bytes of an address\<close>

lemma signed64_id: "0 \<le> i \<Longrightarrow> i < 2 ^ 63 \<Longrightarrow> signed64 i = i"
  by (simp add: signed64_def)

lemma SetBytes_snoc: "big_SetBytes (bs @ [b]) = big_SetBytes bs * 256 + b"
  by (simp add: big_SetBytes_def)

lemma SetBytes_bound: "(\<forall>b \<in> set bs. b < 256) \<Longrightarrow> big_SetBytes bs < 256 ^ length bs"
proof (induction bs rule: rev_induct)
  case (snoc b bs)
  then have "big_SetBytes bs + 1 \<le> 256 ^ length bs" by simp
  then have "(big_SetBytes bs + 1) * 256 \<le> 256 ^ length bs * 256" by (rule mult_le_mono1)
  moreover have "b < 256" using snoc.prems by simp
  ultimately show ?case by (simp add: SetBytes_snoc)
qed (simp add: big_SetBytes_def)

lemma bytesLE_length: "256 ^ k \<le> n \<Longrightarrow> n < 256 ^ Suc k \<Longrightarrow> length (bytesLE n) = Suc k"
proof (induction k arbitrary: n)
  case 0
  then show ?case by (simp add: bytesLE.simps [of n])
next
  case (Suc k)
  have "256 ^ k \<le> n div 256" using div_le_mono [OF Suc.prems(1), of 256] by simp
  moreover have "n div 256 < 256 ^ Suc k" using Suc.prems(2) by (simp add: less_mult_imp_div_less)
  moreover have "n \<noteq> 0" using Suc.prems(1) by (metis less_eq_nat.simps(1) not_less zero_less_power zero_less_numeral)
  ultimately show ?case using Suc.IH [of "n div 256"] by (simp add: bytesLE.simps [of n])
qed

lemma Bytes_length: "256 ^ k \<le> n \<Longrightarrow> n < 256 ^ Suc k \<Longrightarrow> length (big_Bytes n) = Suc k"
  by (simp add: big_Bytes_def bytesLE_length)

lemma SetBytes_Cons0: "big_SetBytes (0 # bs) = big_SetBytes bs"
  by (simp add: big_SetBytes_def)

definition bytes_ok :: "IP \<Rightarrow> bool" where
  "bytes_ok ip = list_all (\<lambda>b. b < 256) ip"

lemma bytes_ok_Bytes: "bytes_ok (big_Bytes n)"
  by (simp add: bytes_ok_def list_all_iff big_Bytes_def bytesLE_bytes)

lemma SetBytes_bounded: "bytes_ok bs \<Longrightarrow> big_SetBytes bs < 256 ^ length bs"
  by (simp add: bytes_ok_def list_all_iff SetBytes_bound)

lemma hd_nonzero: "bytes_ok bs \<Longrightarrow> length bs = Suc k \<Longrightarrow> 256 ^ k \<le> big_SetBytes bs \<Longrightarrow> hd bs \<noteq> 0"
proof
  assume ok: "bytes_ok bs" "length bs = Suc k" "256 ^ k \<le> big_SetBytes bs" and "hd bs = 0"
  then obtain cs where bs: "bs = 0 # cs" "length cs = k" by (cases bs) auto
  with ok have "big_SetBytes cs < 256 ^ k" using SetBytes_bounded [of cs] by (simp add: bytes_ok_def)
  with ok bs show False by (simp add: SetBytes_Cons0)
qed

lemma SetBytes_lower: "bs \<noteq> [] \<Longrightarrow> hd bs \<noteq> 0 \<Longrightarrow> 256 ^ (length bs - 1) \<le> big_SetBytes bs"
proof (induction bs rule: rev_induct)
  case (snoc b bs)
  show ?case
  proof (cases bs)
    case Nil
    with snoc.prems show ?thesis by (simp add: big_SetBytes_def)
  next
    case (Cons c cs)
    with snoc have "256 ^ length cs \<le> big_SetBytes bs" by simp
    then have "256 ^ length cs * 256 \<le> big_SetBytes bs * 256" by (rule mult_le_mono1)
    with Cons show ?thesis by (simp only: SetBytes_snoc) simp
  qed
qed simp

lemma Bytes_SetBytes: "bytes_ok bs \<Longrightarrow> bs = [] \<or> hd bs \<noteq> 0 \<Longrightarrow> big_Bytes (big_SetBytes bs) = bs"
proof (induction bs rule: rev_induct)
  case Nil
  then show ?case by (simp add: big_Bytes_def big_SetBytes_def)
next
  case (snoc b bs)
  then have "big_Bytes (big_SetBytes bs) = bs" "b < 256" by (cases bs; simp add: bytes_ok_def)+
  moreover have "0 < big_SetBytes (bs @ [b])"
    using SetBytes_lower [of "bs @ [b]"] snoc.prems(2)
    by (metis append_is_Nil_conv gr0I list.distinct(1) not_less zero_less_numeral zero_less_power)
  ultimately show ?case
    by (simp add: SetBytes_snoc big_Bytes_def bytesLE.simps [of "big_SetBytes bs * 256 + b"])
qed

section \<open>Networks as intervals\<close>

text \<open>A network as ParseCIDR returns it: the mask has the length of the address, which is masked.\<close>

definition net_wf :: "IPNet \<Rightarrow> bool" where
  "net_wf n \<longleftrightarrow>
     bytes_ok (net_IP n) \<and> (length (net_IP n) = 4 \<and> mask_bits n = 32 \<or> length (net_IP n) = 16 \<and> mask_bits n = 128) \<and>
     (length (net_IP n) = 16 \<longrightarrow> To4 (net_IP n) = None) \<and> mask_ones n \<le> mask_bits n \<and>
     2 ^ (mask_bits n - mask_ones n) dvd big_SetBytes (net_IP n)"

definition net_size :: "IPNet \<Rightarrow> nat" where
  "net_size n = 2 ^ (mask_bits n - mask_ones n)"

definition canon :: "IP \<Rightarrow> IP" where
  "canon ip = (case To4 ip of Some x \<Rightarrow> x | None \<Rightarrow> ip)"

lemma canon_bytes: "bytes_ok ip \<Longrightarrow> bytes_ok (canon ip)"
  by (auto simp: canon_def To4_def bytes_ok_def list_all_iff dest: in_set_dropD split: option.splits if_splits)

lemma canon_length: "length ip = 4 \<Longrightarrow> canon ip = ip"
  by (simp add: canon_def To4_def)

lemma canon_short: "length ip < 16 \<Longrightarrow> canon ip = ip"
  by (simp add: canon_def To4_def)

lemma canon_net: "net_wf n \<Longrightarrow> canon (net_IP n) = net_IP n"
  by (auto simp: net_wf_def canon_def To4_def)

lemma replicate_10: "replicate 10 x = x # replicate 9 x"
  by (simp add: numeral_eq_Suc)

lemma canon_nonzero: "ip \<noteq> [] \<Longrightarrow> hd ip \<noteq> 0 \<Longrightarrow> canon ip = ip"
  by (cases ip) (auto simp: canon_def To4_def replicate_10)

lemma canon_canon_length: "length (canon ip) = 4 \<or> canon ip = ip"
  by (auto simp: canon_def To4_def)

lemma canon_idem: "canon (canon ip) = canon ip"
  using canon_canon_length [of ip] canon_length [of "canon ip"] by auto

lemma Contains_canon:
  "net_wf n \<Longrightarrow>
   net_Contains ip n \<longleftrightarrow>
     length (canon ip) = length (net_IP n) \<and> big_SetBytes (canon ip) div net_size n = big_SetBytes (net_IP n) div net_size n"
  using canon_net [of n] by (simp add: net_Contains_def canon_def net_size_def Let_def)

lemma div_block: "(d::nat) dvd v \<Longrightarrow> 0 < d \<Longrightarrow> x div d = v div d \<longleftrightarrow> v \<le> x \<and> x < v + d"
proof -
  assume "d dvd v" "0 < d"
  then obtain q where v: "v = d * q" by (elim dvdE)
  show ?thesis
  proof
    assume "x div d = v div d"
    with v \<open>0 < d\<close> have "x div d = q" by simp
    then have "x = d * q + x mod d" by (metis mult_div_mod_eq)
    then show "v \<le> x \<and> x < v + d" using v mod_less_divisor [OF \<open>0 < d\<close>, of x] by linarith
  next
    assume "v \<le> x \<and> x < v + d"
    then obtain r where "x = v + r" "r < d" by (metis add_less_cancel_left le_Suc_ex)
    with v \<open>0 < d\<close> show "x div d = v div d" by simp
  qed
qed

lemma Contains_interval:
  assumes "net_wf n"
  shows "net_Contains ip n \<longleftrightarrow>
     length (canon ip) = length (net_IP n) \<and>
     big_SetBytes (net_IP n) \<le> big_SetBytes (canon ip) \<and> big_SetBytes (canon ip) < big_SetBytes (net_IP n) + net_size n"
  using assms div_block [of "net_size n" "big_SetBytes (net_IP n)"]
  by (simp add: Contains_canon net_wf_def net_size_def)

lemma net_size_le: "mask_bits n \<le> mask_ones n + 63 \<Longrightarrow> int (net_size n) \<le> 2 ^ 63"
proof -
  assume "mask_bits n \<le> mask_ones n + 63"
  then have "mask_bits n - mask_ones n \<le> 63" by simp
  then have "(2::int) ^ (mask_bits n - mask_ones n) \<le> 2 ^ 63" by (intro power_increasing) auto
  then show ?thesis by (simp add: net_size_def)
qed

lemma block_below:
  assumes "(d::nat) dvd v" "d dvd m" "v < m"
  shows "v + d \<le> m"
  using assms by (metis add.commute dvd_diff_nat dvd_imp_le le_diff_conv2 less_imp_le_nat zero_less_diff)

lemma net_nonempty: "net_wf n \<Longrightarrow> net_IP n \<noteq> []"
  by (auto simp: net_wf_def)

lemma net_lower: "net_wf n \<Longrightarrow> hd (net_IP n) \<noteq> 0 \<Longrightarrow> 256 ^ (length (net_IP n) - 1) \<le> big_SetBytes (net_IP n)"
  by (rule SetBytes_lower [OF net_nonempty])

lemma net_upper: "net_wf n \<Longrightarrow> big_SetBytes (net_IP n) + net_size n \<le> 256 ^ length (net_IP n)"
proof (rule block_below)
  assume wf: "net_wf n"
  then have "(256::nat) ^ length (net_IP n) = 2 ^ mask_bits n" by (auto simp: net_wf_def)
  then show "net_size n dvd 256 ^ length (net_IP n)" using wf by (simp add: net_size_def le_imp_power_dvd)
  show "net_size n dvd big_SetBytes (net_IP n)" using wf by (simp add: net_wf_def net_size_def)
  show "big_SetBytes (net_IP n) < 256 ^ length (net_IP n)" using wf SetBytes_bounded by (simp add: net_wf_def)
qed

lemma net_lengths: "net_wf n \<Longrightarrow> length (net_IP n) = 4 \<or> length (net_IP n) = 16"
  by (auto simp: net_wf_def)

end
