(* ===== verification/Ip_Allocator.thy ===== *)
theory Ip_Allocator
  imports Net_Addresses
begin

text \<open>
  The allocator of service addresses, \<open>pkg/registry/core/service/ipallocator/allocator.go\<close>, over the bitmap
  allocator.  The string form of a network, which only serves as a name of the range, is an argument where it is used.
\<close>

section \<open>Addresses and offsets\<close>

definition bigForIP :: "IP \<Rightarrow> nat" where
  "bigForIP ip =
     big_SetBytes (case To4 ip of Some b \<Rightarrow> b | None \<Rightarrow> (case To16 ip of Some b \<Rightarrow> b | None \<Rightarrow> []))"

definition addIPOffset :: "nat \<Rightarrow> nat \<Rightarrow> IP" where
  "addIPOffset base offset = big_Bytes (base + offset)"

definition calculateIPOffset :: "nat \<Rightarrow> IP \<Rightarrow> int" where
  "calculateIPOffset base ip = signed64 (int (bigForIP ip) - int base)"

definition RangeSize :: "IPNet \<Rightarrow> int" where
  "RangeSize subnet =
     (let ones = mask_ones subnet; bits = mask_bits subnet
      in if (bits = 32 \<and> bits - ones \<ge> 31) \<or> (bits = 128 \<and> bits - ones \<ge> 127) then 0
         else if bits = 128 \<and> bits - ones \<ge> 16 then 2 ^ 16
         else 2 ^ (bits - ones))"

definition GetIndexedIP :: "IPNet \<Rightarrow> nat \<Rightarrow> IP option" where
  "GetIndexedIP subnet index =
     (let ip = addIPOffset (bigForIP (net_IP subnet)) index
      in if \<not> net_Contains ip subnet then None else Some ip)"

section \<open>The range\<close>

datatype ip_error = IpErrFull | IpErrAllocated | IpErrMismatchedNetwork | IpErrNotInRange

record Range =
  r_net :: IPNet
  r_base :: nat
  r_max :: int
  r_alloc :: AllocationBitmap

definition NewCIDRRange :: "(IPNet \<Rightarrow> string) \<Rightarrow> IPNet \<Rightarrow> Range" where
  "NewCIDRRange net_String cidr =
     (let mx = max 0 (RangeSize cidr - 2)
      in \<lparr>r_net = cidr, r_base = bigForIP (net_IP cidr) + 1, r_max = mx,
          r_alloc = NewAllocationMap mx (net_String cidr)\<rparr>)"

definition r_contains :: "IP \<Rightarrow> Range \<Rightarrow> nat option" where
  "r_contains ip r =
     (if \<not> net_Contains ip (r_net r) then None
      else
        (let offset = calculateIPOffset (r_base r) ip
         in if offset < 0 \<or> offset \<ge> r_max r then None else Some (nat offset)))"

definition r_Free :: "Range \<Rightarrow> int" where
  "r_Free r = ab_Free (r_alloc r)"

definition r_Used :: "Range \<Rightarrow> int" where
  "r_Used r = r_max r - ab_Free (r_alloc r)"

definition r_Allocate :: "IP \<Rightarrow> Range \<Rightarrow> ip_error option \<times> Range" where
  "r_Allocate ip r =
     (case r_contains ip r of
        None \<Rightarrow> (Some IpErrNotInRange, r)
      | Some offset \<Rightarrow>
          (case ab_Allocate offset (r_alloc r) of
             (allocated, a) \<Rightarrow> (if \<not> allocated then Some IpErrAllocated else None, r\<lparr>r_alloc := a\<rparr>)))"

definition r_AllocateNext :: "nat \<Rightarrow> Range \<Rightarrow> (ip_error + IP) \<times> Range" where
  "r_AllocateNext rnd r =
     (case ab_AllocateNext rnd (r_alloc r) of
        (None, a) \<Rightarrow> (Inl IpErrFull, r\<lparr>r_alloc := a\<rparr>)
      | (Some offset, a) \<Rightarrow> (Inr (addIPOffset (r_base r) offset), r\<lparr>r_alloc := a\<rparr>))"

definition r_Release :: "IP \<Rightarrow> Range \<Rightarrow> Range" where
  "r_Release ip r =
     (case r_contains ip r of
        None \<Rightarrow> r
      | Some offset \<Rightarrow> r\<lparr>r_alloc := ab_Release offset (r_alloc r)\<rparr>)"

text \<open>The addresses ForEach calls its function with; an address that is not in the network is the nil address.\<close>

definition r_ForEach :: "Range \<Rightarrow> IP list" where
  "r_ForEach r =
     map (\<lambda>offset. case GetIndexedIP (r_net r) (offset + 1) of Some ip \<Rightarrow> ip | None \<Rightarrow> []) (ab_ForEach (r_alloc r))"

definition r_Has :: "IP \<Rightarrow> Range \<Rightarrow> bool" where
  "r_Has ip r = (case r_contains ip r of None \<Rightarrow> False | Some offset \<Rightarrow> ab_Has offset (r_alloc r))"

definition r_Snapshot :: "Range \<Rightarrow> string \<times> nat list" where
  "r_Snapshot r = ab_Snapshot (r_alloc r)"

text \<open>The error of the bitmap's Restore is dropped.\<close>

definition r_Restore :: "(IPNet \<Rightarrow> string) \<Rightarrow> IPNet \<Rightarrow> nat list \<Rightarrow> Range \<Rightarrow> ip_error option \<times> Range" where
  "r_Restore net_String n data r =
     (if \<not> ip_Equal (net_IP n) (net_IP (r_net r)) \<or> (mask_ones n, mask_bits n) \<noteq> (mask_ones (r_net r), mask_bits (r_net r))
      then (Some IpErrMismatchedNetwork, r)
      else (None, case ab_Restore (net_String n) data (r_alloc r) of None \<Rightarrow> r | Some a \<Rightarrow> r\<lparr>r_alloc := a\<rparr>))"

section \<open>The range and its addresses\<close>

lemma bigForIP_canon: "length (canon ip) = 4 \<or> length (canon ip) = 16 \<Longrightarrow> bigForIP ip = big_SetBytes (canon ip)"
  by (auto simp: bigForIP_def canon_def To16_def To4_def)

lemma RangeSize_le: "net_wf n \<Longrightarrow> RangeSize n \<le> int (net_size n)"
proof -
  have "(2::int) ^ 16 \<le> 2 ^ (mask_bits n - mask_ones n)" if "16 \<le> mask_bits n - mask_ones n"
    using that by (intro power_increasing) auto
  then show ?thesis by (auto simp: RangeSize_def net_size_def Let_def)
qed

lemma RangeSize_bound: "net_wf n \<Longrightarrow> RangeSize n \<le> 2 ^ 32"
proof -
  assume "net_wf n"
  then have bits: "mask_bits n = 32 \<or> mask_bits n = 128" by (auto simp: net_wf_def)
  have "(2::int) ^ k \<le> 2 ^ 32" if "k \<le> 32" for k :: nat using that by (intro power_increasing) auto
  then show ?thesis using bits by (auto simp: RangeSize_def Let_def)
qed

definition r_inv :: "IPNet \<Rightarrow> Range \<Rightarrow> bool" where
  "r_inv n r \<longleftrightarrow>
     net_wf n \<and> hd (net_IP n) \<noteq> 0 \<and> r_net r = n \<and> r_base r = big_SetBytes (net_IP n) + 1 \<and>
     r_max r = max 0 (RangeSize n - 2) \<and> ab_max (r_alloc r) = r_max r \<and> ab_inv (r_alloc r)"

text \<open>
  An address a caller may name: its offset in the network, if it is in the network, fits into the 64-bit integer that
  contains computes.  For a network of at most 63 bits of addresses this is every address.
\<close>

definition ip_near :: "IPNet \<Rightarrow> IP \<Rightarrow> bool" where
  "ip_near n ip \<longleftrightarrow>
     bytes_ok ip \<and> (net_Contains ip n \<longrightarrow> big_SetBytes (canon ip) \<le> big_SetBytes (net_IP n) + 2 ^ 63)"

lemma ip_near_small:
  assumes "net_wf n" and "mask_bits n \<le> mask_ones n + 63"
  shows "ip_near n ip \<longleftrightarrow> bytes_ok ip"
proof -
  have "big_SetBytes (canon ip) \<le> big_SetBytes (net_IP n) + 2 ^ 63" if "net_Contains ip n"
    using that net_size_le [OF assms(2)] by (simp add: Contains_interval [OF assms(1)])
  then show ?thesis by (auto simp: ip_near_def)
qed

text \<open>The addresses the range can hand out, by their offset in the network.\<close>

definition ip_in_range :: "IPNet \<Rightarrow> IP \<Rightarrow> bool" where
  "ip_in_range n ip \<longleftrightarrow> net_Contains ip n \<and> big_SetBytes (canon ip) > big_SetBytes (net_IP n)
     \<and> int (big_SetBytes (canon ip)) \<le> int (big_SetBytes (net_IP n)) + RangeSize n - 2"

definition r_ips :: "Range \<Rightarrow> IP set" where
  "r_ips r = addIPOffset (r_base r) ` ab_used (r_alloc r)"

lemma addr_in_net:
  assumes "r_inv n r" "int o' < r_max r"
  shows "length (addIPOffset (r_base r) o') = length (net_IP n)"
    and "canon (addIPOffset (r_base r) o') = addIPOffset (r_base r) o'"
    and "big_SetBytes (addIPOffset (r_base r) o') = r_base r + o'"
    and "r_base r + o' + 1 < big_SetBytes (net_IP n) + net_size n"
proof -
  have wf: "net_wf n" "hd (net_IP n) \<noteq> 0" and base: "r_base r = big_SetBytes (net_IP n) + 1"
    and mx: "r_max r = max 0 (RangeSize n - 2)"
    using assms(1) by (simp_all add: r_inv_def)
  have "int o' < RangeSize n - 2" using assms(2) mx by (simp add: max_def split: if_splits)
  then have "int o' + 2 < int (net_size n)" using RangeSize_le [OF wf(1)] by linarith
  then show hi: "r_base r + o' + 1 < big_SetBytes (net_IP n) + net_size n" using base by simp
  obtain k where k: "length (net_IP n) = Suc k" using net_nonempty [OF wf(1)] by (cases "net_IP n") auto
  have lo: "256 ^ k \<le> r_base r + o'" using net_lower [OF wf] k base by simp
  moreover have "r_base r + o' < 256 ^ Suc k" using net_upper [OF wf(1)] k hi by simp
  ultimately show len: "length (addIPOffset (r_base r) o') = length (net_IP n)"
    using k by (simp add: addIPOffset_def Bytes_length)
  show val: "big_SetBytes (addIPOffset (r_base r) o') = r_base r + o'" by (simp add: addIPOffset_def)
  have "hd (addIPOffset (r_base r) o') \<noteq> 0"
    using hd_nonzero [of "addIPOffset (r_base r) o'" k] len k lo val by (simp add: addIPOffset_def bytes_ok_Bytes)
  then show "canon (addIPOffset (r_base r) o') = addIPOffset (r_base r) o'"
    using len k by (intro canon_nonzero) auto
qed

lemma contains_addr:
  assumes "r_inv n r" "int o' < r_max r"
  shows "r_contains (addIPOffset (r_base r) o') r = Some o'"
proof -
  have wf: "net_wf n" and inv: "r_net r = n" "r_base r = big_SetBytes (net_IP n) + 1" "r_max r = max 0 (RangeSize n - 2)"
    using assms(1) by (simp_all add: r_inv_def)
  note a = addr_in_net [OF assms]
  have "net_Contains (addIPOffset (r_base r) o') n" using a inv(2) by (simp add: Contains_interval [OF wf])
  moreover have "bigForIP (addIPOffset (r_base r) o') = r_base r + o'"
    using a net_lengths [OF wf] by (simp add: bigForIP_canon)
  moreover have "int o' < 2 ^ 63"
    using assms(2) inv(3) RangeSize_bound [OF wf] by (auto simp: max_def split: if_splits)
  then have "signed64 (int o') = int o'" by (intro signed64_id) auto
  ultimately show ?thesis using assms(2) inv(1) by (simp add: r_contains_def calculateIPOffset_def)
qed

lemma addr_inj: "addIPOffset b x = addIPOffset b y \<Longrightarrow> x = y"
  by (metis SetBytes_Bytes add_left_cancel addIPOffset_def)

lemma near_offset:
  assumes "r_inv n r" "ip_near n ip" "net_Contains ip n"
  shows "calculateIPOffset (r_base r) ip = int (big_SetBytes (canon ip)) - int (r_base r)"
proof -
  have wf: "net_wf n" and base: "r_base r = big_SetBytes (net_IP n) + 1" using assms(1) by (simp_all add: r_inv_def)
  let ?x = "big_SetBytes (canon ip)"
  have c: "length (canon ip) = length (net_IP n)" "big_SetBytes (net_IP n) \<le> ?x"
    using assms(3) Contains_interval [OF wf] by blast+
  have near: "?x \<le> big_SetBytes (net_IP n) + 2 ^ 63" using assms(2,3) by (simp add: ip_near_def)
  have big: "bigForIP ip = ?x" using c(1) net_lengths [OF wf] by (intro bigForIP_canon) simp
  show ?thesis
  proof (cases "?x = big_SetBytes (net_IP n)")
    case True
    then show ?thesis using big base by (simp add: calculateIPOffset_def signed64_def Let_def)
  next
    case False
    then have "0 \<le> int ?x - int (r_base r)" using c(2) base by linarith
    moreover have "int ?x \<le> int (big_SetBytes (net_IP n)) + 2 ^ 63" using near by simp
    then have "int ?x - int (r_base r) < 2 ^ 63" using base by simp
    ultimately show ?thesis using big by (simp add: calculateIPOffset_def signed64_id)
  qed
qed

lemma contains_sound:
  assumes "r_inv n r" "ip_near n ip" "r_contains ip r = Some o'"
  shows "int o' < r_max r" "canon ip = addIPOffset (r_base r) o'"
proof -
  have wf: "net_wf n" "hd (net_IP n) \<noteq> 0" and inv: "r_net r = n" "r_base r = big_SetBytes (net_IP n) + 1"
    using assms(1) by (simp_all add: r_inv_def)
  have ok: "bytes_ok ip" using assms(2) by (simp add: ip_near_def)
  let ?x = "big_SetBytes (canon ip)"
  have off: "net_Contains ip n" "o' = nat (calculateIPOffset (r_base r) ip)" "0 \<le> calculateIPOffset (r_base r) ip"
    "calculateIPOffset (r_base r) ip < r_max r"
    using assms(3) inv(1) by (auto simp: r_contains_def Let_def split: if_splits)
  then show "int o' < r_max r" by simp
  have c: "length (canon ip) = length (net_IP n)" "big_SetBytes (net_IP n) \<le> ?x"
    using off(1) Contains_interval [OF wf(1)] by blast+
  have "r_base r + o' = ?x" using off(2,3) near_offset [OF assms(1,2) off(1)] by simp
  moreover obtain k where k: "length (net_IP n) = Suc k" using net_nonempty [OF wf(1)] by (cases "net_IP n") auto
  have "hd (canon ip) \<noteq> 0"
    using hd_nonzero [of "canon ip" k] canon_bytes [OF ok] c(1,2) k net_lower [OF wf] by simp
  then have "big_Bytes ?x = canon ip" using Bytes_SetBytes canon_bytes [OF ok] by blast
  ultimately show "canon ip = addIPOffset (r_base r) o'" by (simp add: addIPOffset_def)
qed

lemma contains_in_range:
  assumes "r_inv n r" "ip_near n ip"
  shows "r_contains ip r \<noteq> None \<longleftrightarrow> ip_in_range n ip"
proof (cases "net_Contains ip n")
  case False
  then show ?thesis using assms(1) by (simp add: r_contains_def r_inv_def ip_in_range_def)
next
  case True
  have "r_base r = big_SetBytes (net_IP n) + 1" "r_max r = max 0 (RangeSize n - 2)" "r_net r = n"
    using assms(1) by (simp_all add: r_inv_def)
  with True near_offset [OF assms True] show ?thesis
    by (auto simp: r_contains_def ip_in_range_def Let_def split: if_splits)
qed

lemma contains_canon: "net_wf (r_net r) \<Longrightarrow> r_contains (canon ip) r = r_contains ip r"
proof (cases "net_Contains ip (r_net r)")
  case True
  assume wf: "net_wf (r_net r)"
  with True have "bigForIP (canon ip) = bigForIP ip"
    using bigForIP_canon [of ip] bigForIP_canon [of "canon ip"] net_lengths [OF wf] by (simp add: canon_idem Contains_canon)
  with wf show ?thesis by (simp add: r_contains_def Contains_canon canon_idem calculateIPOffset_def)
next
  case False
  assume "net_wf (r_net r)"
  with False show ?thesis by (simp add: r_contains_def Contains_canon canon_idem)
qed

lemma contains_None:
  assumes "r_inv n r" "r_contains ip r = None"
  shows "canon ip \<notin> r_ips r"
proof
  assume "canon ip \<in> r_ips r"
  then obtain o' where o: "o' \<in> ab_used (r_alloc r)" "canon ip = addIPOffset (r_base r) o'" by (auto simp: r_ips_def)
  have "int o' < r_max r" using o(1) assms(1) bitmap.used_bound [of "r_alloc r"] by (auto simp: r_inv_def ab_capacity_def)
  note c = contains_addr [OF assms(1) this]
  have "r_contains ip r = r_contains (canon ip) r" using assms(1) by (simp add: contains_canon r_inv_def)
  with c o(2) assms(2) show False by simp
qed

lemma ips_addr: "addIPOffset (r_base r) x \<in> r_ips r \<longleftrightarrow> x \<in> ab_used (r_alloc r)"
  by (auto simp: r_ips_def dest: addr_inj)

lemma r_invD: "r_inv n r \<Longrightarrow> ab_inv (r_alloc r)" "r_inv n r \<Longrightarrow> net_wf n" "r_inv n r \<Longrightarrow> ab_max (r_alloc r) = r_max r"
  "r_inv n r \<Longrightarrow> r_net r = n"
  by (simp_all add: r_inv_def)

lemma used_offset: "r_inv n r \<Longrightarrow> x \<in> ab_used (r_alloc r) \<Longrightarrow> int x < r_max r"
  using subsetD [OF bitmap.used_bound [OF r_invD(1)], of n r x] r_invD(3) [of n r] by (simp add: ab_capacity_def)

lemma r_inv_alloc: "r_inv n r \<Longrightarrow> ab_inv a \<Longrightarrow> ab_max a = r_max r \<Longrightarrow> r_inv n (r\<lparr>r_alloc := a\<rparr>)"
  by (simp add: r_inv_def)

lemma r_Has_iff:
  assumes "r_inv n r" "ip_near n ip"
  shows "r_Has ip r \<longleftrightarrow> canon ip \<in> r_ips r"
proof (cases "r_contains ip r")
  case None
  then show ?thesis using contains_None [OF assms(1) None] by (simp add: r_Has_def)
next
  case (Some x)
  then show ?thesis
    using contains_sound(2) [OF assms Some] bitmap.has_law [OF r_invD(1) [OF assms(1)], of x] ips_addr [of r x]
    by (simp add: r_Has_def)
qed

lemma r_Allocate_law:
  assumes "r_inv n r" "ip_near n ip" "r_Allocate ip r = (e, r')"
  shows "r_inv n r'"
    and "e = (if r_contains ip r = None then Some IpErrNotInRange else if canon ip \<in> r_ips r then Some IpErrAllocated else None)"
    and "r_ips r' = (if r_contains ip r = None then r_ips r else insert (canon ip) (r_ips r))"
proof -
  have "r_inv n r' \<and>
      e = (if r_contains ip r = None then Some IpErrNotInRange else if canon ip \<in> r_ips r then Some IpErrAllocated else None) \<and>
      r_ips r' = (if r_contains ip r = None then r_ips r else insert (canon ip) (r_ips r))"
  proof (cases "r_contains ip r")
    case None
    then show ?thesis using assms by (simp add: r_Allocate_def)
  next
    case (Some x)
    note c = contains_sound [OF assms(1,2) Some]
    have "x < ab_capacity (r_alloc r)" using c(1) r_invD(3) [OF assms(1)] by (simp add: ab_capacity_def)
    note l = bitmap.allocate_law [OF r_invD(1) [OF assms(1)] this]
    have r': "r' = r\<lparr>r_alloc := snd (ab_Allocate x (r_alloc r))\<rparr>"
      "e = (if \<not> fst (ab_Allocate x (r_alloc r)) then Some IpErrAllocated else None)"
      using assms(3) Some by (auto simp: r_Allocate_def case_prod_beta)
    have "r_inv n r'"
      using r_inv_alloc [OF assms(1)] l ab_max_kept(1) [of x "r_alloc r"] r_invD(3) [OF assms(1)] r'(1) by simp
    moreover have "canon ip \<in> r_ips r \<longleftrightarrow> x \<in> ab_used (r_alloc r)" using ips_addr [of r x] c(2) by simp
    ultimately show ?thesis using l c(2) r' Some by (simp add: r_ips_def)
  qed
  then show "r_inv n r'"
    and "e = (if r_contains ip r = None then Some IpErrNotInRange else if canon ip \<in> r_ips r then Some IpErrAllocated else None)"
    and "r_ips r' = (if r_contains ip r = None then r_ips r else insert (canon ip) (r_ips r))" by simp_all
qed

lemma r_Release_law:
  assumes "r_inv n r" "ip_near n ip"
  shows "r_inv n (r_Release ip r) \<and> r_ips (r_Release ip r) = r_ips r - {canon ip}"
proof (cases "r_contains ip r")
  case None
  then show ?thesis using assms contains_None [OF assms(1) None] by (simp add: r_Release_def)
next
  case (Some x)
  note c = contains_sound [OF assms Some]
  note l = bitmap.release_law [OF r_invD(1) [OF assms(1)], of x]
  have "addIPOffset (r_base r) ` (ab_used (r_alloc r) - {x}) = r_ips r - {canon ip}"
    using c(2) by (auto simp: r_ips_def dest: addr_inj)
  moreover have "r_inv n (r\<lparr>r_alloc := ab_Release x (r_alloc r)\<rparr>)"
    using r_inv_alloc [OF assms(1)] l ab_max_kept(3) [of x "r_alloc r"] r_invD(3) [OF assms(1)] by simp
  ultimately show ?thesis using Some l by (simp add: r_Release_def r_ips_def)
qed

lemma r_AllocateNext_cases:
  assumes "r_inv n r"
  obtains (got) x r' where "r_AllocateNext rnd r = (Inr (addIPOffset (r_base r) x), r')" and "int x < r_max r"
      and "addIPOffset (r_base r) x \<notin> r_ips r" and "r_inv n r'" and "r_ips r' = insert (addIPOffset (r_base r) x) (r_ips r)"
    | (full) "r_AllocateNext rnd r = (Inl IpErrFull, r)" and "ab_used (r_alloc r) = {..<nat (r_max r)}"
proof (cases "ab_used (r_alloc r) = {..<ab_capacity (r_alloc r)}")
  case True
  show thesis
    using True bitmap.full_law [OF r_invD(1) [OF assms] True, of rnd] r_invD(3) [OF assms]
    by (intro full) (simp_all add: r_AllocateNext_def ab_capacity_def)
next
  case False
  from bitmap.next_law [OF r_invD(1) [OF assms] False, of rnd] obtain x a
    where n: "ab_AllocateNext rnd (r_alloc r) = (Some x, a)" "x < ab_capacity (r_alloc r)" "x \<notin> ab_used (r_alloc r)"
      "ab_inv a" "ab_used a = insert x (ab_used (r_alloc r))" by blast
  have mx: "ab_max a = r_max r" using ab_max_kept(2) [of rnd "r_alloc r"] n(1) r_invD(3) [OF assms] by simp
  show thesis
  proof (rule got)
    show "r_AllocateNext rnd r = (Inr (addIPOffset (r_base r) x), r\<lparr>r_alloc := a\<rparr>)" using n(1) by (simp add: r_AllocateNext_def)
    show "int x < r_max r" using n(2) r_invD(3) [OF assms] by (simp add: ab_capacity_def)
    show "addIPOffset (r_base r) x \<notin> r_ips r" using n(3) ips_addr by simp
    show "r_inv n (r\<lparr>r_alloc := a\<rparr>)" using r_inv_alloc [OF assms n(4) mx] .
    show "r_ips (r\<lparr>r_alloc := a\<rparr>) = insert (addIPOffset (r_base r) x) (r_ips r)" using n(5) by (simp add: r_ips_def)
  qed
qed

lemma r_ForEach_ips:
  assumes "r_inv n r"
  shows "set (r_ForEach r) = r_ips r"
proof -
  have "(case GetIndexedIP (r_net r) (x + 1) of Some ip \<Rightarrow> ip | None \<Rightarrow> []) = addIPOffset (r_base r) x"
    if "x \<in> ab_used (r_alloc r)" for x
  proof -
    have x: "int x < r_max r" using used_offset [OF assms that] .
    have "bigForIP (net_IP n) = big_SetBytes (net_IP n)"
      using bigForIP_canon [of "net_IP n"] canon_net [OF r_invD(2) [OF assms]] net_lengths [OF r_invD(2) [OF assms]] by simp
    then have "addIPOffset (bigForIP (net_IP n)) (x + 1) = addIPOffset (r_base r) x"
      using assms by (simp add: r_inv_def addIPOffset_def)
    moreover have "net_Contains (addIPOffset (r_base r) x) n"
      using contains_addr [OF assms x] r_invD(4) [OF assms] by (auto simp: r_contains_def split: if_splits)
    ultimately show ?thesis using r_invD(4) [OF assms] by (simp add: GetIndexedIP_def)
  qed
  moreover have "set (ab_ForEach (r_alloc r)) = ab_used (r_alloc r)"
    using forEachWord_spec [of 0 "ab_allocated (r_alloc r)"] by (simp add: ab_ForEach_def ab_used_def)
  ultimately show ?thesis by (simp add: r_ForEach_def r_ips_def)
qed

section \<open>Correctness of the address allocator\<close>

text \<open>
  The operations on a range, with the set of the addresses that are allocated.  The first byte of the
  network is not zero.  A restored snapshot is one that a range of the same network took.
\<close>

inductive r_run :: "(IPNet \<Rightarrow> string) \<Rightarrow> IPNet \<Rightarrow> Range \<Rightarrow> IP set \<Rightarrow> bool" for net_String n where
  new: "r_run net_String n (NewCIDRRange net_String n) {}" if "net_wf n" "hd (net_IP n) \<noteq> 0"
| allocate: "r_run net_String n r' (insert (canon ip) S)" if "r_run net_String n r S" "ip_near n ip" "r_Allocate ip r = (None, r')"
| allocate_error: "r_run net_String n r' S" if "r_run net_String n r S" "ip_near n ip" "r_Allocate ip r = (Some e, r')"
| allocate_next: "r_run net_String n r' (insert ip S)" if "r_run net_String n r S" "r_AllocateNext rnd r = (Inr ip, r')"
| allocate_full: "r_run net_String n r' S" if "r_run net_String n r S" "r_AllocateNext rnd r = (Inl e, r')"
| release: "r_run net_String n (r_Release ip r) (S - {canon ip})" if "r_run net_String n r S" "ip_near n ip"
| restore: "r_run net_String n r' T" if "r_run net_String n r S" "r_run net_String n b T"
    "r_Restore net_String n (snd (r_Snapshot b)) r = (None, r')"
| restore_error: "r_run net_String n r' S" if "r_run net_String n r S" "r_Restore net_String m data r = (Some e, r')"

lemma r_inv_new:
  "net_wf n \<Longrightarrow> hd (net_IP n) \<noteq> 0 \<Longrightarrow> r_inv n (NewCIDRRange str n) \<and> r_ips (NewCIDRRange str n) = {}"
proof -
  assume wf: "net_wf n" "hd (net_IP n) \<noteq> 0"
  then have "bigForIP (net_IP n) = big_SetBytes (net_IP n)"
    using bigForIP_canon [of "net_IP n"] canon_net [of n] net_lengths [of n] by simp
  then show ?thesis
    using wf ab_inv_new [of "max 0 (RangeSize n - 2)" "str n"]
    by (simp add: NewCIDRRange_def r_inv_def r_ips_def Let_def) (simp add: NewAllocationMap_def)
qed

lemma rangeSpec_kept:
  "ab_rangeSpec (r_alloc (snd (r_Allocate ip r))) = ab_rangeSpec (r_alloc r)"
  "ab_rangeSpec (r_alloc (snd (r_AllocateNext rnd r))) = ab_rangeSpec (r_alloc r)"
  "ab_rangeSpec (r_alloc (r_Release ip r)) = ab_rangeSpec (r_alloc r)"
  "ab_rangeSpec (r_alloc (snd (r_Restore str n data r))) = ab_rangeSpec (r_alloc r)"
  by (simp_all add: r_Allocate_def r_AllocateNext_def r_Release_def r_Restore_def ab_Allocate_def ab_AllocateNext_def
      ab_Release_def ab_Restore_def Let_def split: option.split)

lemma r_run_spec: "r_run str n r S \<Longrightarrow> ab_rangeSpec (r_alloc r) = str n"
proof (induction rule: r_run.induct)
  case new
  then show ?case by (simp add: NewCIDRRange_def NewAllocationMap_def Let_def)
qed (metis rangeSpec_kept snd_conv)+

lemma r_Restore_law:
  assumes "r_inv n r" "r_inv n b" "ab_rangeSpec (r_alloc r) = str n" "r_Restore str n (snd (r_Snapshot b)) r = (None, r')"
  shows "r_inv n r' \<and> r_ips r' = r_ips b"
proof -
  let ?data = "snd (ab_Snapshot (r_alloc b))"
  obtain a where a: "ab_Restore (str n) ?data (r_alloc r) = Some a" using assms(3) by (simp add: ab_Restore_def Let_def)
  have mx: "ab_max (r_alloc r) = ab_max (r_alloc b)" "ab_max a = r_max r" "r_base r = r_base b"
    using a assms(1,2) by (auto simp: r_inv_def ab_Restore_def Let_def split: if_splits)
  note l = Restore_Snapshot [OF r_invD(1) [OF assms(2)] mx(1) a]
  have "r' = r\<lparr>r_alloc := a\<rparr>" using assms(4) a by (auto simp: r_Restore_def r_Snapshot_def split: if_splits)
  then show ?thesis using r_inv_alloc [OF assms(1)] l mx(2,3) by (simp add: r_ips_def)
qed

lemma r_run_inv: "r_run str n r S \<Longrightarrow> r_inv n r \<and> r_ips r = S"
proof (induction rule: r_run.induct)
  case new
  then show ?case by (simp add: r_inv_new)
next
  case (allocate r S ip r')
  then show ?case using r_Allocate_law [of n r ip None r'] by (auto split: if_splits)
next
  case (allocate_error r S ip e r')
  then show ?case using r_Allocate_law [of n r ip "Some e" r'] by (auto split: if_splits)
next
  case (allocate_next r S rnd ip r')
  then have "r_inv n r" by simp
  then show ?case by (cases rule: r_AllocateNext_cases [of n r rnd]) (use allocate_next in auto)
next
  case (allocate_full r S rnd e r')
  then have "r_inv n r" by simp
  then show ?case by (cases rule: r_AllocateNext_cases [of n r rnd]) (use allocate_full in auto)
next
  case (release r S ip)
  then show ?case using r_Release_law [of n r ip] by simp
next
  case (restore r S b T r')
  then show ?case using r_Restore_law [of n r b str r'] r_run_spec [of str n r S] by simp
next
  case (restore_error r S m data e r')
  then show ?case by (simp add: r_Restore_def split: if_splits)
qed

text \<open>An address of the network that is neither the network's own nor the broadcast address.\<close>

definition ip_usable :: "IPNet \<Rightarrow> IP \<Rightarrow> bool" where
  "ip_usable n ip \<longleftrightarrow>
     length ip = length (net_IP n) \<and> net_Contains ip n \<and> ip \<noteq> net_IP n \<and>
     big_SetBytes ip + 1 < big_SetBytes (net_IP n) + net_size n"

lemma addr_usable:
  assumes "r_inv n r" "int x < r_max r"
  shows "ip_usable n (addIPOffset (r_base r) x)"
proof -
  note a = addr_in_net [OF assms]
  have "r_base r = big_SetBytes (net_IP n) + 1" using assms(1) by (simp add: r_inv_def)
  moreover have "net_Contains (addIPOffset (r_base r) x) n"
    using contains_addr [OF assms] r_invD(4) [OF assms(1)] by (auto simp: r_contains_def split: if_splits)
  ultimately show ?thesis using a by (auto simp: ip_usable_def)
qed

lemma addr_near:
  assumes "r_inv n r" "int x < r_max r"
  shows "ip_near n (addIPOffset (r_base r) x)"
proof -
  note a = addr_in_net [OF assms]
  have "r_base r = big_SetBytes (net_IP n) + 1" "r_max r \<le> 2 ^ 32"
    using assms(1) RangeSize_bound [of n] by (auto simp: r_inv_def max_def)
  then show ?thesis using a assms(2) by (simp add: ip_near_def) (simp add: addIPOffset_def bytes_ok_Bytes)
qed

lemma Used_card: "r_inv n r \<Longrightarrow> r_Used r = int (card (r_ips r))"
proof -
  assume inv: "r_inv n r"
  have "card (r_ips r) = card (ab_used (r_alloc r))"
    unfolding r_ips_def by (rule card_image) (auto intro: inj_onI dest: addr_inj)
  then show ?thesis using r_invD(1,3) [OF inv] by (simp add: r_Used_def ab_Free_def ab_inv_def ab_used_def)
qed

text \<open>C35. Whatever addresses were allocated and released and whatever snapshots of the network were restored, the
  range holds exactly the allocated addresses, all of them usable addresses of the network, and Used is their
  number.  Allocate fails exactly for an address that is outside the range and for one that is allocated.
  AllocateNext returns a usable address that nobody holds, in the length of the network's address, and marks
  it; it fails only when as many addresses are allocated as the range has.  The first byte of the network is not
  zero, and an address that a caller names lies within \<open>2 ^ 63\<close> of the network's address.\<close>

theorem ip_allocator_correct:
  assumes "r_run net_String n r S"
  shows "(\<forall>ip \<in> S. ip_usable n ip) \<and> set (r_ForEach r) = S \<and> r_Used r = int (card S)
    \<and> (\<forall>ip. ip_near n ip \<longrightarrow> (r_Has ip r \<longleftrightarrow> canon ip \<in> S) \<and>
        fst (r_Allocate ip r) = (if \<not> ip_in_range n ip then Some IpErrNotInRange
          else if canon ip \<in> S then Some IpErrAllocated else None))
    \<and> (case r_AllocateNext rnd r of
         (Inr ip, r') \<Rightarrow> ip_usable n ip \<and> ip \<notin> S \<and> r_Has ip r' \<and> set (r_ForEach r') = insert ip S
       | (Inl e, r') \<Rightarrow> e = IpErrFull \<and> r' = r \<and> int (card S) = max 0 (RangeSize n - 2))"
proof -
  have inv: "r_inv n r" "r_ips r = S" using r_run_inv [OF assms] by simp_all
  have "ip_usable n ip" if "ip \<in> S" for ip
    using that inv(2) addr_usable [OF inv(1) used_offset [OF inv(1)]] by (auto simp: r_ips_def)
  moreover have "case r_AllocateNext rnd r of
         (Inr ip, r') \<Rightarrow> ip_usable n ip \<and> ip \<notin> S \<and> r_Has ip r' \<and> set (r_ForEach r') = insert ip S
       | (Inl e, r') \<Rightarrow> e = IpErrFull \<and> r' = r \<and> int (card S) = max 0 (RangeSize n - 2)"
    using inv(1)
  proof (cases rule: r_AllocateNext_cases [where rnd = rnd])
    case (got x r')
    have "r_Has (addIPOffset (r_base r) x) r'" if "ip_near n (addIPOffset (r_base r) x)"
      using r_Has_iff [OF got(4) that] got(5) addr_in_net(2) [OF inv(1) got(2)] by simp
    then show ?thesis
      using got addr_usable [OF inv(1) got(2)] r_ForEach_ips [OF got(4)] inv(2) addr_near [OF inv(1) got(2)] by simp
  next
    case full
    have "r_Used r = int (nat (r_max r))"
      using full(2) r_invD(1,3) [OF inv(1)] by (simp add: r_Used_def ab_Free_def ab_inv_def ab_used_def)
    then show ?thesis using full(1) Used_card [OF inv(1)] inv by (simp add: r_inv_def)
  qed
  moreover have "fst (r_Allocate ip r) = (if \<not> ip_in_range n ip then Some IpErrNotInRange
      else if canon ip \<in> S then Some IpErrAllocated else None)" if "ip_near n ip" for ip
    using r_Allocate_law(2) [OF inv(1) that, of "fst (r_Allocate ip r)" "snd (r_Allocate ip r)"]
      contains_in_range [OF inv(1) that] inv(2) by (cases "r_contains ip r") simp_all
  ultimately show ?thesis using r_ForEach_ips [OF inv(1)] Used_card [OF inv(1)] r_Has_iff [OF inv(1)] inv(2) by blast
qed

text \<open>The network 10.0.0.0/29.\<close>

definition example_net :: IPNet where
  "example_net = \<lparr>net_IP = [10, 0, 0, 0], mask_ones = 29, mask_bits = 32\<rparr>"

lemma example_net_wf: "net_wf example_net" "hd (net_IP example_net) \<noteq> 0"
  by (simp_all add: example_net_def net_wf_def bytes_ok_def big_SetBytes_def)

definition example_range :: Range where
  "example_range = NewCIDRRange (\<lambda>n. ''10.0.0.0/29'') example_net"

lemma example_next: "r_AllocateNext 2 example_range =
    (Inr [10, 0, 0, 3], example_range\<lparr>r_alloc := (r_alloc example_range)\<lparr>ab_count := 1, ab_allocated := 4\<rparr>\<rparr>)"
  by (simp add: example_range_def example_net_def NewCIDRRange_def RangeSize_def r_AllocateNext_def ab_AllocateNext_def
      NewAllocationMap_def AllocateBit_def scan.simps bigForIP_def To4_def big_SetBytes_def addIPOffset_def big_Bytes_def
      bytesLE.simps set_bit_eq Let_def)

theorem ip_allocator_correct_witness:
  "ip_usable example_net [10, 0, 0, 3] \<and> set (r_ForEach (snd (r_AllocateNext 2 example_range))) = {[10, 0, 0, 3]}"
proof -
  have "r_run (\<lambda>n. ''10.0.0.0/29'') example_net example_range {}"
    unfolding example_range_def by (rule r_run.new [OF example_net_wf])
  from ip_allocator_correct [OF this, of 2] show ?thesis by (simp add: example_next)
qed

section \<open>Where the address allocator fails\<close>

lemma bytesLE_short: "m < 256 ^ k \<Longrightarrow> length (bytesLE m) \<le> k"
proof (induction k arbitrary: m)
  case (Suc k)
  then have "m div 256 < 256 ^ k" by (simp add: less_mult_imp_div_less mult.commute)
  with Suc.IH show ?case by (simp add: bytesLE.simps [of m])
qed simp

lemma zero_byte_block:
  assumes "net_wf n" "hd (net_IP n) = 0" "8 \<le> mask_ones n"
  shows "big_SetBytes (net_IP n) + net_size n \<le> 256 ^ (length (net_IP n) - 1)"
proof (rule block_below)
  show "net_size n dvd big_SetBytes (net_IP n)" using assms(1) by (simp add: net_wf_def net_size_def)
  obtain bs where bs: "net_IP n = 0 # bs" using assms(1,2) net_nonempty [of n] by (cases "net_IP n") auto
  then show "big_SetBytes (net_IP n) < 256 ^ (length (net_IP n) - 1)"
    using assms(1) SetBytes_bounded [of bs] by (simp add: net_wf_def bytes_ok_def SetBytes_Cons0)
  have "(256::nat) ^ (length (net_IP n) - 1) = 2 ^ (mask_bits n - 8)" using assms(1) by (auto simp: net_wf_def)
  then show "net_size n dvd 256 ^ (length (net_IP n) - 1)"
    using assms(3) by (simp add: net_size_def le_imp_power_dvd)
qed

text \<open>C36. In a network whose first byte is zero, such as 64:ff9b::/112, the address AllocateNext returns has lost its
  leading zero byte: it is shorter than the network's addresses, is not in the network, and releasing it changes
  nothing, so that its offset stays in use.\<close>

theorem leading_zero_lost:
  assumes "net_wf n" and "hd (net_IP n) = 0" and "8 \<le> mask_ones n"
    and "r_AllocateNext rnd (NewCIDRRange net_String n) = (Inr ip, r')"
  shows "length ip < length (net_IP n) \<and> \<not> net_Contains ip n \<and> r_Release ip r' = r' \<and> r_Used r' = 1"
proof -
  let ?r = "NewCIDRRange net_String n" and ?mx = "max 0 (RangeSize n - 2)"
  have r: "r_net ?r = n" "r_base ?r = big_SetBytes (net_IP n) + 1" "r_alloc ?r = NewAllocationMap ?mx (net_String n)" "r_max ?r = ?mx"
    using bigForIP_canon [of "net_IP n"] canon_net [OF assms(1)] net_lengths [OF assms(1)]
    by (simp_all add: NewCIDRRange_def Let_def)
  obtain x a where x: "ab_AllocateNext rnd (r_alloc ?r) = (Some x, a)" "ip = addIPOffset (r_base ?r) x" "r' = ?r\<lparr>r_alloc := a\<rparr>"
    using assms(4) by (auto simp: r_AllocateNext_def split: prod.splits option.splits)
  have new: "ab_inv (r_alloc ?r)" "ab_used (r_alloc ?r) = {}" "ab_max (r_alloc ?r) = ?mx"
    using ab_inv_new [of ?mx] r(3) by (simp_all add: NewAllocationMap_def)
  have "ab_used (r_alloc ?r) \<noteq> {..<ab_capacity (r_alloc ?r)}" using bitmap.full_law [OF new(1), of rnd] x(1) by auto
  from bitmap.next_law [OF new(1) this, of rnd] x(1)
  have a: "x < ab_capacity (r_alloc ?r)" "ab_inv a" "ab_used a = {x}" using new(2) by auto
  have "int x + 2 < int (net_size n)" using a(1) new(3) RangeSize_le [OF assms(1)] by (simp add: ab_capacity_def)
  then have "r_base ?r + x < 256 ^ (length (net_IP n) - 1)" using zero_byte_block [OF assms(1-3)] r(2) by linarith
  then have "length ip \<le> length (net_IP n) - 1" using x(2) by (simp add: addIPOffset_def big_Bytes_def bytesLE_short)
  then have short: "length ip < length (net_IP n)" using net_nonempty [OF assms(1)] by (cases "net_IP n") auto
  then have "canon ip = ip" using net_lengths [OF assms(1)] by (intro canon_short) auto
  then have out: "\<not> net_Contains ip n" using short by (simp add: Contains_canon [OF assms(1)])
  then have "r_Release ip r' = r'" using x(3) r(1) by (simp add: r_Release_def r_contains_def)
  moreover have "ab_max a = ?mx" using ab_max_kept(2) [of rnd "r_alloc ?r"] x(1) new(3) by simp
  then have "r_Used r' = 1" using a(2,3) x(3) r(4) by (simp add: r_Used_def ab_Free_def ab_inv_def ab_used_def)
  ultimately show ?thesis using short out by simp
qed

text \<open>The network 64:ff9b::/112.\<close>

definition nat64_net :: IPNet where
  "nat64_net = \<lparr>net_IP = [0, 100, 255, 155, 0, 0, 0, 0, 0, 0, 0, 0, 0, 0, 0, 0], mask_ones = 112, mask_bits = 128\<rparr>"

theorem leading_zero_lost_witness:
  "case r_AllocateNext 4 (NewCIDRRange (\<lambda>n. ''64:ff9b::/112'') nat64_net) of
     (Inr ip, r') \<Rightarrow> length ip < 16 \<and> r_Release ip r' = r' \<and> r_Used r' = 1
   | (Inl e, r') \<Rightarrow> False"
proof -
  have wf: "net_wf nat64_net" "hd (net_IP nat64_net) = 0" "8 \<le> mask_ones nat64_net"
    by (simp_all add: nat64_net_def net_wf_def bytes_ok_def big_SetBytes_def To4_def replicate_10)
  obtain ip r' where "r_AllocateNext 4 (NewCIDRRange (\<lambda>n. ''64:ff9b::/112'') nat64_net) = (Inr ip, r')"
    by (simp add: nat64_net_def NewCIDRRange_def RangeSize_def r_AllocateNext_def ab_AllocateNext_def
        NewAllocationMap_def AllocateBit_def scan.simps Let_def)
  from leading_zero_lost [OF wf this] this show ?thesis by (simp add: nat64_net_def)
qed

text \<open>
  In a network of more than 64 bits, contains takes an address for another one: the difference of the address and
  the base is cut to 64 bits.  Here fd00:0:0:1::6 of fd00::/32 is taken for fd00::6.
\<close>

definition large_net :: IPNet where
  "large_net = \<lparr>net_IP = [253, 0, 0, 0, 0, 0, 0, 0, 0, 0, 0, 0, 0, 0, 0, 0], mask_ones = 32, mask_bits = 128\<rparr>"

lemma large_network_confuses:
  "r_contains ([253, 0, 0, 0, 0, 0, 0, 1, 0, 0, 0, 0, 0, 0, 0, 6]) (NewCIDRRange net_String large_net) = Some 5"
  "r_contains ([253, 0, 0, 0, 0, 0, 0, 0, 0, 0, 0, 0, 0, 0, 0, 6]) (NewCIDRRange net_String large_net) = Some 5"
  by (simp_all add: r_contains_def net_Contains_def NewCIDRRange_def large_net_def To4_def To16_def RangeSize_def
      calculateIPOffset_def bigForIP_def big_SetBytes_def signed64_def Let_def replicate_10)

end
