(* ===== verification/Cidr_Set.thy ===== *)
theory Cidr_Set
  imports Net_Addresses
begin

text \<open>
  The allocator of the subnets of nodes, \<open>pkg/controller/nodeipam/ipam/cidrset/cidr_set.go\<close>.  The bits of \<open>used\<close> are a
  natural number; the numbers of type uint32 and uint64 are natural numbers with the wrap-around written out.  The
  methods run under the lock.  A panic is the result None.
\<close>

unbundle bit_operations_syntax

section \<open>Machine integers and bytes\<close>

text \<open>The shifts of an unsigned number of \<open>w\<close> bits; a negative count is converted to a large one.\<close>

definition shl :: "nat \<Rightarrow> nat \<Rightarrow> int \<Rightarrow> nat" where
  "shl w x k = (if k < 0 then 0 else (x * 2 ^ nat k) mod 2 ^ w)"

definition shr :: "nat \<Rightarrow> int \<Rightarrow> nat" where
  "shr x k = (if k < 0 then 0 else x div 2 ^ nat k)"

text \<open>Uint32 and Uint64 of the package binary read the first bytes, PutUint32 and PutUint64 write them.\<close>

definition BE_Uint32 :: "nat list \<Rightarrow> nat" where
  "BE_Uint32 bs = big_SetBytes (take 4 bs)"

definition BE_Uint64 :: "nat list \<Rightarrow> nat" where
  "BE_Uint64 bs = big_SetBytes (take 8 bs)"

primrec putBE :: "nat \<Rightarrow> nat \<Rightarrow> nat list" where
  "putBE 0 v = []"
| "putBE (Suc k) v = putBE k (v div 256) @ [v mod 256]"

text \<open>The number of bits of a uint64, 64 minus its leading zeros.\<close>

fun bitLen :: "nat \<Rightarrow> nat" where
  "bitLen x = (if x = 0 then 0 else Suc (bitLen (x div 2)))"

declare bitLen.simps [simp del]

definition mask_value :: "nat \<Rightarrow> nat \<Rightarrow> nat" where
  "mask_value ones bits = 2 ^ bits - 2 ^ (bits - ones)"

definition CIDRMask :: "nat \<Rightarrow> nat \<Rightarrow> nat list" where
  "CIDRMask ones bits = putBE (bits div 8) (mask_value ones bits)"

text \<open>The address masked, or the empty list, which stands for nil, where there is no such mask or it is of another family.\<close>

definition ip_Mask :: "IP \<Rightarrow> nat \<Rightarrow> nat \<Rightarrow> IP" where
  "ip_Mask ip ones bits =
     (if ones > bits then []
      else if bits = 128 \<and> length ip = 4
      then (if ones \<ge> 96 then putBE 4 (big_SetBytes ip AND mask_value (ones - 96) 32) else [])
      else
        (let x = (if bits = 32 \<and> length ip = 16 then (case To4 ip of Some y \<Rightarrow> y | None \<Rightarrow> ip) else ip)
         in if 8 * length x \<noteq> bits then [] else putBE (length x) (big_SetBytes x AND mask_value ones bits)))"

section \<open>The set of subnets\<close>

record CidrSet =
  cs_clusterCIDR :: IPNet
  cs_clusterIP :: IP
  cs_clusterMaskSize :: nat
  cs_maxCIDRs :: int
  cs_nextCandidate :: nat
  cs_used :: nat
  cs_subNetMaskSize :: nat

datatype cidr_error = ErrCIDRRangeNoCIDRsRemaining | ErrCIDRSetSubNetTooBig | ErrCIDRNil | ErrCIDROutOfRange | ErrInvalidIP

definition clusterSubnetMaxDiff :: int where
  "clusterSubnetMaxDiff = 16"

definition NewCIDRSet :: "IPNet \<Rightarrow> nat \<Rightarrow> cidr_error + CidrSet" where
  "NewCIDRSet clusterCIDR subNetMaskSize =
     (let clusterMaskSize = mask_ones clusterCIDR; diff = int subNetMaskSize - int clusterMaskSize
      in if To4 (net_IP clusterCIDR) = None \<and> diff > clusterSubnetMaxDiff then Inl ErrCIDRSetSubNetTooBig
         else Inr \<lparr>cs_clusterCIDR = clusterCIDR, cs_clusterIP = net_IP clusterCIDR, cs_clusterMaskSize = clusterMaskSize,
                   cs_maxCIDRs = (if diff < 0 then 0 else signed64 (2 ^ nat diff)), cs_nextCandidate = 0, cs_used = 0,
                   cs_subNetMaskSize = subNetMaskSize\<rparr>)"

definition indexToCIDRBlock :: "nat \<Rightarrow> CidrSet \<Rightarrow> IPNet" where
  "indexToCIDRBlock index s =
     (let sub = cs_subNetMaskSize s; cip = cs_clusterIP s
      in if To4 cip \<noteq> None then
           (let j = shl 32 (index mod 2 ^ 32) (32 - int sub);
                ipInt = BE_Uint32 cip OR j
            in \<lparr>net_IP = putBE 4 ipInt, mask_ones = sub, mask_bits = 32\<rparr>)
         else if To16 cip \<noteq> None then
           (let leftClusterIP = BE_Uint64 (take 8 cip);
                rightClusterIP = BE_Uint64 (drop 8 cip);
                (l, r) =
                  (if sub \<le> 64 then (leftClusterIP OR shl 64 index (64 - int sub), rightClusterIP)
                   else
                     (let btl = sub - 64; indexMaxBit = bitLen index
                      in (if cs_clusterMaskSize s < 64 \<and> indexMaxBit > btl then leftClusterIP OR shr index (int btl) else leftClusterIP,
                          rightClusterIP OR shl 64 index (128 - int sub))))
            in \<lparr>net_IP = putBE 8 l @ putBE 8 r, mask_ones = sub, mask_bits = 128\<rparr>)
         else \<lparr>net_IP = [], mask_ones = sub, mask_bits = 0\<rparr>)"

text \<open>The loop of AllocateNext, from the candidate number \<open>i\<close>.\<close>

function findUnused :: "nat \<Rightarrow> CidrSet \<Rightarrow> nat option" where
  "findUnused i s =
     (if int i < cs_maxCIDRs s
      then (let candidate = (i + cs_nextCandidate s) mod nat (cs_maxCIDRs s)
            in if \<not> bit (cs_used s) candidate then Some candidate else findUnused (i + 1) s)
      else None)"
  by pat_completeness auto
termination by (relation "measure (\<lambda>(i, s). nat (cs_maxCIDRs s) - i)") auto

declare findUnused.simps [simp del]

definition cs_AllocateNext :: "CidrSet \<Rightarrow> (cidr_error + IPNet) \<times> CidrSet" where
  "cs_AllocateNext s =
     (case findUnused 0 s of
        None \<Rightarrow> (Inl ErrCIDRRangeNoCIDRsRemaining, s)
      | Some nextUnused \<Rightarrow>
          (let s' = s\<lparr>cs_nextCandidate := (nextUnused + 1) mod nat (cs_maxCIDRs s), cs_used := set_bit nextUnused (cs_used s)\<rparr>
           in (Inr (indexToCIDRBlock nextUnused s'), s')))"

definition getIndexForIP :: "IP \<Rightarrow> CidrSet \<Rightarrow> cidr_error + nat" where
  "getIndexForIP ip s =
     (case To4 ip of
        Some ip4 \<Rightarrow>
          (let cidrIndex = shr (BE_Uint32 (cs_clusterIP s) XOR BE_Uint32 ip4) (32 - int (cs_subNetMaskSize s))
           in if int cidrIndex \<ge> cs_maxCIDRs s mod 2 ^ 32 then Inl ErrCIDROutOfRange else Inr cidrIndex)
      | None \<Rightarrow>
          (case To16 ip of
             Some _ \<Rightarrow>
               (let cidrIndexBig = shr (big_SetBytes (cs_clusterIP s) XOR big_SetBytes ip) (128 - int (cs_subNetMaskSize s));
                    cidrIndex = cidrIndexBig mod 2 ^ 64
                in if int cidrIndex \<ge> cs_maxCIDRs s mod 2 ^ 64 then Inl ErrCIDROutOfRange else Inr cidrIndex)
           | None \<Rightarrow> Inl ErrInvalidIP))"

definition getIndexForCIDR :: "IPNet \<Rightarrow> CidrSet \<Rightarrow> cidr_error + nat" where
  "getIndexForCIDR cidr s = getIndexForIP (net_IP cidr) s"

text \<open>The last address of a subnet.\<close>

definition lastIP :: "IPNet \<Rightarrow> IP" where
  "lastIP cidr =
     (let m = CIDRMask (mask_ones cidr) (mask_bits cidr)
      in if To4 (net_IP cidr) \<noteq> None then putBE 4 (BE_Uint32 (net_IP cidr) OR (2 ^ 32 - 1 - BE_Uint32 m))
         else putBE 8 (BE_Uint64 (take 8 (net_IP cidr)) OR (2 ^ 64 - 1 - BE_Uint64 (take 8 m))) @
              putBE 8 (BE_Uint64 (drop 8 (net_IP cidr)) OR (2 ^ 64 - 1 - BE_Uint64 (drop 8 m))))"

text \<open>A nil subnet is dereferenced before it is compared with nil.\<close>

definition getBeginingAndEndIndices :: "IPNet option \<Rightarrow> CidrSet \<Rightarrow> (cidr_error + int \<times> int) option" where
  "getBeginingAndEndIndices ocidr s =
     (case ocidr of
        None \<Rightarrow> None
      | Some cidr \<Rightarrow>
          (let maskSize = mask_ones cidr; cl = cs_clusterCIDR s
           in Some
             (if \<not> net_Contains (ip_Mask (net_IP cidr) (mask_ones cl) (mask_bits cl)) cl \<and>
                 \<not> net_Contains (ip_Mask (net_IP cl) maskSize (mask_bits cidr)) cidr
              then Inl ErrCIDROutOfRange
              else if cs_clusterMaskSize s < maskSize then
                (let ipSize = (if To4 (net_IP cidr) = None then 16 else 4); sub = cs_subNetMaskSize s
                 in case getIndexForCIDR \<lparr>net_IP = ip_Mask (net_IP cidr) sub (ipSize * 8), mask_ones = sub, mask_bits = ipSize * 8\<rparr> s of
                      Inl e \<Rightarrow> Inl e
                    | Inr b \<Rightarrow>
                        (case getIndexForCIDR \<lparr>net_IP = ip_Mask (lastIP cidr) sub (ipSize * 8), mask_ones = sub, mask_bits = ipSize * 8\<rparr> s of
                           Inl e \<Rightarrow> Inl e
                         | Inr e \<Rightarrow> Inr (int b, int e)))
              else Inr (0, cs_maxCIDRs s - 1))))"

definition cs_Release :: "IPNet option \<Rightarrow> CidrSet \<Rightarrow> (cidr_error option \<times> CidrSet) option" where
  "cs_Release cidr s =
     (case getBeginingAndEndIndices cidr s of
        None \<Rightarrow> None
      | Some (Inl e) \<Rightarrow> Some (Some e, s)
      | Some (Inr (b, e)) \<Rightarrow> Some (None, s\<lparr>cs_used := fold (\<lambda>i. unset_bit (nat i)) [b..e] (cs_used s)\<rparr>))"

definition cs_Occupy :: "IPNet option \<Rightarrow> CidrSet \<Rightarrow> (cidr_error option \<times> CidrSet) option" where
  "cs_Occupy cidr s =
     (case getBeginingAndEndIndices cidr s of
        None \<Rightarrow> None
      | Some (Inl e) \<Rightarrow> Some (Some e, s)
      | Some (Inr (b, e)) \<Rightarrow> Some (None, s\<lparr>cs_used := fold (\<lambda>i. set_bit (nat i)) [b..e] (cs_used s)\<rparr>))"

section \<open>Bits and bytes\<close>

lemma bit_aligned: "(2::nat) ^ a dvd v \<Longrightarrow> k < a \<Longrightarrow> \<not> bit v k"
  by (metis bit_push_bit_iff dvdE linorder_not_le mult.commute push_bit_eq_mult)

lemma bit_small: "(j::nat) < 2 ^ a \<Longrightarrow> a \<le> k \<Longrightarrow> \<not> bit j k"
  by (metis bit_take_bit_iff linorder_not_le take_bit_nat_eq_self)

lemma or_add: "(2::nat) ^ a dvd v \<Longrightarrow> j < 2 ^ a \<Longrightarrow> v OR j = v + j"
  by (rule disjunctive_add_eq_or [symmetric]) (auto simp: bit_eq_iff bit_and_iff dest: bit_aligned bit_small intro: leI)

lemma xor_add: "(2::nat) ^ a dvd v \<Longrightarrow> j < 2 ^ a \<Longrightarrow> v XOR j = v + j"
  by (rule disjunctive_add_eq_xor [symmetric]) (auto simp: bit_eq_iff bit_and_iff dest: bit_aligned bit_small intro: leI)

lemma xor_base: "(2::nat) ^ a dvd v \<Longrightarrow> j < 2 ^ a \<Longrightarrow> v XOR (v + j) = j"
  by (simp flip: xor_add add: xor.assoc [symmetric])

lemma putBE_length [simp]: "length (putBE k v) = k"
  by (induction k arbitrary: v) simp_all

lemma putBE_ok: "bytes_ok (putBE k v)"
  by (induction k arbitrary: v) (simp_all add: bytes_ok_def)

lemma SetBytes_putBE: "big_SetBytes (putBE k v) = v mod 256 ^ k"
proof (induction k arbitrary: v)
  case (Suc k)
  then show ?case by (simp add: SetBytes_snoc mod_mult2_eq [of v 256] mult.commute)
qed (simp add: big_SetBytes_def)

lemma putBE_SetBytes: "bytes_ok bs \<Longrightarrow> putBE (length bs) (big_SetBytes bs) = bs"
  by (induction bs rule: rev_induct) (simp_all add: SetBytes_snoc bytes_ok_def)

lemma putBE_append: "y < 256 ^ b \<Longrightarrow> putBE a x @ putBE b y = putBE (a + b) (x * 256 ^ b + y)"
proof (induction b arbitrary: y)
  case (Suc b)
  have "y div 256 < 256 ^ b" using Suc.prems by (simp add: less_mult_imp_div_less mult.commute)
  moreover have "(x * 256 ^ Suc b + y) div 256 = x * 256 ^ b + y div 256" "(x * 256 ^ Suc b + y) mod 256 = y mod 256"
    by (simp_all add: mult.left_commute [of _ 256])
  ultimately show ?case using Suc.IH [of "y div 256"] by simp
qed simp

lemma putBE_halves: "r < 2 ^ 64 \<Longrightarrow> putBE 8 l @ putBE 8 r = putBE 16 (l * 2 ^ 64 + r)"
  using putBE_append [of r 8 8 l] by simp

lemma SetBytes_append: "big_SetBytes (xs @ ys) = big_SetBytes xs * 256 ^ length ys + big_SetBytes ys"
proof (induction ys rule: rev_induct)
  case (snoc y ys)
  then show ?case by (simp add: SetBytes_snoc algebra_simps flip: append_assoc)
qed (simp add: big_SetBytes_def)

lemma bitLen_le: "bitLen x \<le> k \<longleftrightarrow> x < 2 ^ k"
proof (induction k arbitrary: x)
  case (Suc k)
  show ?case
  proof (cases "x = 0")
    case False
    then have "bitLen x = Suc (bitLen (x div 2))" by (simp add: bitLen.simps [of x])
    then show ?thesis using Suc.IH [of "x div 2"] by (simp add: less_mult_imp_div_less div_less_iff_less_mult mult.commute)
  qed (simp add: bitLen.simps)
qed (simp add: bitLen.simps)

lemma mask_down: "v < 2 ^ bits \<Longrightarrow> ones \<le> bits \<Longrightarrow> v AND mask_value ones bits = v div 2 ^ (bits - ones) * 2 ^ (bits - ones)"
proof (rule bit_eqI)
  fix k
  assume v: "v < 2 ^ bits" "ones \<le> bits"
  let ?d = "bits - ones"
  have "mask_value ones bits = push_bit ?d (mask ones)"
    using v(2) by (simp add: mask_value_def push_bit_eq_mult mask_eq_exp_minus_1 diff_mult_distrib flip: power_add)
  moreover have "v div 2 ^ ?d * 2 ^ ?d = push_bit ?d (drop_bit ?d v)" by (simp add: push_bit_eq_mult drop_bit_eq_div)
  ultimately show "bit (v AND mask_value ones bits) k \<longleftrightarrow> bit (v div 2 ^ ?d * 2 ^ ?d) k"
    using bit_small [OF v(1), of k] v(2)
    by (cases "k < bits") (auto simp: bit_and_iff bit_push_bit_iff bit_mask_iff bit_drop_bit_eq)
qed

section \<open>Blocks of the cluster network\<close>

abbreviation net_base :: "IPNet \<Rightarrow> nat" where
  "net_base n \<equiv> big_SetBytes (net_IP n)"

definition overlaps :: "IPNet \<Rightarrow> IPNet \<Rightarrow> bool" where
  "overlaps m n \<longleftrightarrow>
     length (net_IP m) = length (net_IP n) \<and>
     net_base m < net_base n + net_size n \<and> net_base n < net_base m + net_size m"

definition inside :: "IPNet \<Rightarrow> IPNet \<Rightarrow> bool" where
  "inside m n \<longleftrightarrow>
     length (net_IP m) = length (net_IP n) \<and> net_base n \<le> net_base m \<and> net_base m + net_size m \<le> net_base n + net_size n"

definition cs_count :: "CidrSet \<Rightarrow> nat" where
  "cs_count s = 2 ^ (cs_subNetMaskSize s - cs_clusterMaskSize s)"

text \<open>An IPv6 network that lies above the IPv4-mapped addresses.\<close>

definition above_mapped :: "IPNet \<Rightarrow> bool" where
  "above_mapped n \<longleftrightarrow> (length (net_IP n) = 16 \<longrightarrow> 2 ^ 48 \<le> net_base n)"

definition cs_inv :: "CidrSet \<Rightarrow> bool" where
  "cs_inv s \<longleftrightarrow>
     net_wf (cs_clusterCIDR s) \<and> above_mapped (cs_clusterCIDR s) \<and> cs_clusterIP s = net_IP (cs_clusterCIDR s) \<and>
     cs_clusterMaskSize s = mask_ones (cs_clusterCIDR s) \<and> cs_clusterMaskSize s \<le> cs_subNetMaskSize s \<and>
     cs_subNetMaskSize s \<le> mask_bits (cs_clusterCIDR s) \<and> cs_subNetMaskSize s < cs_clusterMaskSize s + 32 \<and>
     cs_maxCIDRs s = int (cs_count s) \<and> bitset (cs_used s) \<subseteq> {..<cs_count s} \<and> cs_nextCandidate s < cs_count s"

definition block_size :: "CidrSet \<Rightarrow> nat" where
  "block_size s = 2 ^ (mask_bits (cs_clusterCIDR s) - cs_subNetMaskSize s)"

lemma count_blocks: "cs_inv s \<Longrightarrow> cs_count s * block_size s = net_size (cs_clusterCIDR s)"
  by (simp add: cs_inv_def cs_count_def block_size_def net_size_def flip: power_add)

lemma offset_bound: "cs_inv s \<Longrightarrow> i < cs_count s \<Longrightarrow> i * block_size s < net_size (cs_clusterCIDR s)"
  using count_blocks [of s] by (metis block_size_def mult_less_cancel2 zero_less_numeral zero_less_power)

lemma net_families:
  assumes "net_wf n"
  obtains (v4) "length (net_IP n) = 4" "mask_bits n = 32" "To4 (net_IP n) = Some (net_IP n)"
    | (v6) "length (net_IP n) = 16" "mask_bits n = 128" "To4 (net_IP n) = None" "To16 (net_IP n) = Some (net_IP n)"
  using assms by (auto simp: net_wf_def To4_def To16_def)

lemma halves_value:
  "length ip = 16 \<Longrightarrow> bytes_ok ip \<Longrightarrow> BE_Uint64 (take 8 ip) = big_SetBytes ip div 2 ^ 64 \<and> BE_Uint64 (drop 8 ip) = big_SetBytes ip mod 2 ^ 64"
proof -
  assume ip: "length ip = 16" "bytes_ok ip"
  then have "big_SetBytes (drop 8 ip) < 2 ^ 64"
    using SetBytes_bounded [of "drop 8 ip"] by (auto simp: bytes_ok_def list_all_iff dest: in_set_dropD)
  then show ?thesis using ip SetBytes_append [of "take 8 ip" "drop 8 ip"] by (simp add: BE_Uint64_def)
qed

lemma dvd_high: "(2::nat) ^ (64 + a) dvd v \<Longrightarrow> 2 ^ a dvd v div 2 ^ 64"
  by (auto simp: power_add elim!: dvdE)

lemma dvd_low: "(2::nat) ^ a dvd v \<Longrightarrow> a \<le> 64 \<Longrightarrow> 2 ^ a dvd v mod 2 ^ 64"
  by (rule dvd_mod [OF _ le_imp_power_dvd])

lemma pow_mult: "a + b = c \<Longrightarrow> (2::nat) ^ a * 2 ^ b = 2 ^ c"
  by (auto simp flip: power_add)

lemma shl_small: "x * 2 ^ k < 2 ^ w \<Longrightarrow> shl w x (int k) = x * 2 ^ k"
  by (simp add: shl_def)

text \<open>The two halves of an IPv6 block, put together: the index is in the left half, in both, or in the right half.\<close>

lemma block6_left:
  assumes "2 ^ (128 - c) dvd v" "i < 2 ^ (sub - c)" "c \<le> sub" "sub \<le> 64"
  shows "(v div 2 ^ 64 OR shl 64 i (64 - int sub)) * 2 ^ 64 + v mod 2 ^ 64 = v + i * 2 ^ (128 - sub)"
proof -
  have "i * 2 ^ (64 - sub) < 2 ^ (sub - c) * 2 ^ (64 - sub)" using assms(2) by simp
  also have "\<dots> = (2::nat) ^ (64 - c)" using assms(3,4) by (simp flip: power_add)
  finally have j: "i * 2 ^ (64 - sub) < 2 ^ (64 - c)" .
  also have "\<dots> \<le> (2::nat) ^ 64" by (rule power_increasing) auto
  finally have "shl 64 i (int (64 - sub)) = i * 2 ^ (64 - sub)" by (rule shl_small)
  moreover have "64 - int sub = int (64 - sub)" using assms(4) by simp
  moreover have "2 ^ (64 - c) dvd v div 2 ^ 64" using assms by (intro dvd_high) simp
  ultimately have "v div 2 ^ 64 OR shl 64 i (64 - int sub) = v div 2 ^ 64 + i * 2 ^ (64 - sub)" using or_add j by metis
  moreover have "i * 2 ^ (64 - sub) * 2 ^ 64 = i * 2 ^ (128 - sub)"
    using pow_mult [of "64 - sub" 64 "128 - sub"] assms(4) by (simp only: mult.assoc)
  ultimately show ?thesis using div_mult_mod_eq [of v "2 ^ 64"] by (simp only: add_mult_distrib)
qed

lemma block6_both:
  assumes "2 ^ (128 - c) dvd v" "i < 2 ^ (sub - c)" "64 < sub" "sub \<le> 128" "c < 64"
  shows "(if bitLen i > sub - 64 then v div 2 ^ 64 OR shr i (int (sub - 64)) else v div 2 ^ 64) * 2 ^ 64 +
      (v mod 2 ^ 64 OR shl 64 i (128 - int sub)) = v + i * 2 ^ (128 - sub)"
proof -
  let ?E = "(2::nat) ^ (128 - sub)" and ?b = "sub - 64"
  have bE: "(2::nat) ^ 64 = 2 ^ ?b * ?E" using assms(3,4) by (intro pow_mult [symmetric]) simp
  have low: "v mod 2 ^ 64 = 0"
    using dvd_trans [OF le_imp_power_dvd [of 64 "128 - c" "2::nat"] assms(1)] assms(5) by simp
  have "2 ^ (64 - c) dvd v div 2 ^ 64" using assms(1,5) by (intro dvd_high) simp
  moreover have "i div 2 ^ ?b < 2 ^ (64 - c)"
    using assms(2,3,5) by (simp add: div_less_iff_less_mult flip: power_add)
  ultimately have "v div 2 ^ 64 OR i div 2 ^ ?b = v div 2 ^ 64 + i div 2 ^ ?b" by (rule or_add)
  moreover have "i div 2 ^ ?b = 0" if "\<not> bitLen i > ?b" using that bitLen_le [of i ?b] by simp
  moreover have "i div 2 ^ ?b = i * ?E div 2 ^ 64" unfolding bE by (rule div_mult_mult2 [symmetric]) simp
  ultimately have l: "(if bitLen i > ?b then v div 2 ^ 64 OR shr i (int ?b) else v div 2 ^ 64) = v div 2 ^ 64 + i * ?E div 2 ^ 64"
    by (simp add: shr_def)
  have r: "v mod 2 ^ 64 OR shl 64 i (128 - int sub) = i * ?E mod 2 ^ 64"
    using low assms(4) by (simp add: shl_def nat_diff_distrib)
  show ?thesis unfolding l r
    using div_mult_mod_eq [of v "2 ^ 64"] div_mult_mod_eq [of "i * ?E" "2 ^ 64"] low by (simp only: add_mult_distrib)
qed

lemma block6_right:
  assumes "2 ^ (128 - c) dvd v" "i < 2 ^ (sub - c)" "c \<le> sub" "sub \<le> 128" "64 \<le> c"
  shows "v div 2 ^ 64 * 2 ^ 64 + (v mod 2 ^ 64 OR shl 64 i (128 - int sub)) = v + i * 2 ^ (128 - sub)"
    and "(v mod 2 ^ 64 OR shl 64 i (128 - int sub)) < 2 ^ 64"
proof -
  have "i * 2 ^ (128 - sub) < 2 ^ (sub - c) * 2 ^ (128 - sub)" using assms(2) by simp
  also have "\<dots> = (2::nat) ^ (128 - c)" using assms(3,4) by (simp flip: power_add)
  finally have j: "i * 2 ^ (128 - sub) < 2 ^ (128 - c)" .
  also have "\<dots> \<le> (2::nat) ^ 64" using assms(5) by (intro power_increasing) auto
  finally have "shl 64 i (int (128 - sub)) = i * 2 ^ (128 - sub)" by (rule shl_small)
  moreover have "128 - int sub = int (128 - sub)" using assms(4) by simp
  moreover have al: "2 ^ (128 - c) dvd v mod 2 ^ 64" using assms(1,5) by (intro dvd_low) auto
  ultimately have or: "v mod 2 ^ 64 OR shl 64 i (128 - int sub) = v mod 2 ^ 64 + i * 2 ^ (128 - sub)" using or_add j by metis
  then show "v div 2 ^ 64 * 2 ^ 64 + (v mod 2 ^ 64 OR shl 64 i (128 - int sub)) = v + i * 2 ^ (128 - sub)"
    using div_mult_mod_eq [of v "2 ^ 64"] by linarith
  have "v mod 2 ^ 64 + 2 ^ (128 - c) \<le> 2 ^ 64"
    using assms(5) by (intro block_below [OF al le_imp_power_dvd]) simp_all
  with or j show "(v mod 2 ^ 64 OR shl 64 i (128 - int sub)) < 2 ^ 64" by linarith
qed

lemma cs_invD:
  assumes "cs_inv s"
  shows "net_wf (cs_clusterCIDR s)" and "cs_clusterIP s = net_IP (cs_clusterCIDR s)"
    and "cs_clusterMaskSize s = mask_ones (cs_clusterCIDR s)" and "cs_clusterMaskSize s \<le> cs_subNetMaskSize s"
    and "cs_subNetMaskSize s \<le> mask_bits (cs_clusterCIDR s)" and "cs_maxCIDRs s = int (cs_count s)"
    and "cs_subNetMaskSize s < cs_clusterMaskSize s + 32" and "above_mapped (cs_clusterCIDR s)"
  using assms by (simp_all add: cs_inv_def)

lemma block4_value:
  assumes "2 ^ (32 - c) dvd v" "i < 2 ^ (sub - c)" "c \<le> sub" "sub \<le> 32" "sub < c + 32"
  shows "v OR shl 32 (i mod 2 ^ 32) (32 - int sub) = v + i * 2 ^ (32 - sub)"
proof -
  have "i * 2 ^ (32 - sub) < 2 ^ (sub - c) * 2 ^ (32 - sub)" using assms(2) by simp
  also have "\<dots> = (2::nat) ^ (32 - c)" using assms(3,4) by (intro pow_mult) simp
  finally have j: "i * 2 ^ (32 - sub) < 2 ^ (32 - c)" .
  also have "\<dots> \<le> (2::nat) ^ 32" by (rule power_increasing) auto
  finally have "shl 32 i (int (32 - sub)) = i * 2 ^ (32 - sub)" by (rule shl_small)
  moreover have "32 - int sub = int (32 - sub)" using assms(4) by simp
  moreover have "(2::nat) ^ (sub - c) \<le> 2 ^ 32" using assms(5) by (intro power_increasing) auto
  with assms(2) have "i mod 2 ^ 32 = i" by (intro mod_less) (rule less_le_trans)
  ultimately show ?thesis using or_add [OF assms(1) j] by (simp only:)
qed

lemma block_value:
  assumes inv: "cs_inv s" and i: "i < cs_count s"
  shows "indexToCIDRBlock i s =
    \<lparr>net_IP = putBE (length (cs_clusterIP s)) (net_base (cs_clusterCIDR s) + i * block_size s),
     mask_ones = cs_subNetMaskSize s, mask_bits = mask_bits (cs_clusterCIDR s)\<rparr>"
  using cs_invD(1) [OF inv]
proof (cases rule: net_families)
  case v4
  note d = cs_invD [OF inv]
  have "2 ^ (32 - cs_clusterMaskSize s) dvd net_base (cs_clusterCIDR s)" using d(1,3) v4(2) by (simp add: net_wf_def)
  from block4_value [OF this, of i "cs_subNetMaskSize s"] i d v4
  show ?thesis by (simp add: indexToCIDRBlock_def cs_count_def block_size_def BE_Uint32_def Let_def)
next
  case v6
  note d = cs_invD [OF inv]
  let ?v = "net_base (cs_clusterCIDR s)" and ?sub = "cs_subNetMaskSize s" and ?c = "cs_clusterMaskSize s"
  have al: "2 ^ (128 - ?c) dvd ?v" using d(1,3) v6(2) by (simp add: net_wf_def)
  have i': "i < 2 ^ (?sub - ?c)" using i by (simp add: cs_count_def)
  have h: "BE_Uint64 (take 8 (cs_clusterIP s)) = ?v div 2 ^ 64" "BE_Uint64 (drop 8 (cs_clusterIP s)) = ?v mod 2 ^ 64"
    using halves_value [of "cs_clusterIP s"] d(1,2) v6(1) by (simp_all add: net_wf_def)
  have "\<exists>l r. indexToCIDRBlock i s = \<lparr>net_IP = putBE 8 l @ putBE 8 r, mask_ones = ?sub, mask_bits = 128\<rparr> \<and>
      l * 2 ^ 64 + r = ?v + i * 2 ^ (128 - ?sub) \<and> r < 2 ^ 64"
  proof (cases "?sub \<le> 64")
    case True
    show ?thesis
      using block6_left [OF al i' d(4) True] True v6(3,4) d(2) h
      by (intro exI conjI) (auto simp: indexToCIDRBlock_def Let_def)
  next
    case False
    show ?thesis
    proof (cases "?c < 64")
      case True
      have "?v mod 2 ^ 64 = 0"
        using dvd_trans [OF le_imp_power_dvd [of 64 "128 - ?c" "2::nat"] al] True by simp
      then have "(?v mod 2 ^ 64 OR shl 64 i (128 - int ?sub)) < 2 ^ 64" by (simp add: shl_def)
      then show ?thesis
        using block6_both [OF al i' _ _ True] True False v6(2,3,4) d(2,5) h
        by (intro exI conjI) (auto simp: indexToCIDRBlock_def Let_def)
    next
      case right: False
      then show ?thesis
        using block6_right [OF al i' d(4)] False v6(2,3,4) d(2,5) h
        by (intro exI conjI) (auto simp: indexToCIDRBlock_def Let_def)
    qed
  qed
  then obtain l r where "indexToCIDRBlock i s = \<lparr>net_IP = putBE 8 l @ putBE 8 r, mask_ones = ?sub, mask_bits = 128\<rparr>"
    "l * 2 ^ 64 + r = ?v + i * 2 ^ (128 - ?sub)" "r < 2 ^ 64" by blast
  then show ?thesis using putBE_halves [of r l] v6(1,2) d(2) by (simp add: block_size_def)
qed

lemma block_facts:
  assumes inv: "cs_inv s" and i: "i < cs_count s"
  shows "net_base (indexToCIDRBlock i s) = net_base (cs_clusterCIDR s) + i * block_size s"
    and "net_size (indexToCIDRBlock i s) = block_size s"
    and "length (net_IP (indexToCIDRBlock i s)) = length (net_IP (cs_clusterCIDR s))"
    and "mask_ones (indexToCIDRBlock i s) = cs_subNetMaskSize s"
proof -
  note b = block_value [OF assms] and d = cs_invD [OF inv]
  have "net_base (cs_clusterCIDR s) + i * block_size s < 256 ^ length (net_IP (cs_clusterCIDR s))"
    using offset_bound [OF assms] net_upper [OF d(1)] by linarith
  then show "net_base (indexToCIDRBlock i s) = net_base (cs_clusterCIDR s) + i * block_size s"
    using b d(2) by (simp add: SetBytes_putBE)
  show "net_size (indexToCIDRBlock i s) = block_size s" using b by (simp add: net_size_def block_size_def)
  show "length (net_IP (indexToCIDRBlock i s)) = length (net_IP (cs_clusterCIDR s))" using b d(2) by simp
  show "mask_ones (indexToCIDRBlock i s) = cs_subNetMaskSize s" using b by simp
qed

lemma block_end: "cs_inv s \<Longrightarrow> i < cs_count s \<Longrightarrow> i * block_size s + block_size s \<le> net_size (cs_clusterCIDR s)"
  using mult_le_mono1 [of "i + 1" "cs_count s" "block_size s"] count_blocks [of s] by simp

lemma block_inside: "cs_inv s \<Longrightarrow> i < cs_count s \<Longrightarrow> inside (indexToCIDRBlock i s) (cs_clusterCIDR s)"
  using block_facts [of s i] block_end [of s i] by (simp add: inside_def)

lemma blocks_order: "i < j \<Longrightarrow> i * d + d \<le> j * (d::nat)"
  using mult_le_mono1 [of "i + 1" j d] by simp

lemma blocks_disjoint:
  assumes "cs_inv s" "i < cs_count s" "j < cs_count s" "i \<noteq> j"
  shows "\<not> overlaps (indexToCIDRBlock i s) (indexToCIDRBlock j s)"
  using assms block_facts [of s i] block_facts [of s j] blocks_order [of i j "block_size s"] blocks_order [of j i "block_size s"]
  by (cases "i < j") (auto simp: overlaps_def)

lemma findUnused_scan:
  "0 \<le> cs_maxCIDRs s \<Longrightarrow>
   findUnused i s = scan (cs_used s) (\<lambda>i. (i + cs_nextCandidate s) mod nat (cs_maxCIDRs s)) i (nat (cs_maxCIDRs s))"
proof (induction i s rule: findUnused.induct)
  case (1 i s)
  have "int i < cs_maxCIDRs s \<longleftrightarrow> i < nat (cs_maxCIDRs s)" using 1(2) by auto
  then show ?case using 1 by (simp add: findUnused.simps [of i s] scan.simps [of "cs_used s" _ i] Let_def)
qed

lemma block_other: "indexToCIDRBlock i (s\<lparr>cs_nextCandidate := n, cs_used := u\<rparr>) = indexToCIDRBlock i s"
  by (simp add: indexToCIDRBlock_def Let_def)

lemma cs_inv_update:
  "cs_inv s \<Longrightarrow> bitset u \<subseteq> {..<cs_count s} \<Longrightarrow> n < cs_count s \<Longrightarrow> cs_inv (s\<lparr>cs_nextCandidate := n, cs_used := u\<rparr>)"
  by (simp add: cs_inv_def cs_count_def)

lemma AllocateNext_cases:
  assumes inv: "cs_inv s"
  obtains (got) i s' where "cs_AllocateNext s = (Inr (indexToCIDRBlock i s), s')" and "i < cs_count s" and "i \<notin> bitset (cs_used s)"
      and "cs_inv s'" and "bitset (cs_used s') = insert i (bitset (cs_used s))" and "\<And>j. indexToCIDRBlock j s' = indexToCIDRBlock j s"
      and "cs_clusterCIDR s' = cs_clusterCIDR s" and "cs_count s' = cs_count s"
    | (full) "cs_AllocateNext s = (Inl ErrCIDRRangeNoCIDRsRemaining, s)" and "bitset (cs_used s) = {..<cs_count s}"
proof (cases "findUnused 0 s")
  case None
  have b: "bitset (cs_used s) \<subseteq> {..<cs_count s}" "cs_nextCandidate s < cs_count s" using inv by (simp_all add: cs_inv_def)
  have "{..<cs_count s} \<subseteq> bitset (cs_used s)"
  proof
    fix x
    assume "x \<in> {..<cs_count s}"
    then obtain i where i: "i < cs_count s" "(cs_nextCandidate s + i) mod cs_count s = x"
      using rotation [OF b(2), of x] by auto
    with None scan_None [of "cs_used s" "\<lambda>i. (i + cs_nextCandidate s) mod nat (cs_maxCIDRs s)" 0 "nat (cs_maxCIDRs s)" i]
    show "x \<in> bitset (cs_used s)" using cs_invD(6) [OF inv] by (simp add: findUnused_scan bit_bitset add.commute)
  qed
  with b(1) None show thesis by (intro full) (auto simp: cs_AllocateNext_def)
next
  case (Some x)
  have mx: "cs_maxCIDRs s = int (cs_count s)" "0 < cs_count s" using inv by (simp_all add: cs_inv_def cs_count_def)
  from Some have "x < cs_count s \<and> x \<notin> bitset (cs_used s)"
    using scan_Some [of "cs_used s" "\<lambda>i. (i + cs_nextCandidate s) mod nat (cs_maxCIDRs s)" 0 "nat (cs_maxCIDRs s)" x] mx
    by (auto simp: findUnused_scan bit_bitset)
  moreover define s' where "s' = s\<lparr>cs_nextCandidate := (x + 1) mod cs_count s, cs_used := set_bit x (cs_used s)\<rparr>"
  moreover have "bitset (cs_used s) \<subseteq> {..<cs_count s}" using inv by (simp add: cs_inv_def)
  ultimately show thesis
    using Some mx cs_inv_update [OF inv, of "set_bit x (cs_used s)" "(x + 1) mod cs_count s"]
    by (intro got [of x s']) (simp_all add: cs_AllocateNext_def block_other Let_def cs_count_def nat_power_eq)
qed

section \<open>The blocks a network covers\<close>

lemma not_mapped:
  assumes "length ip = 16" "bytes_ok ip" "2 ^ 48 \<le> big_SetBytes ip"
  shows "To4 ip = None"
proof (rule ccontr)
  assume "To4 ip \<noteq> None"
  then have t: "take 10 ip = replicate 10 0" using assms(1) by (auto simp: To4_def split: if_splits)
  have z: "big_SetBytes (replicate k 0) = 0" for k by (induction k) (simp_all add: big_SetBytes_def)
  have "bytes_ok (drop 10 ip)" using assms(2) by (auto simp: bytes_ok_def list_all_iff dest: in_set_dropD)
  from SetBytes_bounded [OF this] have "big_SetBytes (drop 10 ip) < 2 ^ 48" using assms(1) by simp
  moreover have "big_SetBytes ip = big_SetBytes (take 10 ip) * 256 ^ length (drop 10 ip) + big_SetBytes (drop 10 ip)"
    using SetBytes_append [of "take 10 ip" "drop 10 ip"] by (simp only: append_take_drop_id)
  ultimately show False using assms(3) t z by simp
qed

text \<open>The index of an address of the cluster network.\<close>

lemma index_of_address:
  assumes inv: "cs_inv s" and len: "length ip = length (net_IP (cs_clusterCIDR s))" and ok: "bytes_ok ip"
    and y: "big_SetBytes ip = net_base (cs_clusterCIDR s) + y" "y < net_size (cs_clusterCIDR s)"
  shows "getIndexForIP ip s = Inr (y div block_size s)"
proof -
  note d = cs_invD [OF inv]
  let ?v = "net_base (cs_clusterCIDR s)"
  have al: "2 ^ (mask_bits (cs_clusterCIDR s) - mask_ones (cs_clusterCIDR s)) dvd ?v" using d(1) by (simp add: net_wf_def)
  have x: "?v XOR big_SetBytes ip = y" using xor_base [OF al] y by (simp add: net_size_def)
  have idx: "y div block_size s < cs_count s"
    using y(2) count_blocks [OF inv] by (simp add: div_less_iff_less_mult block_size_def)
  have mx: "cs_count s < 2 ^ 32" using d(7) power_strict_increasing [of "cs_subNetMaskSize s - cs_clusterMaskSize s" 32 "2::nat"]
    by (simp add: cs_count_def)
  show ?thesis using d(1)
  proof (cases rule: net_families)
    case v4
    have "To4 ip = Some ip" using len v4(1) by (simp add: To4_def)
    then show ?thesis
      using x idx mx d(2,5,6) v4 len
      by (simp add: getIndexForIP_def BE_Uint32_def shr_def block_size_def nat_diff_distrib Let_def)
  next
    case v6
    have "To4 ip = None" using not_mapped [OF _ ok] len v6(1) y(1) d(8) by (simp add: above_mapped_def)
    moreover have "To16 ip = Some ip" using len v6(1) by (simp add: To16_def)
    ultimately show ?thesis
      using x idx mx d(2,5,6) v6 len
      by (simp add: getIndexForIP_def shr_def block_size_def nat_diff_distrib Let_def)
  qed
qed

lemma Mask_value:
  assumes "length ip = 4 \<and> bits = 32 \<or> length ip = 16 \<and> bits = 128" "bytes_ok ip" "ones \<le> bits"
  shows "length (ip_Mask ip ones bits) = length ip" and "bytes_ok (ip_Mask ip ones bits)"
    and "big_SetBytes (ip_Mask ip ones bits) = big_SetBytes ip div 2 ^ (bits - ones) * 2 ^ (bits - ones)"
proof -
  have b: "big_SetBytes ip < 2 ^ bits" using SetBytes_bounded [OF assms(2)] assms(1) by auto
  have m: "ip_Mask ip ones bits = putBE (length ip) (big_SetBytes ip AND mask_value ones bits)"
    using assms(1,3) by (auto simp: ip_Mask_def Let_def)
  then show "length (ip_Mask ip ones bits) = length ip" "bytes_ok (ip_Mask ip ones bits)" by (simp_all add: putBE_ok)
  have "big_SetBytes ip div 2 ^ (bits - ones) * 2 ^ (bits - ones) < 256 ^ length ip"
    using SetBytes_bounded [OF assms(2)] by (rule le_less_trans [OF div_times_less_eq_dividend])
  then show "big_SetBytes (ip_Mask ip ones bits) = big_SetBytes ip div 2 ^ (bits - ones) * 2 ^ (bits - ones)"
    using m mask_down [OF b assms(3)] by (simp add: SetBytes_putBE)
qed

lemma wf_family: "net_wf n \<Longrightarrow> length (net_IP n) = 4 \<and> mask_bits n = 32 \<or> length (net_IP n) = 16 \<and> mask_bits n = 128"
  by (simp add: net_wf_def)

lemma index_masked:
  assumes inv: "cs_inv s" and len: "length ip = length (net_IP (cs_clusterCIDR s))" and ok: "bytes_ok ip"
    and y: "big_SetBytes ip = net_base (cs_clusterCIDR s) + y" "y < net_size (cs_clusterCIDR s)"
  shows "getIndexForIP (ip_Mask ip (cs_subNetMaskSize s) (mask_bits (cs_clusterCIDR s))) s = Inr (y div block_size s)"
proof -
  note d = cs_invD [OF inv]
  let ?D = "block_size s" and ?v = "net_base (cs_clusterCIDR s)"
  have fam: "length ip = 4 \<and> mask_bits (cs_clusterCIDR s) = 32 \<or> length ip = 16 \<and> mask_bits (cs_clusterCIDR s) = 128"
    using wf_family [OF d(1)] len by simp
  note m = Mask_value [OF fam ok d(5)]
  have "?D dvd net_size (cs_clusterCIDR s)" using count_blocks [OF inv] by (metis dvd_triv_right)
  then have "?D dvd ?v" using d(1) by (metis dvd_trans net_size_def net_wf_def)
  then have "(?v + y) div ?D * ?D = ?v + y div ?D * ?D" by (simp add: div_plus_div_distrib_dvd_left add_mult_distrib)
  then have "big_SetBytes (ip_Mask ip (cs_subNetMaskSize s) (mask_bits (cs_clusterCIDR s))) = ?v + y div ?D * ?D"
    using m(3) y(1) by (simp add: block_size_def)
  moreover have "y div ?D * ?D < net_size (cs_clusterCIDR s)" using y(2) by (rule le_less_trans [OF div_times_less_eq_dividend])
  ultimately show ?thesis using index_of_address [OF inv _ m(2)] m(1) len by (simp add: block_size_def)
qed

lemma last4: "(2::nat) ^ (32 - c) dvd v \<Longrightarrow> v OR (2 ^ 32 - 1 - (2 ^ 32 - 2 ^ (32 - c))) = v + (2 ^ (32 - c) - 1)"
proof -
  assume al: "2 ^ (32 - c) dvd v"
  have "(2::nat) ^ (32 - c) \<le> 2 ^ 32" "(0::nat) < 2 ^ (32 - c)" by (intro power_increasing) auto
  then have "(2::nat) ^ 32 - 1 - (2 ^ 32 - 2 ^ (32 - c)) = 2 ^ (32 - c) - 1" by simp
  moreover have "v OR (2 ^ (32 - c) - 1) = v + (2 ^ (32 - c) - 1)" by (rule or_add [OF al]) simp
  ultimately show ?thesis by (simp only:)
qed

lemma last6_left:
  assumes "(2::nat) ^ (128 - c) dvd v" "c \<le> 64"
  defines "m \<equiv> (2::nat) ^ 128 - 2 ^ (128 - c)"
  shows "(v div 2 ^ 64 OR (2 ^ 64 - 1 - m div 2 ^ 64)) * 2 ^ 64 + (v mod 2 ^ 64 OR (2 ^ 64 - 1 - m mod 2 ^ 64)) = v + (2 ^ (128 - c) - 1)"
    and "(v mod 2 ^ 64 OR (2 ^ 64 - 1 - m mod 2 ^ 64)) < 2 ^ 64"
proof -
  let ?T = "(2::nat) ^ (64 - c)"
  have T: "(2::nat) ^ (128 - c) = ?T * 2 ^ 64" using assms(2) by (intro pow_mult [symmetric]) simp
  have m: "m = (2 ^ 64 - ?T) * 2 ^ 64" unfolding m_def T by (simp add: diff_mult_distrib)
  have le: "?T \<le> 2 ^ 64" "0 < ?T" by (intro power_increasing) auto
  have q: "m div 2 ^ 64 = 2 ^ 64 - ?T" "m mod 2 ^ 64 = 0" unfolding m by simp_all
  have low: "v mod 2 ^ 64 = 0" using assms(1) unfolding T by (metis dvd_imp_mod_0 dvd_mult_right)
  have "v div 2 ^ 64 OR (?T - 1) = v div 2 ^ 64 + (?T - 1)" using assms(1,2) le
    by (intro or_add [of "64 - c"] dvd_high) auto
  moreover have "2 ^ 64 - 1 - (2 ^ 64 - ?T) = ?T - 1" using le by linarith
  ultimately have l: "v div 2 ^ 64 OR (2 ^ 64 - 1 - m div 2 ^ 64) = v div 2 ^ 64 + (?T - 1)" unfolding q by (simp only:)
  have r: "v mod 2 ^ 64 OR (2 ^ 64 - 1 - m mod 2 ^ 64) = 2 ^ 64 - 1" unfolding q low by simp
  have "(?T - 1) * 2 ^ 64 + (2 ^ 64 - 1) = ?T * 2 ^ 64 - 1" using le(2) by (simp add: diff_mult_distrib)
  then show "(v div 2 ^ 64 OR (2 ^ 64 - 1 - m div 2 ^ 64)) * 2 ^ 64 + (v mod 2 ^ 64 OR (2 ^ 64 - 1 - m mod 2 ^ 64)) = v + (2 ^ (128 - c) - 1)"
    unfolding l r T add_mult_distrib using div_mult_mod_eq [of v "2 ^ 64"] low by linarith
  show "(v mod 2 ^ 64 OR (2 ^ 64 - 1 - m mod 2 ^ 64)) < 2 ^ 64" unfolding r by simp
qed

lemma div_mod_block: "r < m \<Longrightarrow> (q * m + r) div m = q" "r < m \<Longrightarrow> (q * m + r) mod m = (r::nat)"
  by simp_all

lemma last6_right:
  assumes "(2::nat) ^ (128 - c) dvd v" "64 \<le> c" "c \<le> 128"
  defines "m \<equiv> (2::nat) ^ 128 - 2 ^ (128 - c)"
  shows "(v div 2 ^ 64 OR (2 ^ 64 - 1 - m div 2 ^ 64)) * 2 ^ 64 + (v mod 2 ^ 64 OR (2 ^ 64 - 1 - m mod 2 ^ 64)) = v + (2 ^ (128 - c) - 1)"
    and "(v mod 2 ^ 64 OR (2 ^ 64 - 1 - m mod 2 ^ 64)) < 2 ^ 64"
proof -
  let ?S = "(2::nat) ^ (128 - c)"
  have S: "?S \<le> 2 ^ 64" "0 < ?S" using assms(2) by (intro power_increasing) auto
  have P: "(2::nat) ^ 128 = 2 ^ 64 * 2 ^ 64" by simp
  have m: "m = (2 ^ 64 - 1) * 2 ^ 64 + (2 ^ 64 - ?S)" unfolding m_def P diff_mult_distrib using S by simp
  have "2 ^ 64 - ?S < 2 ^ 64" using S by simp
  note q = div_mod_block [OF this, of "2 ^ 64 - 1", folded m]
  have al: "?S dvd v mod 2 ^ 64" using assms(1,2) by (intro dvd_low) auto
  have "v mod 2 ^ 64 OR (?S - 1) = v mod 2 ^ 64 + (?S - 1)" by (rule or_add [OF al]) simp
  moreover have "2 ^ 64 - 1 - (2 ^ 64 - ?S) = ?S - 1" using S by linarith
  ultimately have r: "v mod 2 ^ 64 OR (2 ^ 64 - 1 - m mod 2 ^ 64) = v mod 2 ^ 64 + (?S - 1)" unfolding q by (simp only:)
  have l: "v div 2 ^ 64 OR (2 ^ 64 - 1 - m div 2 ^ 64) = v div 2 ^ 64" unfolding q by simp
  show "(v div 2 ^ 64 OR (2 ^ 64 - 1 - m div 2 ^ 64)) * 2 ^ 64 + (v mod 2 ^ 64 OR (2 ^ 64 - 1 - m mod 2 ^ 64)) = v + (2 ^ (128 - c) - 1)"
    unfolding l r using div_mult_mod_eq [of v "2 ^ 64"] by linarith
  have "v mod 2 ^ 64 + ?S \<le> 2 ^ 64" using assms(2) by (intro block_below [OF al le_imp_power_dvd]) simp_all
  then show "(v mod 2 ^ 64 OR (2 ^ 64 - 1 - m mod 2 ^ 64)) < 2 ^ 64" unfolding r using S(2) by linarith
qed

lemma net_size_pos: "0 < net_size n"
  by (simp add: net_size_def)

lemma lastIP_value:
  assumes wf: "net_wf n"
  shows "length (lastIP n) = length (net_IP n) \<and> bytes_ok (lastIP n) \<and> big_SetBytes (lastIP n) = net_base n + (net_size n - 1)"
proof -
  have up: "net_base n + (net_size n - 1) < 256 ^ length (net_IP n)"
    using net_upper [OF wf] net_size_pos [of n] by linarith
  have ok: "bytes_ok (net_IP n)" "mask_ones n \<le> mask_bits n" using wf by (simp_all add: net_wf_def)
  have "lastIP n = putBE (length (net_IP n)) (net_base n + (net_size n - 1))" using wf
  proof (cases rule: net_families)
    case v4
    have "2 ^ (32 - mask_ones n) dvd net_base n" using wf v4(2) by (simp add: net_wf_def)
    note l = last4 [OF this]
    have "BE_Uint32 (CIDRMask (mask_ones n) (mask_bits n)) = 2 ^ 32 - 2 ^ (32 - mask_ones n)"
      using v4(2) by (simp add: BE_Uint32_def CIDRMask_def SetBytes_putBE mask_value_def)
    then show ?thesis using l v4 by (simp add: lastIP_def BE_Uint32_def net_size_def Let_def)
  next
    case v6
    let ?m = "(2::nat) ^ 128 - 2 ^ (128 - mask_ones n)" and ?M = "CIDRMask (mask_ones n) (mask_bits n)" and ?v = "net_base n"
    have al: "2 ^ (128 - mask_ones n) dvd ?v" using wf v6(2) by (simp add: net_wf_def)
    have M: "length ?M = 16" "bytes_ok ?M" "big_SetBytes ?M = ?m"
      using v6(2) by (simp_all add: CIDRMask_def putBE_ok SetBytes_putBE mask_value_def)
    note h = halves_value [OF M(1,2)] halves_value [OF v6(1) ok(1)]
    let ?l = "?v div 2 ^ 64 OR (2 ^ 64 - 1 - ?m div 2 ^ 64)" and ?r = "?v mod 2 ^ 64 OR (2 ^ 64 - 1 - ?m mod 2 ^ 64)"
    have lr: "?l * 2 ^ 64 + ?r = ?v + (2 ^ (128 - mask_ones n) - 1) \<and> ?r < 2 ^ 64"
    proof (cases "mask_ones n \<le> 64")
      case True
      show ?thesis using last6_left [OF al True] by blast
    next
      case False
      then have "64 \<le> mask_ones n" "mask_ones n \<le> 128" using ok(2) v6(2) by simp_all
      then show ?thesis using last6_right [OF al] by blast
    qed
    have "lastIP n = putBE 8 ?l @ putBE 8 ?r" unfolding lastIP_def Let_def using v6(3) h M(3) by (simp only: if_False simp_thms)
    also have "\<dots> = putBE 16 (?l * 2 ^ 64 + ?r)" using lr by (intro putBE_halves) (rule conjunct2)
    finally show ?thesis using lr v6(1,2) by (simp only: net_size_def)
  qed
  then show ?thesis using up by (simp add: putBE_ok SetBytes_putBE)
qed

lemma Contains_same:
  assumes "net_wf n" "above_mapped n" "length m = length (net_IP n)" "bytes_ok m"
  shows "net_Contains m n \<longleftrightarrow> net_base n \<le> big_SetBytes m \<and> big_SetBytes m < net_base n + net_size n"
proof (cases "To4 m = None \<or> length m = 4")
  case True
  then have "canon m = m" using assms(3) by (auto simp: canon_def To4_def)
  then show ?thesis using assms(3) by (simp add: Contains_interval [OF assms(1)])
next
  case False
  then have l: "length m = 16" "length (canon m) = 4" by (auto simp: To4_def canon_def split: if_splits)
  then have "big_SetBytes m < 2 ^ 48" using not_mapped [OF l(1) assms(4)] False by (metis not_less)
  with l assms(2,3) show ?thesis by (auto simp: Contains_interval [OF assms(1)] above_mapped_def)
qed

lemma Contains_masked:
  assumes n: "net_wf n" "above_mapped n" and m: "net_wf m"
  shows "net_Contains (ip_Mask (net_IP m) (mask_ones n) (mask_bits n)) n \<longleftrightarrow>
     length (net_IP m) = length (net_IP n) \<and> net_base n \<le> net_base m \<and> net_base m < net_base n + net_size n"
proof (cases "length (net_IP m) = length (net_IP n)")
  case True
  let ?A = "net_size n"
  have ok: "bytes_ok (net_IP m)" "mask_ones n \<le> mask_bits n" "?A dvd net_base n" "0 < ?A"
    using m n by (simp_all add: net_wf_def net_size_def)
  note v = Mask_value [OF _ ok(1,2)] wf_family [OF n(1)]
  let ?x = "ip_Mask (net_IP m) (mask_ones n) (mask_bits n)"
  have x: "length ?x = length (net_IP n)" "bytes_ok ?x" "big_SetBytes ?x = net_base m div ?A * ?A"
    using v True by (auto simp: net_size_def)
  have "net_Contains ?x n \<longleftrightarrow> net_base m div ?A = net_base n div ?A"
    using Contains_same [OF n x(1,2)] x(3) div_block [OF ok(3,4), of "net_base m div ?A * ?A"] ok(4) by simp
  then show ?thesis using div_block [OF ok(3,4), of "net_base m"] True by simp
next
  case False
  have "length (canon (ip_Mask (net_IP m) (mask_ones n) (mask_bits n))) \<noteq> length (net_IP n)" using m
  proof (cases rule: net_families)
    case v4
    then have "length (ip_Mask (net_IP m) (mask_ones n) (mask_bits n)) \<le> 4 \<and> length (net_IP n) = 16"
      using wf_family [OF n(1)] False by (auto simp: ip_Mask_def)
    then show ?thesis using canon_short [of "ip_Mask (net_IP m) (mask_ones n) (mask_bits n)"] by simp
  next
    case v6
    then have "ip_Mask (net_IP m) (mask_ones n) (mask_bits n) = [] \<and> length (net_IP n) = 4"
      using wf_family [OF n(1)] False by (auto simp: ip_Mask_def)
    then show ?thesis using canon_short [of "[]"] by simp
  qed
  then show ?thesis using False by (simp add: Contains_canon [OF n(1)])
qed

text \<open>Aligned networks are nested or disjoint.\<close>

lemma aligned_nested:
  assumes "(b::nat) dvd w" "b dvd a" "a dvd v" "0 < a" "0 < b" "w < v + a" "v < w + b"
  shows "v \<le> w \<and> w + b \<le> v + a"
proof -
  have "b dvd v" using assms(2,3) by (rule dvd_trans)
  have "v \<le> w"
  proof (rule ccontr)
    assume "\<not> v \<le> w"
    then have "w + b \<le> v" using block_below [OF assms(1) \<open>b dvd v\<close>] by simp
    then show False using assms(7) by simp
  qed
  moreover have "w + b \<le> v + a" using block_below [OF assms(1) _ assms(6)] assms(2) \<open>b dvd v\<close> by simp
  ultimately show ?thesis by simp
qed

lemma bitset_fold_set: "bitset (fold (\<lambda>i. set_bit (nat i)) is u) = bitset u \<union> nat ` set is"
  by (induction "is" arbitrary: u) auto

lemma bitset_fold_unset: "bitset (fold (\<lambda>i. unset_bit (nat i)) is u) = bitset u - nat ` set is"
  by (induction "is" arbitrary: u) auto

text \<open>The indices of the blocks of the cluster network that a network overlaps.\<close>

definition covered :: "IPNet \<Rightarrow> CidrSet \<Rightarrow> nat set" where
  "covered cidr s = {i. i < cs_count s \<and> overlaps cidr (indexToCIDRBlock i s)}"

lemma block_size_pos: "0 < block_size s"
  by (simp add: block_size_def)

lemma div_between: "0 < d \<Longrightarrow> y div d \<le> i \<and> i \<le> z div d \<longleftrightarrow> y < i * d + d \<and> i * d \<le> (z::nat)"
  using div_less_iff_less_mult [of d y "Suc i"] less_eq_div_iff_mult_less_eq [of d i z] by (simp add: add.commute less_Suc_eq_le)

lemma covered_small:
  assumes inv: "cs_inv s" and len: "length (net_IP c) = length (net_IP (cs_clusterCIDR s))"
    and y: "net_base c = net_base (cs_clusterCIDR s) + y" "y + net_size c \<le> net_size (cs_clusterCIDR s)"
  shows "covered c s = {y div block_size s..(y + (net_size c - 1)) div block_size s}"
proof -
  let ?D = "block_size s" and ?z = "y + (net_size c - 1)"
  have z: "?z < net_size (cs_clusterCIDR s)" using y(2) net_size_pos [of c] by linarith
  have ov: "overlaps c (indexToCIDRBlock i s) \<longleftrightarrow> y div ?D \<le> i \<and> i \<le> ?z div ?D" if "i < cs_count s" for i
  proof -
    note b = block_facts [OF inv that]
    have "overlaps c (indexToCIDRBlock i s) \<longleftrightarrow> y < i * ?D + ?D \<and> i * ?D < y + net_size c"
      using b len y(1) by (simp add: overlaps_def add.assoc)
    moreover have "i * ?D < y + net_size c \<longleftrightarrow> i * ?D \<le> ?z" using net_size_pos [of c] by linarith
    ultimately show ?thesis using div_between [OF block_size_pos, of y s i ?z] by simp
  qed
  have "?z div ?D < cs_count s"
    using z count_blocks [OF inv] div_less_iff_less_mult [OF block_size_pos, of ?z s "cs_count s"] by simp
  then have "i < cs_count s" if "i \<le> ?z div ?D" for i using that by simp
  with ov show ?thesis unfolding covered_def by auto
qed

lemma covered_large:
  assumes inv: "cs_inv s" and len: "length (net_IP c) = length (net_IP (cs_clusterCIDR s))"
    and y: "net_base c \<le> net_base (cs_clusterCIDR s)" "net_base (cs_clusterCIDR s) + net_size (cs_clusterCIDR s) \<le> net_base c + net_size c"
  shows "covered c s = {..<cs_count s}"
proof -
  have "overlaps c (indexToCIDRBlock i s)" if i: "i < cs_count s" for i
    using block_facts [OF inv i] block_end [OF inv i] block_size_pos [of s] len y by (simp add: overlaps_def)
  then show ?thesis by (auto simp: covered_def)
qed

lemma size_dvd: "mask_bits m = mask_bits n \<Longrightarrow> mask_ones m \<le> mask_ones n \<Longrightarrow> net_size n dvd net_size m"
  by (simp add: net_size_def le_imp_power_dvd)

lemma size_dvd_base: "net_wf n \<Longrightarrow> net_size n dvd net_base n"
  by (simp add: net_wf_def net_size_def)

lemma indices_small:
  assumes inv: "cs_inv s" and wf: "net_wf c" and ov: "overlaps c (cs_clusterCIDR s)" "mask_ones (cs_clusterCIDR s) < mask_ones c"
  obtains b e where "covered c s = {b..e}"
    and "getIndexForIP (ip_Mask (net_IP c) (cs_subNetMaskSize s) (mask_bits (cs_clusterCIDR s))) s = Inr b"
    and "getIndexForIP (ip_Mask (lastIP c) (cs_subNetMaskSize s) (mask_bits (cs_clusterCIDR s))) s = Inr e"
proof -
  note d = cs_invD [OF inv]
  let ?cl = "cs_clusterCIDR s"
  have len: "length (net_IP c) = length (net_IP ?cl)" using ov(1) by (simp add: overlaps_def)
  have "mask_bits c = mask_bits ?cl" using wf_family [OF wf] wf_family [OF d(1)] len by auto
  then have "net_base ?cl \<le> net_base c \<and> net_base c + net_size c \<le> net_base ?cl + net_size ?cl"
    using aligned_nested [OF size_dvd_base [OF wf] size_dvd [of ?cl c] size_dvd_base [OF d(1)] net_size_pos net_size_pos] ov
    by (simp add: overlaps_def)
  then obtain y where y: "net_base c = net_base ?cl + y" "y + net_size c \<le> net_size ?cl"
    by (metis add.assoc add_le_cancel_left le_Suc_ex)
  have ok: "bytes_ok (net_IP c)" using wf by (simp add: net_wf_def)
  note l = lastIP_value [OF wf]
  show thesis
  proof (rule that)
    show "covered c s = {y div block_size s..(y + (net_size c - 1)) div block_size s}" by (rule covered_small [OF inv len y])
    show "getIndexForIP (ip_Mask (net_IP c) (cs_subNetMaskSize s) (mask_bits ?cl)) s = Inr (y div block_size s)"
      using y net_size_pos [of c] by (intro index_masked [OF inv len ok]) linarith+
    show "getIndexForIP (ip_Mask (lastIP c) (cs_subNetMaskSize s) (mask_bits ?cl)) s = Inr ((y + (net_size c - 1)) div block_size s)"
      using l len y net_size_pos [of c] by (intro index_masked [OF inv]) linarith+
  qed
qed

lemma nat_image_between: "nat ` {int b..int e} = {b..e}"
  by (simp flip: image_int_atLeastAtMost add: image_image)

lemma nat_image_below: "nat ` {0..int n - 1} = {..<n}"
proof -
  have "{0..int n - 1} = int ` {0..<n}" by (auto simp: image_int_atLeastLessThan)
  then show ?thesis by (simp only: image_image nat_int image_ident lessThan_atLeast0)
qed

lemma indices_correct:
  assumes inv: "cs_inv s" and wf: "net_wf c" "above_mapped c"
  shows "if overlaps c (cs_clusterCIDR s)
    then \<exists>b e. getBeginingAndEndIndices (Some c) s = Some (Inr (b, e)) \<and> covered c s = nat ` {b..e}
    else getBeginingAndEndIndices (Some c) s = Some (Inl ErrCIDROutOfRange) \<and> covered c s = {}"
proof -
  note d = cs_invD [OF inv]
  let ?cl = "cs_clusterCIDR s"
  have c: "\<not> net_Contains (ip_Mask (net_IP c) (mask_ones ?cl) (mask_bits ?cl)) ?cl \<and>
      \<not> net_Contains (ip_Mask (net_IP ?cl) (mask_ones c) (mask_bits c)) c \<longleftrightarrow> \<not> overlaps c ?cl"
    using net_size_pos [of c] net_size_pos [of ?cl]
    by (auto simp: Contains_masked [OF d(1,8) wf(1)] Contains_masked [OF wf d(1)] overlaps_def)
  show ?thesis
  proof (cases "overlaps c ?cl")
    case False
    have "covered c s = {}"
    proof -
      have "\<not> overlaps c (indexToCIDRBlock i s)" if i: "i < cs_count s" for i
        using False block_inside [OF inv i] by (auto simp: overlaps_def inside_def)
      then show ?thesis by (auto simp: covered_def)
    qed
    then show ?thesis using False c by (simp add: getBeginingAndEndIndices_def Let_def)
  next
    case True
    then have len: "length (net_IP c) = length (net_IP ?cl)" by (simp add: overlaps_def)
    then have bits: "mask_bits c = mask_bits ?cl" using wf_family [OF wf(1)] wf_family [OF d(1)] by auto
    show ?thesis
    proof (cases "mask_ones ?cl < mask_ones c")
      case small: True
      obtain b e where be: "covered c s = {b..e}"
        "getIndexForIP (ip_Mask (net_IP c) (cs_subNetMaskSize s) (mask_bits ?cl)) s = Inr b"
        "getIndexForIP (ip_Mask (lastIP c) (cs_subNetMaskSize s) (mask_bits ?cl)) s = Inr e"
        using indices_small [OF inv wf(1) True small] by blast
      have sz: "(if To4 (net_IP c) = None then 16 else 4) * 8 = mask_bits ?cl"
        using wf(1) bits by (cases rule: net_families) simp_all
      have "getBeginingAndEndIndices (Some c) s = Some (Inr (int b, int e))"
        unfolding getBeginingAndEndIndices_def Let_def option.case c using True small be(2,3) d(3) sz
        by (simp add: getIndexForCIDR_def)
      then show ?thesis using True be(1) nat_image_between [of b e] by auto
    next
      case large: False
      then have "net_base c \<le> net_base ?cl \<and> net_base ?cl + net_size ?cl \<le> net_base c + net_size c"
        using aligned_nested [OF size_dvd_base [OF d(1)] size_dvd [of c ?cl] size_dvd_base [OF wf(1)] net_size_pos net_size_pos] True bits
        by (simp add: overlaps_def)
      then have cov: "covered c s = {..<cs_count s}" using covered_large [OF inv len] by blast
      have "getBeginingAndEndIndices (Some c) s = Some (Inr (0, int (cs_count s) - 1))"
        unfolding getBeginingAndEndIndices_def Let_def option.case c using True large d(3,6) by simp
      then show ?thesis using True cov nat_image_below [of "cs_count s"] by auto
    qed
  qed
qed

section \<open>Correctness of the set of subnets\<close>

definition cs_blocks :: "CidrSet \<Rightarrow> IPNet set" where
  "cs_blocks s = (\<lambda>i. indexToCIDRBlock i s) ` {..<cs_count s}"

definition cs_taken :: "CidrSet \<Rightarrow> IPNet set" where
  "cs_taken s = (\<lambda>i. indexToCIDRBlock i s) ` bitset (cs_used s)"

text \<open>
  The operations on a set of subnets of the network \<open>n\<close>, with the set of the blocks that are in use.  There are
  fewer than 2 ^ 32 blocks, as an index is cut to 32 bits.
\<close>

inductive cs_run :: "IPNet \<Rightarrow> nat \<Rightarrow> CidrSet \<Rightarrow> IPNet set \<Rightarrow> bool" for n sub where
  new: "cs_run n sub s {}"
    if "net_wf n" "above_mapped n" "mask_ones n \<le> sub" "sub \<le> mask_bits n" "sub < mask_ones n + 32" "NewCIDRSet n sub = Inr s"
| allocate_next: "cs_run n sub s' (insert c U)" if "cs_run n sub s U" "cs_AllocateNext s = (Inr c, s')"
| occupy: "cs_run n sub s' (U \<union> {b \<in> cs_blocks s. overlaps c b})"
    if "cs_run n sub s U" "net_wf c" "above_mapped c" "cs_Occupy (Some c) s = Some (None, s')"
| release: "cs_run n sub s' (U - {b. overlaps c b})"
    if "cs_run n sub s U" "net_wf c" "above_mapped c" "cs_Release (Some c) s = Some (None, s')"

lemma block_inj:
  assumes "cs_inv s" "i < cs_count s" "j < cs_count s" "indexToCIDRBlock i s = indexToCIDRBlock j s"
  shows "i = j"
proof -
  have "i * block_size s = j * block_size s"
    using block_facts(1) [OF assms(1,2)] block_facts(1) [OF assms(1,3)] unfolding assms(4) by linarith
  then show ?thesis using block_size_pos [of s] by simp
qed

lemma used_bounded: "cs_inv s \<Longrightarrow> i \<in> bitset (cs_used s) \<Longrightarrow> i < cs_count s"
  by (auto simp: cs_inv_def)

lemma covered_blocks: "cs_inv s \<Longrightarrow> (\<lambda>i. indexToCIDRBlock i s) ` covered c s = {b \<in> cs_blocks s. overlaps c b}"
  by (auto simp: covered_def cs_blocks_def)

lemma taken_minus:
  assumes "cs_inv s"
  shows "(\<lambda>i. indexToCIDRBlock i s) ` (bitset (cs_used s) - covered c s) = cs_taken s - {b. overlaps c b}"
  using used_bounded [OF assms] by (auto simp: covered_def cs_taken_def)

lemma cs_used_update:
  assumes "cs_inv s" "bitset u \<subseteq> {..<cs_count s}"
  shows "cs_inv (s\<lparr>cs_used := u\<rparr>) \<and> cs_taken (s\<lparr>cs_used := u\<rparr>) = (\<lambda>i. indexToCIDRBlock i s) ` bitset u \<and>
    cs_clusterCIDR (s\<lparr>cs_used := u\<rparr>) = cs_clusterCIDR s \<and> cs_subNetMaskSize (s\<lparr>cs_used := u\<rparr>) = cs_subNetMaskSize s"
  using cs_inv_update [OF assms, of "cs_nextCandidate s"] block_other [where s = s and n = "cs_nextCandidate s" and u = u] assms(1)
  by (simp add: cs_taken_def cs_inv_def)

lemma Occupy_law:
  assumes inv: "cs_inv s" and c: "net_wf c" "above_mapped c" and r: "cs_Occupy (Some c) s = Some (None, s')"
  shows "cs_inv s' \<and> cs_taken s' = cs_taken s \<union> {b \<in> cs_blocks s. overlaps c b} \<and>
    cs_clusterCIDR s' = cs_clusterCIDR s \<and> cs_subNetMaskSize s' = cs_subNetMaskSize s"
proof -
  from indices_correct [OF inv c] r obtain b e
    where be: "getBeginingAndEndIndices (Some c) s = Some (Inr (b, e))" "covered c s = nat ` {b..e}"
    by (auto simp: cs_Occupy_def split: if_splits)
  let ?u = "fold (\<lambda>i. set_bit (nat i)) [b..e] (cs_used s)"
  have u: "bitset ?u = bitset (cs_used s) \<union> covered c s" by (simp add: bitset_fold_set be(2))
  then have "bitset ?u \<subseteq> {..<cs_count s}" using used_bounded [OF inv] by (auto simp: covered_def)
  moreover have "s' = s\<lparr>cs_used := ?u\<rparr>" using r be(1) by (simp add: cs_Occupy_def)
  ultimately show ?thesis
    using cs_used_update [OF inv] u by (simp add: image_Un covered_blocks [OF inv]) (simp add: cs_taken_def)
qed

lemma Release_law:
  assumes inv: "cs_inv s" and c: "net_wf c" "above_mapped c" and r: "cs_Release (Some c) s = Some (None, s')"
  shows "cs_inv s' \<and> cs_taken s' = cs_taken s - {b. overlaps c b} \<and>
    cs_clusterCIDR s' = cs_clusterCIDR s \<and> cs_subNetMaskSize s' = cs_subNetMaskSize s"
proof -
  from indices_correct [OF inv c] r obtain b e
    where be: "getBeginingAndEndIndices (Some c) s = Some (Inr (b, e))" "covered c s = nat ` {b..e}"
    by (auto simp: cs_Release_def split: if_splits)
  let ?u = "fold (\<lambda>i. unset_bit (nat i)) [b..e] (cs_used s)"
  have u: "bitset ?u = bitset (cs_used s) - covered c s" by (simp add: bitset_fold_unset be(2))
  then have "bitset ?u \<subseteq> {..<cs_count s}" using used_bounded [OF inv] by auto
  moreover have "s' = s\<lparr>cs_used := ?u\<rparr>" using r be(1) by (simp add: cs_Release_def)
  ultimately show ?thesis using cs_used_update [OF inv] u by (simp add: taken_minus [OF inv])
qed

lemma NewCIDRSet_value:
  assumes "mask_ones n \<le> sub" "sub < mask_ones n + 32" "NewCIDRSet n sub = Inr s"
  shows "s = \<lparr>cs_clusterCIDR = n, cs_clusterIP = net_IP n, cs_clusterMaskSize = mask_ones n,
    cs_maxCIDRs = 2 ^ (sub - mask_ones n), cs_nextCandidate = 0, cs_used = 0, cs_subNetMaskSize = sub\<rparr>"
proof -
  have d: "nat (int sub - int (mask_ones n)) = sub - mask_ones n" "\<not> int sub - int (mask_ones n) < 0" using assms(1) by simp_all
  have "(2::int) ^ (sub - mask_ones n) < 2 ^ 63" using assms(2) by (intro power_strict_increasing) auto
  then have "signed64 (2 ^ (sub - mask_ones n)) = 2 ^ (sub - mask_ones n)" by (intro signed64_id) simp_all
  then show ?thesis
    using assms(3) unfolding NewCIDRSet_def Let_def d if_not_P [OF d(2)]
    by (simp only: sum.inject sum.distinct simp_thms split: if_splits)
qed

lemma NewCIDRSet_inv:
  assumes "net_wf n" "above_mapped n" "mask_ones n \<le> sub" "sub \<le> mask_bits n" "sub < mask_ones n + 32" "NewCIDRSet n sub = Inr s"
  shows "cs_inv s \<and> cs_taken s = {} \<and> cs_clusterCIDR s = n \<and> cs_subNetMaskSize s = sub"
  unfolding NewCIDRSet_value [OF assms(3,5,6)] using assms(1-5) by (simp add: cs_inv_def cs_count_def cs_taken_def)

lemma cs_run_inv: "cs_run n sub s U \<Longrightarrow> cs_inv s \<and> cs_taken s = U \<and> cs_clusterCIDR s = n \<and> cs_subNetMaskSize s = sub"
proof (induction rule: cs_run.induct)
  case (new s)
  then show ?case by (rule NewCIDRSet_inv)
next
  case (allocate_next s U c s')
  then have inv: "cs_inv s" by simp
  have "cs_subNetMaskSize s' = cs_subNetMaskSize s"
    using allocate_next(2) by (auto simp: cs_AllocateNext_def Let_def split: option.splits)
  moreover obtain i where "c = indexToCIDRBlock i s" "cs_inv s'" "bitset (cs_used s') = insert i (bitset (cs_used s))"
      "cs_clusterCIDR s' = cs_clusterCIDR s" "\<And>j. indexToCIDRBlock j s' = indexToCIDRBlock j s"
    by (rule AllocateNext_cases [OF inv]) (simp_all add: allocate_next(2))
  ultimately show ?case using allocate_next(3) by (simp add: cs_taken_def)
next
  case (occupy s U c s')
  then show ?case using Occupy_law [of s c s'] by simp
next
  case (release s U c s')
  then show ?case using Release_law [of s c s'] by simp
qed

lemma block_wf:
  assumes inv: "cs_inv s" and i: "i < cs_count s"
  shows "net_wf (indexToCIDRBlock i s) \<and> above_mapped (indexToCIDRBlock i s)"
proof -
  note d = cs_invD [OF inv] and b = block_facts [OF assms] and v = block_value [OF assms]
  let ?c = "indexToCIDRBlock i s" and ?cl = "cs_clusterCIDR s"
  have m: "mask_bits ?c = mask_bits ?cl" "bytes_ok (net_IP ?c)" using v by (simp_all add: putBE_ok)
  have up: "above_mapped ?c" using d(8) b(1,3) by (simp add: above_mapped_def trans_le_add1)
  have "block_size s dvd net_base ?cl"
    using count_blocks [OF inv] size_dvd_base [OF d(1)] by (metis dvd_trans dvd_triv_right)
  then have "block_size s dvd net_base ?c" using b(1) by simp
  then have "2 ^ (mask_bits ?c - mask_ones ?c) dvd net_base ?c" using b(2) by (simp add: net_size_def)
  moreover have "To4 (net_IP ?c) = None" if "length (net_IP ?c) = 16"
    using not_mapped [OF that m(2)] up that by (simp add: above_mapped_def)
  ultimately show ?thesis using up m b(3,4) wf_family [OF d(1)] d(5) by (simp add: net_wf_def)
qed

lemma covered_block: "cs_inv s \<Longrightarrow> i < cs_count s \<Longrightarrow> covered (indexToCIDRBlock i s) s = {i}"
proof -
  assume inv: "cs_inv s" and i: "i < cs_count s"
  have "overlaps (indexToCIDRBlock i s) (indexToCIDRBlock i s)"
    using block_facts(2) [OF inv i] block_size_pos [of s] by (simp add: overlaps_def)
  then show ?thesis using blocks_disjoint [OF inv i] i by (auto simp: covered_def)
qed

text \<open>C37. Whatever subnets were allocated, occupied and released, the blocks in use are blocks of the cluster network
  that do not overlap.  AllocateNext hands out a block of the wanted size that lies in the cluster network and
  overlaps no block in use, for both address families; it fails only when every block is in use.\<close>

theorem cidr_set_correct:
  assumes "cs_run n sub s U"
  shows "(\<forall>b \<in> U. inside b n \<and> mask_ones b = sub \<and> (\<forall>c \<in> U. b = c \<or> \<not> overlaps b c))
    \<and> (case cs_AllocateNext s of
         (Inr c, s') \<Rightarrow> inside c n \<and> mask_ones c = sub \<and> (\<forall>b \<in> U. \<not> overlaps c b)
       | (Inl e, s') \<Rightarrow> e = ErrCIDRRangeNoCIDRsRemaining \<and> s' = s \<and> card U = 2 ^ (sub - mask_ones n))"
proof -
  have inv: "cs_inv s" and U: "U = (\<lambda>i. indexToCIDRBlock i s) ` bitset (cs_used s)"
    and n: "cs_clusterCIDR s = n" "cs_subNetMaskSize s = sub"
    using cs_run_inv [OF assms] by (auto simp: cs_taken_def)
  note bound = used_bounded [OF inv]
  have blk: "inside (indexToCIDRBlock i s) n \<and> mask_ones (indexToCIDRBlock i s) = sub" if "i < cs_count s" for i
    using block_inside [OF inv that] block_facts(4) [OF inv that] n by simp
  have dis: "indexToCIDRBlock i s = indexToCIDRBlock j s \<or> \<not> overlaps (indexToCIDRBlock i s) (indexToCIDRBlock j s)"
    if "i < cs_count s" "j < cs_count s" for i j
    using blocks_disjoint [OF inv that] by (cases "i = j") simp_all
  have "\<forall>b \<in> U. inside b n \<and> mask_ones b = sub \<and> (\<forall>c \<in> U. b = c \<or> \<not> overlaps b c)"
    unfolding U using blk dis bound by blast
  moreover have "case cs_AllocateNext s of
         (Inr c, s') \<Rightarrow> inside c n \<and> mask_ones c = sub \<and> (\<forall>b \<in> U. \<not> overlaps c b)
       | (Inl e, s') \<Rightarrow> e = ErrCIDRRangeNoCIDRsRemaining \<and> s' = s \<and> card U = 2 ^ (sub - mask_ones n)"
    using inv
  proof (cases rule: AllocateNext_cases)
    case (got i s')
    have "\<not> overlaps (indexToCIDRBlock i s) b" if "b \<in> U" for b
      using that got(3) blocks_disjoint [OF inv got(2)] bound unfolding U by blast
    then show ?thesis using got(1) blk [OF got(2)] by simp
  next
    case full
    have "inj_on (\<lambda>i. indexToCIDRBlock i s) {..<cs_count s}" by (rule inj_onI) (auto intro: block_inj [OF inv])
    then have "card U = cs_count s" unfolding U full(2) by (simp add: card_image)
    then show ?thesis using full(1) n cs_invD(3) [OF inv] by (simp add: cs_count_def)
  qed
  ultimately show ?thesis by blast
qed

text \<open>C38. A block that AllocateNext hands out is a well-formed network of the family of the cluster network: its address
  has the right number of bytes, every byte is below 256, and the bits after its mask are zero.\<close>

theorem blocks_well_formed:
  assumes "cs_run n sub s U" and "cs_AllocateNext s = (Inr c, s')"
  shows "net_wf c \<and> length (net_IP c) = length (net_IP n) \<and> mask_bits c = mask_bits n \<and> mask_ones c = sub"
proof -
  have inv: "cs_inv s" and n: "cs_clusterCIDR s = n" "cs_subNetMaskSize s = sub" using cs_run_inv [OF assms(1)] by auto
  obtain i where i: "c = indexToCIDRBlock i s" "i < cs_count s"
    by (rule AllocateNext_cases [OF inv]) (simp_all add: assms(2))
  have "mask_bits c = mask_bits n" using block_value [OF inv i(2)] i(1) n(1) by simp
  then show ?thesis using block_wf [OF inv i(2)] block_facts(3,4) [OF inv i(2)] i(1) n by simp
qed

text \<open>C39. Releasing a block that AllocateNext handed out succeeds and gives back exactly that block: the bits in use are what
  they were before.\<close>

theorem allocate_release_round_trip:
  assumes "cs_run n sub s U" and "cs_AllocateNext s = (Inr c, s')"
  shows "\<exists>s''. cs_Release (Some c) s' = Some (None, s'') \<and> cs_used s'' = cs_used s"
proof -
  have inv: "cs_inv s" using cs_run_inv [OF assms(1)] by simp
  obtain i where i: "c = indexToCIDRBlock i s" "i < cs_count s" "i \<notin> bitset (cs_used s)" "cs_inv s'"
      "bitset (cs_used s') = insert i (bitset (cs_used s))" "\<And>j. indexToCIDRBlock j s' = indexToCIDRBlock j s"
      "cs_clusterCIDR s' = cs_clusterCIDR s" "cs_count s' = cs_count s"
    by (rule AllocateNext_cases [OF inv]) (simp_all add: assms(2))
  have i': "i < cs_count s'" "c = indexToCIDRBlock i s'" using i by simp_all
  note wf = block_wf [OF i(4) i'(1), folded i'(2)]
  have "covered c s' = {i}" unfolding i'(2) by (rule covered_block [OF i(4) i'(1)])
  with indices_correct [OF i(4), of c] wf obtain b e
    where be: "getBeginingAndEndIndices (Some c) s' = Some (Inr (b, e))" "nat ` {b..e} = {i}"
    by (auto split: if_splits)
  let ?u = "fold (\<lambda>i. unset_bit (nat i)) [b..e] (cs_used s')"
  have "bitset ?u = bitset (cs_used s)" using i(3,5) be(2) by (simp add: bitset_fold_unset)
  then have "?u = cs_used s" by (intro bit_eqI) (simp add: bit_bitset)
  then show ?thesis using be(1) by (simp add: cs_Release_def)
qed

text \<open>The cluster network 10.1.0.0/16 with subnets of 24 bits, for nodes.\<close>

definition example_cluster :: IPNet where
  "example_cluster = \<lparr>net_IP = [10, 1, 0, 0], mask_ones = 16, mask_bits = 32\<rparr>"

definition example_set :: CidrSet where
  "example_set = \<lparr>cs_clusterCIDR = example_cluster, cs_clusterIP = [10, 1, 0, 0], cs_clusterMaskSize = 16, cs_maxCIDRs = 256,
     cs_nextCandidate = 0, cs_used = 0, cs_subNetMaskSize = 24\<rparr>"

lemma example_set_run: "cs_run example_cluster 24 example_set {}"
  by (rule cs_run.new)
    (simp_all add: example_cluster_def example_set_def net_wf_def above_mapped_def bytes_ok_def big_SetBytes_def NewCIDRSet_def
      To4_def signed64_def Let_def)

definition example_subnet :: "nat \<Rightarrow> IPNet" where
  "example_subnet k = \<lparr>net_IP = [10, 1, k, 0], mask_ones = 24, mask_bits = 32\<rparr>"

definition example_set1 :: CidrSet where
  "example_set1 = example_set\<lparr>cs_nextCandidate := 1, cs_used := 1\<rparr>"

lemma or_base [simp]: "(167837696::nat) OR 256 = 167837952"
  by (subst or_add [of 16]) simp_all

lemma putBE_4: "putBE 4 v = [v div 256 div 256 div 256 mod 256, v div 256 div 256 mod 256, v div 256 mod 256, v mod 256]"
proof -
  have "(4::nat) = Suc (Suc (Suc (Suc 0)))" by simp
  then show ?thesis by (simp only: putBE.simps append.simps)
qed

lemma example_block:
  "indexToCIDRBlock 0 (example_set\<lparr>cs_nextCandidate := c, cs_used := u\<rparr>) = example_subnet 0"
  "indexToCIDRBlock 1 (example_set\<lparr>cs_nextCandidate := c, cs_used := u\<rparr>) = example_subnet 1"
  by (simp_all add: example_set_def example_subnet_def indexToCIDRBlock_def To4_def shl_def BE_Uint32_def big_SetBytes_def
      putBE_4 Let_def)

lemma example_allocate:
  "cs_AllocateNext example_set = (Inr (example_subnet 0), example_set1)"
  "fst (cs_AllocateNext example_set1) = Inr (example_subnet 1)"
proof -
  have "findUnused 0 example_set = Some 0" by (simp add: findUnused.simps example_set_def)
  then show "cs_AllocateNext example_set = (Inr (example_subnet 0), example_set1)"
    using example_block(1) [of 1 1]
    by (simp add: cs_AllocateNext_def example_set1_def Let_def set_bit_0) (simp add: example_set_def)
  have "findUnused 0 example_set1 = Some 1"
    by (simp add: findUnused.simps [of 0] findUnused.simps [of 1] example_set1_def example_set_def bit_1_iff)
  then show "fst (cs_AllocateNext example_set1) = Inr (example_subnet 1)"
    using example_block(2) by (simp add: cs_AllocateNext_def example_set1_def Let_def)
qed

theorem cidr_set_correct_witness:
  "inside (example_subnet 1) example_cluster \<and> \<not> overlaps (example_subnet 1) (example_subnet 0)"
  using cidr_set_correct [OF cs_run.allocate_next [OF example_set_run example_allocate(1)]] example_allocate(2)
  by (simp add: case_prod_beta)

theorem blocks_well_formed_witness: "net_wf (example_subnet 0) \<and> mask_ones (example_subnet 0) = 24"
  using blocks_well_formed [OF example_set_run example_allocate(1)] by simp

theorem allocate_release_round_trip_witness:
  "\<exists>s''. cs_Release (Some (example_subnet 0)) example_set1 = Some (None, s'') \<and> cs_used s'' = 0"
  using allocate_release_round_trip [OF example_set_run example_allocate(1)] by (simp add: example_set_def)

end
