(* ===== verification/Spec2Isabelle.thy ===== *)
theory Spec2Isabelle
  imports Rbac_Authorizer Informer Scheduling_Queue Rate_Limiters Port_Allocator Ip_Allocator Cidr_Set
begin

text \<open>
  A verification of components of Kubernetes 1.13.4.  Paths are relative to \<open>src/src/kubernetes-1.13.4/\<close>; CACHE stands for
  \<open>staging/src/k8s.io/client-go/tools/cache/\<close>, WORKQUEUE for \<open>staging/src/k8s.io/client-go/util/workqueue/\<close> and SERVICE for
  \<open>pkg/registry/core/service/\<close>.

  \<^bold>\<open>The parts and how they interact.\<close>  The API server asks the RBAC authorizer whether a request is allowed, and
  takes the addresses and node ports of services from allocators.  Controllers follow the objects of the API server with
  shared informers: a reflector fills a DeltaFIFO, the informer takes the changes from it, applies them to an indexed store
  and notifies listeners, which put keys on work queues that delay and limit retries.  The scheduler keeps pods that
  wait in a queue of its own, on a keyed heap.  The controller of nodes gives each node a subnet of the cluster
  network.

  \<^bold>\<open>Modelling.\<close>  Structs are records, enumerations and interfaces with known implementations are datatypes, methods are functions that
  take and return the state.  Errors are values of sum or option types; a panic is the result None or an error of its own; an
  operation that blocks on a condition variable returns that it waits.  Operations that run under a lock are atomic, and
  concurrent use is a sequence of operations in any order.  Strings are lists of characters.  Go maps are partial
  functions; where the code iterates over a map, the order is an argument, so that the theorems hold for every
  order.  Big integers are natural numbers; fixed-width integers have their wrap-around written out where a result can leave the
  range.  Loops are recursive functions with a termination proof; no definition uses fuel.

  \<^bold>\<open>Theories.\<close>

  \<^item> K8s_Prelude: the functions of the package strings that the components use, Go slices and maps, and lemmas on lists and maps.

  \<^item> Rbac_Rules: \<open>pkg/apis/rbac/v1/evaluation_helpers.go\<close>, \<open>pkg/registry/rbac/validation/policy_comparator.go\<close> and
    \<open>policy_compact.go\<close>.  Matching a request against a rule, Covers, BreakdownRule, CompactRules.  Covers is sound and
    complete for what it reports, and breakdown and compaction keep the requests that rules allow.

  \<^item> Rbac_Authorizer: \<open>pkg/registry/rbac/validation/rule.go\<close>, \<open>plugin/pkg/auth/authorizer/rbac/rbac.go\<close>,
    \<open>subject_locator.go\<close> and the union authorizer.  A request is allowed exactly when some binding that applies to the user
    refers to a role with a matching rule; a user that passes the escalation check holds what is granted.  The locale RequestToRuleMapper is
    what the authorizer needs of a resolver.

  \<^item> Thread_Safe_Store: CACHE \<open>thread_safe_store.go\<close> and \<open>store.go\<close>.  Indices always agree with the items, for any sequence of
    operations.  The locale KeyListerGetter is what DeltaFIFO needs of the store.

  \<^item> Delta_FIFO: CACHE \<open>delta_fifo.go\<close>.  The invariant of the queue and the meaning of Replace for every key, the cases
    where Replace does not follow the list included.

  \<^item> Informer: CACHE \<open>shared_informer.go\<close>, \<open>controller.go\<close>, the store operations of \<open>reflector.go\<close>, and \<open>util/buffer/ring_growing.go\<close>.
    When the queue is drained, the store is what the watch reported; HasSynced says that the first list was handled; listeners
    get every notification in order, over the locale notification_buffer that the ring buffer interprets, but those without
    a resync period hear of a relist only what it deletes.

  \<^item> Go_Heap: the functions of container/heap over the locale heap_interface (Len, Less, Swap of a client), with the
    correctness of Push, Pop, Remove and Fix.  Scheduling_Heap and Delaying_Queue interpret it.

  \<^item> Scheduling_Heap and Scheduling_Queue: \<open>pkg/scheduler/internal/queue/scheduling_queue.go\<close>.  The locale keyed_heap extends
    heap_interface.  After any operations each waiting pod is in exactly one queue, Pop returns pods by priority and age, and a
    move request is not lost while a pod is scheduled.

  \<^item> Work_Queue, Delaying_Queue, Rate_Limiters: WORKQUEUE \<open>queue.go\<close>, \<open>delaying_queue.go\<close>, \<open>default_rate_limiters.go\<close> and
    \<open>rate_limitting_queue.go\<close>.  An item is processed by one worker at a time, is never lost, and is handed out in turn; the
    waiting loop, a state machine, adds an item when its earliest request is due and ends after a shutdown; the delays of
    the limiters and where their computation overflows.  The delaying queue uses the work queue through the locale adding_queue.

  \<^item> Bitmap_Allocator, Port_Allocator, Net_Addresses, Ip_Allocator: SERVICE \<open>allocator/bitmap.go\<close>, \<open>utils.go\<close>,
    \<open>portallocator/allocator.go\<close>, \<open>operation.go\<close> and \<open>ipallocator/allocator.go\<close>.  The locale offset_allocator is the contract of the
    bitmap; ports and addresses refine to sets over it.  Allocation returns what is free and fails only when the range is
    full; snapshots restore; transactions roll back; the networks in which the address allocator fails.

  \<^item> Cidr_Set: \<open>pkg/controller/nodeipam/ipam/cidrset/cidr_set.go\<close>.  The subnets handed out lie in the cluster network, are well formed
    and never overlap a subnet in use, for IPv4 and IPv6; releasing gives back what was allocated.

  \<^bold>\<open>Parameters and bounds.\<close>  Code that is not part of the sources is an argument: random numbers, the token
  bucket of golang.org/x/time/rate, key functions, the clock, the string forms of ranges.  Theorems on addresses assume networks as
  ParseCIDR returns them; a network of service addresses has a first byte that is not zero, and the addresses that callers name lie
  within 2 ^ 63 of its own, which holds for every address of a network of at most 63 bits, as the code is wrong
  otherwise (theorem leading_zero_lost, lemma large_network_confuses); the interface of allocators is the bitmap in memory, which returns
  no errors of its own; failure counters are unbounded; a cluster network has fewer than 2 ^ 32 subnets, as the code cuts indices to
  32 bits, and an IPv6 one lies above the IPv4-mapped addresses, which the package net takes for IPv4.

  \<^bold>\<open>Not modelled.\<close>  Input and output, and clients of services outside of the sources: the HTTP layer, etcd, container runtimes, cloud
  providers, volumes, the network proxy, command line tools, minikube.  Generated code: clients, conversions, deep copies.  API validation and
  defaulting, which are field by field checks.  Message formatting, logging and metrics.  The start and the end of
  goroutines and the timers of the informer.  Candidates for later work are the scheduler cache and its
  predicates, the expectations of controllers and the assignment of CPUs by the kubelet.
\<close>

end
